(* ===== verification/Prelude.thy ===== *)
theory Prelude
  imports Main "HOL-Library.Word"
begin

text \<open>
  Shared ground of the development: names of the machine types, the error
  numbers of \<^verbatim>\<open>lib/libc/minimal/include/errno.h\<close> that the kernel returns, the
  single-bit masks of \<^verbatim>\<open>BIT(n)\<close>, the outcome of a call that may block, the
  collections of simplification rules the component theories extend, and
  generic facts on lists that several components use.
\<close>

unbundle bit_operations_syntax

section \<open>Names for machine types\<close>

type_synonym tid = nat          \<comment> \<open>address of a \<open>struct k_thread\<close>\<close>
type_synonym addr = nat         \<comment> \<open>a C pointer; 0 is \<open>NULL\<close>\<close>
type_synonym ticks = int        \<comment> \<open>\<open>k_ticks_t\<close> with \<open>CONFIG_TIMEOUT_64BIT\<close>\<close>
type_synonym u8 = "8 word"
type_synonym u16 = "16 word"
type_synonym u32 = "32 word"
type_synonym u64 = "64 word"

section \<open>Error numbers\<close>

definition EPERM :: int where "EPERM = 1"
definition EAGAIN :: int where "EAGAIN = 11"
definition ENOMEM :: int where "ENOMEM = 12"
definition EBUSY :: int where "EBUSY = 16"
definition EINVAL :: int where "EINVAL = 22"
definition ENOMSG :: int where "ENOMSG = 35"
definition EDEADLK :: int where "EDEADLK = 45"

lemmas errno_defs = EPERM_def EAGAIN_def ENOMEM_def EBUSY_def EINVAL_def ENOMSG_def EDEADLK_def

section \<open>Collections\<close>

named_theorems flag_simps \<open>thread-state predicates as tests of single bits\<close>
named_theorems kdefs \<open>definitions of the small kernel routines, for unfolding\<close>
named_theorems inv_intro \<open>invariant preservation, one rule per kernel routine\<close>

section \<open>Single-bit masks\<close>

definition BIT :: "nat \<Rightarrow> 'a::len word" where
  "BIT n = push_bit n 1"

lemma BIT_exp: "BIT n = (2 ^ n :: 'a::len word)"
  by (simp add: BIT_def push_bit_eq_mult)

lemma bit_BIT [simp]: "bit (BIT m :: 'a::len word) n \<longleftrightarrow> n < LENGTH('a) \<and> m = n"
  by (auto simp: BIT_exp bit_exp_iff possible_bit_def)

lemma and_BIT_nonzero [simp]: "(x AND BIT n \<noteq> 0) \<longleftrightarrow> bit (x :: 'a::len word) n"
  by (simp add: BIT_exp and_exp_eq_0_iff_not_bit)

lemma and_BIT_zero [simp]: "(x AND BIT n = 0) \<longleftrightarrow> \<not> bit (x :: 'a::len word) n"
  by (simp add: BIT_exp and_exp_eq_0_iff_not_bit)

lemma and_or_zero_iff: "(x AND (y OR z) = 0) \<longleftrightarrow> x AND y = 0 \<and> x AND z = (0 :: 'a::len word)"
  by (auto simp: bit_eq_iff bit_simps)

lemma drop_bit_zero_iff: "drop_bit n w = 0 \<longleftrightarrow> unat (w :: 'a::len word) < 2 ^ n"
proof -
  have "drop_bit n w = 0 \<longleftrightarrow> drop_bit n (unat w) = 0"
    by (simp only: unat_drop_bit_eq [symmetric] unat_eq_zero)
  then show ?thesis by (simp only: drop_bit_nat_def div_eq_0_iff) simp
qed

lemma less_exp_iff_bits: "unat (w :: 'a::len word) < 2 ^ n \<longleftrightarrow> (\<forall>i \<ge> n. \<not> bit w i)"
proof
  assume "\<forall>i \<ge> n. \<not> bit w i"
  then have "drop_bit n w = 0" by (intro bit_eqI) (simp add: bit_drop_bit_eq)
  then show "unat w < 2 ^ n" by (simp only: drop_bit_zero_iff)
next
  assume "unat w < 2 ^ n"
  then have z: "drop_bit n w = 0" by (simp only: drop_bit_zero_iff)
  show "\<forall>i \<ge> n. \<not> bit w i"
  proof (intro allI impI)
    fix i assume "n \<le> i"
    then have "bit w i = bit (drop_bit n w) (i - n)" by (simp add: bit_drop_bit_eq)
    with z show "\<not> bit w i" by simp
  qed
qed

section \<open>The outcome of a call that may block\<close>

text \<open>
  A system call either runs to its return statement or switches the calling
  thread out inside \<open>z_pend_curr\<close>; what follows that call in the source runs
  when the thread is switched in again.
\<close>

datatype 'r outcome = Ret 'r | Pend

section \<open>Lists\<close>

lemma remove1_distinct_set: "distinct xs \<Longrightarrow> set (remove1 x xs) = set xs - {x}"
  by simp

lemma sorted_wrt_remove1: "sorted_wrt R xs \<Longrightarrow> sorted_wrt R (remove1 x xs)"
  by (induction xs) (auto dest: set_remove1_subset [THEN subsetD])

lemma remove1_append_notin: "x \<notin> set xs \<Longrightarrow> remove1 x (xs @ x # ys) = xs @ ys"
  by (simp add: remove1_append)

lemma filter_remove1_not: "\<not> P x \<Longrightarrow> filter P (remove1 x xs) = filter P xs"
  by (induction xs) auto

text \<open>Statements on a few numbers, for the checks of tables.\<close>

lemma less8: "(\<forall>n < 8. P n) \<longleftrightarrow> P 0 \<and> P 1 \<and> P 2 \<and> P 3 \<and> P 4 \<and> P 5 \<and> P 6 \<and> P (7 :: nat)"
  by (simp only: eval_nat_numeral All_less_Suc2 One_nat_def BitM.simps not_less0 simp_thms)

lemma less16: "(\<forall>n < 16. P n) \<longleftrightarrow> P 0 \<and> P 1 \<and> P 2 \<and> P 3 \<and> P 4 \<and> P 5 \<and> P 6 \<and> P 7 \<and> P 8 \<and> P 9 \<and> P 10 \<and> P 11 \<and>
    P 12 \<and> P 13 \<and> P 14 \<and> P (15 :: nat)"
  by (simp only: eval_nat_numeral All_less_Suc2 One_nat_def BitM.simps not_less0 simp_thms)

text \<open>In an ordered list, what an upward closed test reaches satisfies it to the end.\<close>

lemma dropWhile_upward:
  assumes "sorted_wrt R xs" "\<And>a b. R a b \<Longrightarrow> P a \<Longrightarrow> P b" "z \<in> set (dropWhile (\<lambda>x. \<not> P x) xs)"
  shows "P z"
  using assms(1,3)
proof (induction xs)
  case (Cons x xs)
  then show ?case by (cases "P x") (auto intro: assms(2))
qed simp

lemma While_append:
  assumes "\<forall>a \<in> set A. P a" "\<forall>b \<in> set B. \<not> P b"
  shows "takeWhile P (A @ B) = A" "dropWhile P (A @ B) = B"
  using assms by (induction A; cases B; auto)+

end
