(* ===== verification/Dlist.thy ===== *)
theory Dlist
  imports Prelude
begin

text \<open>
  The doubly linked list of \<^verbatim>\<open>include/zephyr/sys/dlist.h\<close>, at the level of the
  pointers: a store of nodes, the list header being a node of the ring. Every
  list of the kernel (run queue, wait queues, timeout list) is one of these;
  the component theories model them by HOL lists, and this theory proves that
  the pointer operations do to the ring what the list operations say.
\<close>

section \<open>Nodes and operations\<close>

record dnode =
  dnext :: addr   \<comment> \<open>\<open>next\<close>, or \<open>head\<close> of a list header\<close>
  dprev :: addr   \<comment> \<open>\<open>prev\<close>, or \<open>tail\<close> of a list header\<close>

type_synonym dheap = "addr \<Rightarrow> dnode"

definition set_next :: "addr \<Rightarrow> addr \<Rightarrow> dheap \<Rightarrow> dheap" where
  "set_next a v h = h(a := (h a)\<lparr>dnext := v\<rparr>)"

definition set_prev :: "addr \<Rightarrow> addr \<Rightarrow> dheap \<Rightarrow> dheap" where
  "set_prev a v h = h(a := (h a)\<lparr>dprev := v\<rparr>)"

definition sys_dlist_init :: "addr \<Rightarrow> dheap \<Rightarrow> dheap" where
  "sys_dlist_init l h = set_prev l l (set_next l l h)"

definition sys_dnode_init :: "addr \<Rightarrow> dheap \<Rightarrow> dheap" where
  "sys_dnode_init n h = set_prev n 0 (set_next n 0 h)"

definition sys_dnode_is_linked :: "addr \<Rightarrow> dheap \<Rightarrow> bool" where
  "sys_dnode_is_linked n h \<longleftrightarrow> dnext (h n) \<noteq> 0"

definition sys_dlist_is_head :: "addr \<Rightarrow> addr \<Rightarrow> dheap \<Rightarrow> bool" where
  "sys_dlist_is_head l n h \<longleftrightarrow> dnext (h l) = n"

definition sys_dlist_is_tail :: "addr \<Rightarrow> addr \<Rightarrow> dheap \<Rightarrow> bool" where
  "sys_dlist_is_tail l n h \<longleftrightarrow> dprev (h l) = n"

definition sys_dlist_is_empty :: "addr \<Rightarrow> dheap \<Rightarrow> bool" where
  "sys_dlist_is_empty l h \<longleftrightarrow> dnext (h l) = l"

definition sys_dlist_has_multiple_nodes :: "addr \<Rightarrow> dheap \<Rightarrow> bool" where
  "sys_dlist_has_multiple_nodes l h \<longleftrightarrow> dnext (h l) \<noteq> dprev (h l)"

definition sys_dlist_peek_head :: "addr \<Rightarrow> dheap \<Rightarrow> addr" where
  "sys_dlist_peek_head l h = (if sys_dlist_is_empty l h then 0 else dnext (h l))"

definition sys_dlist_peek_head_not_empty :: "addr \<Rightarrow> dheap \<Rightarrow> addr" where
  "sys_dlist_peek_head_not_empty l h = dnext (h l)"

definition sys_dlist_peek_next_no_check :: "addr \<Rightarrow> addr \<Rightarrow> dheap \<Rightarrow> addr" where
  "sys_dlist_peek_next_no_check l n h = (if n = dprev (h l) then 0 else dnext (h n))"

definition sys_dlist_peek_next :: "addr \<Rightarrow> addr \<Rightarrow> dheap \<Rightarrow> addr" where
  "sys_dlist_peek_next l n h = (if n \<noteq> 0 then sys_dlist_peek_next_no_check l n h else 0)"

definition sys_dlist_peek_prev_no_check :: "addr \<Rightarrow> addr \<Rightarrow> dheap \<Rightarrow> addr" where
  "sys_dlist_peek_prev_no_check l n h = (if n = dnext (h l) then 0 else dprev (h n))"

definition sys_dlist_peek_prev :: "addr \<Rightarrow> addr \<Rightarrow> dheap \<Rightarrow> addr" where
  "sys_dlist_peek_prev l n h = (if n \<noteq> 0 then sys_dlist_peek_prev_no_check l n h else 0)"

definition sys_dlist_peek_tail :: "addr \<Rightarrow> dheap \<Rightarrow> addr" where
  "sys_dlist_peek_tail l h = (if sys_dlist_is_empty l h then 0 else dprev (h l))"

definition sys_dlist_append :: "addr \<Rightarrow> addr \<Rightarrow> dheap \<Rightarrow> dheap" where
  "sys_dlist_append l n h =
     (let tail = dprev (h l) in
      set_prev l n (set_next tail n (set_prev n tail (set_next n l h))))"

definition sys_dlist_prepend :: "addr \<Rightarrow> addr \<Rightarrow> dheap \<Rightarrow> dheap" where
  "sys_dlist_prepend l n h =
     (let head = dnext (h l) in
      set_next l n (set_prev head n (set_prev n l (set_next n head h))))"

definition sys_dlist_insert :: "addr \<Rightarrow> addr \<Rightarrow> dheap \<Rightarrow> dheap" where
  "sys_dlist_insert successor n h =
     (let prev = dprev (h successor) in
      set_prev successor n (set_next prev n (set_next n successor (set_prev n prev h))))"

text \<open>
  The search loop of \<open>sys_dlist_insert_at\<close>. On an arbitrary store it need not
  end, so not returning is the value \<open>None\<close>.
\<close>

partial_function (option) insert_at_pos ::
  "(addr \<Rightarrow> bool) \<Rightarrow> addr \<Rightarrow> addr \<Rightarrow> dheap \<Rightarrow> addr option" where
  "insert_at_pos cond l pos h =
     (if pos \<noteq> 0 \<and> \<not> cond pos
      then insert_at_pos cond l (sys_dlist_peek_next l pos h) h
      else Some pos)"

definition sys_dlist_insert_at ::
  "addr \<Rightarrow> addr \<Rightarrow> (addr \<Rightarrow> bool) \<Rightarrow> dheap \<Rightarrow> dheap option" where
  "sys_dlist_insert_at l n cond h =
     (if sys_dlist_is_empty l h then Some (sys_dlist_append l n h)
      else case insert_at_pos cond l (sys_dlist_peek_head l h) h of
             None \<Rightarrow> None
           | Some pos \<Rightarrow>
               Some (if pos \<noteq> 0 then sys_dlist_insert pos n h else sys_dlist_append l n h))"

definition sys_dlist_remove :: "addr \<Rightarrow> dheap \<Rightarrow> dheap" where
  "sys_dlist_remove n h =
     (let prev = dprev (h n); next = dnext (h n) in
      sys_dnode_init n (set_prev next prev (set_next prev next h)))"

definition sys_dlist_get :: "addr \<Rightarrow> dheap \<Rightarrow> addr \<times> dheap" where
  "sys_dlist_get l h =
     (if \<not> sys_dlist_is_empty l h
      then (dnext (h l), sys_dlist_remove (dnext (h l)) h)
      else (0, h))"

section \<open>The ring a header denotes\<close>

fun dseg :: "dheap \<Rightarrow> addr \<Rightarrow> addr list \<Rightarrow> addr \<Rightarrow> bool" where
  "dseg h a [] b \<longleftrightarrow> dnext (h a) = b \<and> dprev (h b) = a"
| "dseg h a (x # xs) b \<longleftrightarrow> dnext (h a) = x \<and> dprev (h x) = a \<and> dseg h x xs b"

definition dlist_at :: "dheap \<Rightarrow> addr \<Rightarrow> addr list \<Rightarrow> bool" where
  "dlist_at h l xs \<longleftrightarrow> dseg h l xs l \<and> distinct (l # xs) \<and> 0 \<notin> set (l # xs)"

lemma set_next_simps [simp]:
  "dnext (set_next a v h b) = (if b = a then v else dnext (h b))"
  "dprev (set_next a v h b) = dprev (h b)"
  by (auto simp: set_next_def)

lemma set_prev_simps [simp]:
  "dprev (set_prev a v h b) = (if b = a then v else dprev (h b))"
  "dnext (set_prev a v h b) = dnext (h b)"
  by (auto simp: set_prev_def)

lemma dseg_append [simp]:
  "dseg h a (xs @ y # ys) b \<longleftrightarrow> dseg h a xs y \<and> dseg h y ys b"
  by (induction xs arbitrary: a) auto

lemma dseg_cong:
  assumes "\<And>x. x \<in> insert a (set xs) \<Longrightarrow> dnext (h' x) = dnext (h x)"
    and "\<And>x. x \<in> insert b (set xs) \<Longrightarrow> dprev (h' x) = dprev (h x)"
  shows "dseg h' a xs b = dseg h a xs b"
  using assms by (induction xs arbitrary: a) auto

lemma dseg_last: "dseg h a xs b \<Longrightarrow> dprev (h b) = last (a # xs)"
  by (induction xs arbitrary: a) auto

lemma dseg_first: "dseg h a xs b \<Longrightarrow> dnext (h a) = hd (xs @ [b])"
  by (cases xs) auto

lemma dlist_at_frame:
  assumes "dlist_at h m ys" "\<And>x. x \<in> set (m # ys) \<Longrightarrow> h' x = h x"
  shows "dlist_at h' m ys"
  using assms dseg_cong [of m ys h' h m] by (auto simp: dlist_at_def)

section \<open>Refinement of the list operations\<close>

lemma dlist_at_init: "l \<noteq> 0 \<Longrightarrow> dlist_at (sys_dlist_init l h) l []"
  by (simp add: dlist_at_def sys_dlist_init_def)

lemma dlist_is_empty: "dlist_at h l xs \<Longrightarrow> sys_dlist_is_empty l h \<longleftrightarrow> xs = []"
  by (cases xs) (auto simp: dlist_at_def sys_dlist_is_empty_def)

lemma dlist_peek_head: "dlist_at h l xs \<Longrightarrow> sys_dlist_peek_head l h = (if xs = [] then 0 else hd xs)"
  by (cases xs) (auto simp: dlist_at_def sys_dlist_peek_head_def sys_dlist_is_empty_def)

lemma dlist_peek_tail: "dlist_at h l xs \<Longrightarrow> sys_dlist_peek_tail l h = (if xs = [] then 0 else last xs)"
  using dlist_is_empty [of h l xs] dseg_last [of h l xs l]
  by (auto simp: dlist_at_def sys_dlist_peek_tail_def)

lemma dlist_linked: "dlist_at h l xs \<Longrightarrow> x \<in> set xs \<Longrightarrow> sys_dnode_is_linked x h"
proof -
  assume at: "dlist_at h l xs" and "x \<in> set xs"
  then obtain as bs where xs: "xs = as @ x # bs" by (auto dest: split_list)
  with at have "dseg h x bs l" and nz: "0 \<notin> set (bs @ [l])" by (auto simp: dlist_at_def)
  then have "dnext (h x) = hd (bs @ [l])" by (auto dest: dseg_first)
  with nz hd_in_set [of "bs @ [l]"] have "dnext (h x) \<noteq> 0" by (metis append_is_Nil_conv not_Cons_self2)
  then show ?thesis by (simp add: sys_dnode_is_linked_def)
qed

lemma dlist_peek_next:
  assumes "dlist_at h l (xs @ x # ys)"
  shows "sys_dlist_peek_next l x h = (if ys = [] then 0 else hd ys)"
proof -
  have seg: "dseg h l xs x" "dseg h x ys l" and d: "distinct (l # xs @ x # ys)" and nz: "x \<noteq> 0"
    using assms by (auto simp: dlist_at_def)
  have "dprev (h l) = last (x # ys)" using seg(2) by (rule dseg_last)
  then show ?thesis
    using seg(2) d nz
    by (cases ys) (auto simp: sys_dlist_peek_next_def sys_dlist_peek_next_no_check_def)
qed

lemma dlist_append:
  assumes "dlist_at h l xs" "n \<notin> set (l # xs)" "n \<noteq> 0"
  shows "dlist_at (sys_dlist_append l n h) l (xs @ [n])"
proof (cases xs rule: rev_cases)
  case Nil
  with assms show ?thesis by (auto simp: dlist_at_def sys_dlist_append_def)
next
  case (snoc ys y)
  let ?h = "sys_dlist_append l n h"
  from assms snoc have seg: "dseg h l ys y" and t: "dprev (h l) = y" and ny: "dnext (h y) = l"
    by (auto simp: dlist_at_def)
  have "dseg ?h l ys y = dseg h l ys y"
    using assms snoc t by (intro dseg_cong) (auto simp: dlist_at_def sys_dlist_append_def)
  with seg assms snoc t show ?thesis
    by (auto simp: dlist_at_def sys_dlist_append_def)
qed

lemma dlist_prepend:
  assumes "dlist_at h l xs" "n \<notin> set (l # xs)" "n \<noteq> 0"
  shows "dlist_at (sys_dlist_prepend l n h) l (n # xs)"
proof (cases xs)
  case Nil
  with assms show ?thesis by (auto simp: dlist_at_def sys_dlist_prepend_def)
next
  case (Cons y ys)
  let ?h = "sys_dlist_prepend l n h"
  from assms Cons have seg: "dseg h y ys l" and t: "dnext (h l) = y"
    by (auto simp: dlist_at_def)
  have "dseg ?h y ys l = dseg h y ys l"
    using assms Cons t by (intro dseg_cong) (auto simp: dlist_at_def sys_dlist_prepend_def)
  with seg assms Cons t show ?thesis
    by (auto simp: dlist_at_def sys_dlist_prepend_def)
qed

text \<open>Insertion before a node in the middle of the ring, and its removal.\<close>

lemma dlist_insert:
  assumes "dlist_at h l (xs @ s # ys)" "n \<notin> set (l # xs @ s # ys)" "n \<noteq> 0"
  shows "dlist_at (sys_dlist_insert s n h) l (xs @ n # s # ys)"
proof -
  let ?h = "sys_dlist_insert s n h" and ?p = "last (l # xs)"
  have d: "distinct (l # xs @ s # ys)" and nz: "0 \<notin> set (l # xs @ s # ys)"
    and segs: "dseg h l xs s" "dseg h s ys l"
    using assms(1) by (auto simp: dlist_at_def)
  have p: "dprev (h s) = ?p" using segs(1) by (rule dseg_last)
  have pin: "?p \<in> set (l # xs)" by (rule last_in_set) simp
  have nx: "dnext (?h a) = (if a = ?p then n else if a = n then s else dnext (h a))" for a
    by (simp add: sys_dlist_insert_def p Let_def del: last.simps)
  have pv: "dprev (?h a) = (if a = s then n else if a = n then ?p else dprev (h a))" for a
    by (simp add: sys_dlist_insert_def p Let_def del: last.simps)
  have sep: "?p \<notin> set (s # ys)" "n \<noteq> ?p" "n \<noteq> s" using d pin assms(2) by auto
  have right: "dseg ?h s ys l"
  proof (subst dseg_cong [where h = h])
    show "dnext (?h x) = dnext (h x)" if "x \<in> insert s (set ys)" for x
      using that sep assms(2) unfolding nx by auto
    show "dprev (?h x) = dprev (h x)" if "x \<in> insert l (set ys)" for x
      using that d assms(2) unfolding pv by auto
  qed (rule segs(2))
  have left: "dseg ?h l xs n"
  proof (cases xs rule: rev_cases)
    case Nil
    then show ?thesis using nx [of l] pv [of n] sep by simp
  next
    case (snoc zs z)
    have "dseg ?h l zs z"
    proof (subst dseg_cong [where h = h])
      show "dnext (?h x) = dnext (h x)" if "x \<in> insert l (set zs)" for x
        using that d snoc assms(2) unfolding nx by auto
      show "dprev (?h x) = dprev (h x)" if "x \<in> insert z (set zs)" for x
        using that d snoc assms(2) unfolding pv by auto
      show "dseg h l zs z" using segs(1) snoc by simp
    qed
    then show ?thesis using nx [of z] pv [of n] sep snoc by simp
  qed
  have mid: "dnext (?h n) = s" "dprev (?h s) = n" using nx [of n] pv [of s] sep by auto
  from left right mid d nz assms show ?thesis by (auto simp: dlist_at_def)
qed

lemma dlist_remove:
  assumes "dlist_at h l (xs @ n # ys)"
  shows "dlist_at (sys_dlist_remove n h) l (xs @ ys)"
    and "\<not> sys_dnode_is_linked n (sys_dlist_remove n h)"
proof -
  let ?h = "sys_dlist_remove n h" and ?p = "last (l # xs)" and ?q = "hd (ys @ [l])"
  have d: "distinct (l # xs @ n # ys)" and nz: "0 \<notin> set (l # xs @ n # ys)"
    and segs: "dseg h l xs n" "dseg h n ys l"
    using assms by (auto simp: dlist_at_def)
  have p: "dprev (h n) = ?p" using segs(1) by (rule dseg_last)
  have q: "dnext (h n) = ?q" using segs(2) by (rule dseg_first)
  have pin: "?p \<in> set (l # xs)" by (rule last_in_set) simp
  have qin: "?q \<in> set (ys @ [l])" by (rule hd_in_set) simp
  have sep: "n \<noteq> ?p" "n \<noteq> ?q" using d pin qin by auto
  have nx: "dnext (?h a) = (if a = n then 0 else if a = ?p then ?q else dnext (h a))" for a
    by (simp add: sys_dlist_remove_def sys_dnode_init_def p q Let_def del: last.simps)
  have pv: "dprev (?h a) = (if a = n then 0 else if a = ?q then ?p else dprev (h a))" for a
    by (simp add: sys_dlist_remove_def sys_dnode_init_def p q Let_def del: last.simps)
  have left: "dseg ?h l xs ?q"
  proof (cases xs rule: rev_cases)
    case Nil
    then show ?thesis using nx [of l] pv [of ?q] sep by simp
  next
    case (snoc zs z)
    have qz: "?q \<notin> set xs" using qin d by auto
    have "dseg ?h l zs z"
    proof (subst dseg_cong [where h = h])
      show "dnext (?h x) = dnext (h x)" if "x \<in> insert l (set zs)" for x
        using that d snoc unfolding nx by auto
      show "dprev (?h x) = dprev (h x)" if "x \<in> insert z (set zs)" for x
        using that d qz snoc unfolding pv by auto
      show "dseg h l zs z" using segs(1) snoc by simp
    qed
    then show ?thesis using nx [of z] pv [of ?q] sep snoc by simp
  qed
  have "dseg ?h l (xs @ ys) l"
  proof (cases ys)
    case Nil
    with left show ?thesis by simp
  next
    case (Cons w ws)
    have pz: "?p \<notin> set ys" using pin d by auto
    have "dseg ?h w ws l"
    proof (subst dseg_cong [where h = h])
      show "dnext (?h x) = dnext (h x)" if "x \<in> insert w (set ws)" for x
        using that d pz Cons unfolding nx by auto
      show "dprev (?h x) = dprev (h x)" if "x \<in> insert l (set ws)" for x
        using that d Cons unfolding pv by auto
      show "dseg h w ws l" using segs(2) Cons by simp
    qed
    with left Cons show ?thesis by simp
  qed
  with d nz show "dlist_at ?h l (xs @ ys)" by (auto simp: dlist_at_def)
  show "\<not> sys_dnode_is_linked n ?h" using nx [of n] by (simp add: sys_dnode_is_linked_def)
qed

lemma insert_at_pos_ring:
  assumes "dlist_at h l (xs @ ys)"
  shows "insert_at_pos cond l (if ys = [] then 0 else hd ys) h =
     Some (if \<exists>y \<in> set ys. cond y then hd (dropWhile (\<lambda>y. \<not> cond y) ys) else 0)"
  using assms
proof (induction ys arbitrary: xs)
  case Nil
  show ?case by (simp add: insert_at_pos.simps)
next
  case (Cons y ys)
  from Cons.prems have nz: "y \<noteq> 0" by (auto simp: dlist_at_def)
  show ?case
  proof (cases "cond y")
    case True
    then show ?thesis by (simp add: insert_at_pos.simps [of cond l y h])
  next
    case False
    have "dlist_at h l ((xs @ [y]) @ ys)" using Cons.prems by simp
    from Cons.IH [OF this] dlist_peek_next [OF Cons.prems] False nz
    show ?thesis by (simp add: insert_at_pos.simps [of cond l y h])
  qed
qed

abbreviation insert_before_first :: "('a \<Rightarrow> bool) \<Rightarrow> 'a \<Rightarrow> 'a list \<Rightarrow> 'a list" where
  "insert_before_first c n xs \<equiv> takeWhile (\<lambda>x. \<not> c x) xs @ n # dropWhile (\<lambda>x. \<not> c x) xs"

lemma dlist_insert_at:
  assumes at: "dlist_at h l xs" and fresh: "n \<notin> set (l # xs)" "n \<noteq> 0"
  shows "\<exists>h'. sys_dlist_insert_at l n cond h = Some h' \<and>
     dlist_at h' l (insert_before_first cond n xs) \<and>
     (\<forall>x. x \<notin> set (n # l # xs) \<longrightarrow> h' x = h x)"
proof -
  have out: "sys_dlist_append l n h x = h x" if "x \<notin> set (n # l # xs)" for x
    using that at dseg_last [of h l xs l]
    by (cases xs rule: rev_cases)
       (auto simp: sys_dlist_append_def set_prev_def set_next_def dlist_at_def Let_def)
  consider (none) "\<forall>y \<in> set xs. \<not> cond y" | (some) "\<exists>y \<in> set xs. cond y" by blast
  then show ?thesis
  proof cases
    case none
    then have eq: "insert_before_first cond n xs = xs @ [n]" by auto
    have "sys_dlist_insert_at l n cond h = Some (sys_dlist_append l n h)"
      using insert_at_pos_ring [of h l "[]" xs cond] none at
        dlist_peek_head [OF at] dlist_is_empty [OF at]
      by (auto simp: sys_dlist_insert_at_def)
    then show ?thesis
      unfolding eq using out dlist_append [OF at fresh] by blast
  next
    case some
    define ys where "ys = takeWhile (\<lambda>x. \<not> cond x) xs"
    from some obtain s zs where dw: "dropWhile (\<lambda>x. \<not> cond x) xs = s # zs"
      by (cases "dropWhile (\<lambda>x. \<not> cond x) xs") auto
    then have xs: "xs = ys @ s # zs" by (metis takeWhile_dropWhile_id ys_def)
    have nz: "s \<noteq> 0" using at xs by (auto simp: dlist_at_def)
    have pos: "insert_at_pos cond l (sys_dlist_peek_head l h) h = Some s"
      using insert_at_pos_ring [of h l "[]" xs cond] at some dw dlist_peek_head [OF at] by simp
    have "dprev (h s) = last (l # ys)"
      using at xs by (auto simp: dlist_at_def dest: dseg_last)
    moreover have "last (l # ys) \<in> set (l # ys)" by (rule last_in_set) simp
    ultimately have out': "sys_dlist_insert s n h x = h x" if "x \<notin> set (n # l # xs)" for x
      using that xs by (auto simp: sys_dlist_insert_def set_prev_def set_next_def Let_def simp del: last.simps)
    have "sys_dlist_insert_at l n cond h = Some (sys_dlist_insert s n h)"
      using pos nz xs dlist_is_empty [OF at] by (simp add: sys_dlist_insert_at_def)
    moreover have "dlist_at (sys_dlist_insert s n h) l (insert_before_first cond n xs)"
      using dlist_insert [of h l ys s zs n] at fresh unfolding dw ys_def [symmetric] xs [symmetric]
      by simp
    ultimately show ?thesis using out' by blast
  qed
qed

lemma dlist_remove_out:
  assumes "dlist_at h l (xs @ n # ys)" "x \<notin> set (l # xs @ n # ys)"
  shows "sys_dlist_remove n h x = h x"
proof -
  have "dprev (h n) = last (l # xs)" "dnext (h n) = hd (ys @ [l])"
    using assms(1) by (auto simp: dlist_at_def dest: dseg_last dseg_first)
  moreover have "last (l # xs) \<in> set (l # xs)" by (rule last_in_set) simp
  moreover have "hd (ys @ [l]) \<in> set (ys @ [l])" by (rule hd_in_set) simp
  ultimately show ?thesis
    using assms(2)
    by (auto simp: sys_dlist_remove_def sys_dnode_init_def set_prev_def set_next_def Let_def
             simp del: last.simps)
qed

lemma dlist_get:
  "dlist_at h l xs \<Longrightarrow> sys_dlist_get l h = (x, h') \<Longrightarrow>
     (if xs = [] then x = 0 \<and> h' = h else x = hd xs \<and> dlist_at h' l (tl xs))"
  using dlist_is_empty [of h l xs] dlist_remove(1) [of h l "[]"] dseg_first [of h l xs l]
  by (cases xs) (auto simp: sys_dlist_get_def dlist_at_def)

section \<open>The interface the queues of the kernel rely on\<close>

text \<open>
  What a client may assume of a linked list: a header denotes a sequence, new
  nodes go to the tail or in front of the first node that satisfies a
  condition, a member can be unlinked, and the head can be taken.
\<close>

locale linked_queue =
  fixes repr :: "'h \<Rightarrow> addr \<Rightarrow> addr list \<Rightarrow> bool"
    and append :: "addr \<Rightarrow> addr \<Rightarrow> 'h \<Rightarrow> 'h"
    and insert_at :: "addr \<Rightarrow> addr \<Rightarrow> (addr \<Rightarrow> bool) \<Rightarrow> 'h \<Rightarrow> 'h option"
    and remove :: "addr \<Rightarrow> 'h \<Rightarrow> 'h"
    and get :: "addr \<Rightarrow> 'h \<Rightarrow> addr \<times> 'h"
  assumes repr_distinct: "repr h l xs \<Longrightarrow> distinct xs"
    and repr_nonnull: "repr h l xs \<Longrightarrow> 0 \<notin> set (l # xs) \<and> l \<notin> set xs"
    and repr_append: "repr h l xs \<Longrightarrow> n \<notin> set (l # xs) \<Longrightarrow> n \<noteq> 0 \<Longrightarrow>
      repr (append l n h) l (xs @ [n])"
    and repr_insert_at: "repr h l xs \<Longrightarrow> n \<notin> set (l # xs) \<Longrightarrow> n \<noteq> 0 \<Longrightarrow>
      \<exists>h'. insert_at l n c h = Some h' \<and> repr h' l (insert_before_first c n xs)"
    and repr_remove: "repr h l xs \<Longrightarrow> n \<in> set xs \<Longrightarrow> repr (remove n h) l (remove1 n xs)"
    and repr_get: "repr h l xs \<Longrightarrow>
      (if xs = [] then get l h = (0, h) else fst (get l h) = hd xs \<and> repr (snd (get l h)) l (tl xs))"
begin

text \<open>Appending a sequence of nodes and taking as many gives them back in order.\<close>

lemma append_all:
  assumes "repr h l xs" "distinct ns" "set ns \<inter> set (0 # l # xs) = {}"
  shows "repr (fold (append l) ns h) l (xs @ ns)"
  using assms
proof (induction ns arbitrary: h xs)
  case Nil
  then show ?case by simp
next
  case (Cons n ns)
  then have "repr (append l n h) l (xs @ [n])" by (intro repr_append) auto
  from Cons.IH [OF this] Cons.prems show ?case by auto
qed

lemma get_first:
  "repr h l (x # xs) \<Longrightarrow> fst (get l h) = x \<and> repr (snd (get l h)) l xs"
  using repr_get [of h l "x # xs"] by auto

text \<open>
  Insertion before the first node of strictly larger key keeps a queue ordered
  by key, behind every node of equal key: priority order, first come first
  served within one priority.
\<close>

lemma ordered_insert:
  fixes key :: "addr \<Rightarrow> int"
  assumes "repr h l xs" "n \<notin> set (l # xs)" "n \<noteq> 0" "sorted_wrt (\<lambda>a b. key a \<le> key b) xs"
  shows "\<exists>h' ys zs. insert_at l n (\<lambda>x. key n < key x) h = Some h' \<and> repr h' l (ys @ n # zs) \<and>
     xs = ys @ zs \<and> (\<forall>y \<in> set ys. key y \<le> key n) \<and> (\<forall>z \<in> set zs. key n < key z)"
proof -
  let ?c = "\<lambda>x. key n < key x"
  let ?ys = "takeWhile (\<lambda>x. \<not> ?c x) xs" and ?zs = "dropWhile (\<lambda>x. \<not> ?c x) xs"
  have "\<forall>z \<in> set ?zs. ?c z"
    using dropWhile_upward [OF assms(4), of ?c] by (meson less_le_trans)
  moreover have "\<forall>y \<in> set ?ys. \<not> ?c y" by (blast dest: set_takeWhileD)
  moreover obtain h' where "insert_at l n ?c h = Some h'" "repr h' l (?ys @ n # ?zs)"
    using repr_insert_at [OF assms(1-3)] by blast
  ultimately show ?thesis by (metis not_less takeWhile_dropWhile_id)
qed

end

interpretation dlq: linked_queue dlist_at sys_dlist_append sys_dlist_insert_at
    sys_dlist_remove sys_dlist_get
proof
  show "\<And>h l xs. dlist_at h l xs \<Longrightarrow> distinct xs" by (simp add: dlist_at_def)
  show "\<And>h l xs. dlist_at h l xs \<Longrightarrow> 0 \<notin> set (l # xs) \<and> l \<notin> set xs"
    by (simp add: dlist_at_def)
  show "\<And>h l xs n. dlist_at h l xs \<Longrightarrow> n \<notin> set (l # xs) \<Longrightarrow> n \<noteq> 0 \<Longrightarrow>
      dlist_at (sys_dlist_append l n h) l (xs @ [n])" by (rule dlist_append)
  show "\<And>h l xs n c. dlist_at h l xs \<Longrightarrow> n \<notin> set (l # xs) \<Longrightarrow> n \<noteq> 0 \<Longrightarrow>
      \<exists>h'. sys_dlist_insert_at l n c h = Some h' \<and> dlist_at h' l (insert_before_first c n xs)"
    using dlist_insert_at by blast
  show "dlist_at (sys_dlist_remove n h) l (remove1 n xs)"
    if at: "dlist_at h l xs" and "n \<in> set xs" for h l xs n
  proof -
    from that(2) obtain ys zs where xs: "xs = ys @ n # zs" and "n \<notin> set ys"
      by (auto dest: split_list_first)
    with dlist_remove(1) [of h l ys n zs] at show ?thesis by (simp add: remove1_append)
  qed
  show "\<And>h l xs. dlist_at h l xs \<Longrightarrow>
      (if xs = [] then sys_dlist_get l h = (0, h)
       else fst (sys_dlist_get l h) = hd xs \<and> dlist_at (snd (sys_dlist_get l h)) l (tl xs))"
    using dlist_get by (metis prod.collapse)
qed

section \<open>Properties\<close>

text \<open>A list with the anchor at address 1 and the nodes at 2 and 4.\<close>

definition two_nodes :: dheap where
  "two_nodes = sys_dlist_append 1 4 (sys_dlist_append 1 2
     (sys_dlist_init 1 (\<lambda>_. \<lparr>dnext = 0, dprev = 0\<rparr>)))"

lemmas two_nodes_eval = two_nodes_def sys_dlist_append_def sys_dlist_init_def set_next_def set_prev_def
  dlist_at_def

text \<open>
  C30. Inserting a node that is in no list with \<open>sys_dlist_insert_at\<close> always ends. It
  leaves a circular, doubly linked list whose nodes are the old ones in their order,
  with the new one before the first node for which the condition holds (at the end
  if there is none), and writes to no other node.
\<close>

theorem insert_at_refines:
  assumes "dlist_at h l xs" "n \<notin> set (l # xs)" "n \<noteq> 0"
  shows "\<exists>h'. sys_dlist_insert_at l n cond h = Some h' \<and>
     dlist_at h' l (takeWhile (\<lambda>x. \<not> cond x) xs @ n # dropWhile (\<lambda>x. \<not> cond x) xs) \<and>
     (\<forall>x. x \<notin> set (n # l # xs) \<longrightarrow> h' x = h x)"
  using assms by (rule dlist_insert_at)

theorem insert_at_refines_witness:
  "\<exists>h'. sys_dlist_insert_at 1 3 (\<lambda>x. 3 < x) two_nodes = Some h' \<and> dlist_at h' 1 [2, 3, 4]"
proof -
  have "dlist_at two_nodes 1 [2, 4]" by (simp add: two_nodes_eval)
  from insert_at_refines [OF this, of 3 "\<lambda>x. 3 < x"] show ?thesis by auto
qed

text \<open>
  Removing a node of a list leaves the list of the other nodes in their order,
  marks the removed node as not linked, keeps every other list of the heap, and the
  node can be appended to any of them again.
\<close>

theorem remove_refines:
  assumes "dlist_at h l (xs @ n # ys)" "dlist_at h m zs" "set (l # xs @ n # ys) \<inter> set (m # zs) = {}"
  shows "dlist_at (sys_dlist_remove n h) l (xs @ ys) \<and> \<not> sys_dnode_is_linked n (sys_dlist_remove n h) \<and>
     dlist_at (sys_dlist_append m n (sys_dlist_remove n h)) m (zs @ [n])"
proof -
  have "dlist_at (sys_dlist_remove n h) m zs"
    using assms(3) by (intro dlist_at_frame [OF assms(2)] dlist_remove_out [OF assms(1)]) blast
  moreover have "n \<notin> set (m # zs)" "n \<noteq> 0" using assms by (auto simp: dlist_at_def)
  ultimately show ?thesis using dlist_remove [OF assms(1)] dlist_append by blast
qed

theorem remove_refines_witness:
  "dlist_at (sys_dlist_remove 2 (sys_dlist_init 7 two_nodes)) 1 [4] \<and>
   dlist_at (sys_dlist_append 7 2 (sys_dlist_remove 2 (sys_dlist_init 7 two_nodes))) 7 [2]"
proof -
  have "dlist_at (sys_dlist_init 7 two_nodes) 1 ([] @ 2 # [4])" "dlist_at (sys_dlist_init 7 two_nodes) 7 []"
    by (simp_all add: two_nodes_eval)
  from remove_refines [OF this] show ?thesis by simp
qed

end
