(* ===== verification/Timeout.thy ===== *)
theory Timeout
  imports Prelude
begin

text \<open>
  The timeout queue of \<^verbatim>\<open>kernel/timeout.c\<close>: a list of timeouts in which each node
  stores the ticks after its predecessor, the tick counter, and the loop that
  runs the callbacks of the expired timeouts on an announcement of the timer
  driver. The configuration modelled has \<open>CONFIG_TIMEOUT_64BIT\<close>, no SMP and no
  sloppy idle. Tick counts are 64-bit signed in the source and \<open>int\<close> here.
\<close>

section \<open>State\<close>

text \<open>
  A \<open>struct _timeout\<close> is embedded in a larger object. An identifier says in
  which one, so that \<open>CONTAINER_OF\<close> is a match on it; a callback is named by
  the function of the source that it points to.
\<close>

datatype timeout_id = ThreadTO tid | SliceTO | TimerTO nat

datatype timeout_fn = Z_thread_timeout | Slice_timeout | Z_timer_expiration_handler

record ktimeout =
  to_fn :: timeout_fn
  dticks :: ticks

text \<open>
  \<open>clk_elapsed\<close> is what the timer driver's \<open>sys_clock_elapsed()\<close> returns and
  \<open>clk_next\<close> the last value given to its \<open>sys_clock_set_timeout()\<close>. \<open>fault\<close>
  records that the code followed a NULL link or linked a node twice; no rule of
  the source resets it.
\<close>

record timeout_state =
  timeouts :: "timeout_id \<Rightarrow> ktimeout"
  timeout_list :: "timeout_id list"
  curr_tick :: ticks
  announce_remaining :: ticks
  clk_elapsed :: ticks
  clk_next :: ticks
  fault :: bool

definition K_TICKS_FOREVER :: ticks where "K_TICKS_FOREVER = -1"
definition K_FOREVER :: ticks where "K_FOREVER = K_TICKS_FOREVER"
definition K_NO_WAIT :: ticks where "K_NO_WAIT = 0"

definition Z_TICK_ABS :: "ticks \<Rightarrow> ticks" where
  "Z_TICK_ABS t = K_TICKS_FOREVER - 1 - t"

definition INT_MAX :: int where "INT_MAX = 2147483647"
definition MAX_WAIT :: int where "MAX_WAIT = INT_MAX"

section \<open>Operations\<close>

definition to_linked :: "timeout_id \<Rightarrow> 'a timeout_state_scheme \<Rightarrow> bool" where
  "to_linked t s \<longleftrightarrow> t \<in> set (timeout_list s)"

definition z_is_inactive_timeout :: "timeout_id \<Rightarrow> 'a timeout_state_scheme \<Rightarrow> bool" where
  "z_is_inactive_timeout t s \<longleftrightarrow> \<not> to_linked t s"

definition first :: "'a timeout_state_scheme \<Rightarrow> timeout_id option" where
  "first s = (case timeout_list s of [] \<Rightarrow> None | t # _ \<Rightarrow> Some t)"

fun next_in :: "timeout_id list \<Rightarrow> timeout_id \<Rightarrow> timeout_id option" where
  "next_in (t # u # ts) x = (if t = x then Some u else next_in (u # ts) x)"
| "next_in _ x = None"

definition set_dticks :: "timeout_id \<Rightarrow> ticks \<Rightarrow> (timeout_id \<Rightarrow> ktimeout) \<Rightarrow> timeout_id \<Rightarrow> ktimeout" where
  "set_dticks t d T = T(t := (T t)\<lparr>dticks := d\<rparr>)"

definition remove_timeout :: "timeout_id \<Rightarrow> 'a timeout_state_scheme \<Rightarrow> 'a timeout_state_scheme" where
  "remove_timeout t s =
     (let T = timeouts s;
          T' = (case next_in (timeout_list s) t of
                  None \<Rightarrow> T
                | Some n \<Rightarrow> set_dticks n (dticks (T n) + dticks (T t)) T)
      in s\<lparr>timeouts := T', timeout_list := remove1 t (timeout_list s)\<rparr>)"

definition elapsed :: "'a timeout_state_scheme \<Rightarrow> ticks" where
  "elapsed s = (if announce_remaining s = 0 then clk_elapsed s else 0)"

definition next_timeout :: "'a timeout_state_scheme \<Rightarrow> int" where
  "next_timeout s =
     (case first s of
        None \<Rightarrow> MAX_WAIT
      | Some t \<Rightarrow>
          let d = dticks (timeouts s t) - elapsed s in
          if d > INT_MAX then MAX_WAIT else max 0 d)"

text \<open>
  The \<open>for\<close> loop of \<open>z_add_timeout\<close>: walk down the list, subtracting the deltas
  passed, and link the new node before the first one that is later.
\<close>

fun add_loop :: "(timeout_id \<Rightarrow> ktimeout) \<Rightarrow> timeout_id \<Rightarrow> timeout_id list \<Rightarrow>
    (timeout_id \<Rightarrow> ktimeout) \<times> timeout_id list" where
  "add_loop T to [] = (T, [to])"
| "add_loop T to (t # ts) =
     (if dticks (T t) > dticks (T to)
      then (set_dticks t (dticks (T t) - dticks (T to)) T, to # t # ts)
      else let (T', l) = add_loop (set_dticks to (dticks (T to) - dticks (T t)) T) to ts
           in (T', t # l))"

definition z_add_timeout ::
  "timeout_id \<Rightarrow> timeout_fn \<Rightarrow> ticks \<Rightarrow> 'a timeout_state_scheme \<Rightarrow> 'a timeout_state_scheme" where
  "z_add_timeout to fn timeout s =
     (if timeout = K_FOREVER then s
      else
        let d = (if Z_TICK_ABS timeout \<ge> 0 then max 1 (Z_TICK_ABS timeout - curr_tick s)
                 else timeout + 1 + elapsed s);
            T = (timeouts s)(to := \<lparr>to_fn = fn, dticks = d\<rparr>);
            (T', l) = add_loop T to (timeout_list s);
            s' = s\<lparr>timeouts := T', timeout_list := l, fault := fault s \<or> to_linked to s\<rparr>
        in if first s' = Some to then s'\<lparr>clk_next := next_timeout s'\<rparr> else s')"

definition z_abort_timeout :: "timeout_id \<Rightarrow> 'a timeout_state_scheme \<Rightarrow> int \<times> 'a timeout_state_scheme" where
  "z_abort_timeout to s =
     (if to_linked to s then (0, remove_timeout to s) else (- EINVAL, s))"

fun rem_sum :: "(timeout_id \<Rightarrow> ktimeout) \<Rightarrow> timeout_id list \<Rightarrow> timeout_id \<Rightarrow> ticks" where
  "rem_sum T [] to = 0"
| "rem_sum T (t # ts) to = dticks (T t) + (if to = t then 0 else rem_sum T ts to)"

definition timeout_rem :: "timeout_id \<Rightarrow> 'a timeout_state_scheme \<Rightarrow> ticks" where
  "timeout_rem to s =
     (if z_is_inactive_timeout to s then 0
      else rem_sum (timeouts s) (timeout_list s) to - elapsed s)"

definition z_timeout_remaining :: "timeout_id \<Rightarrow> 'a timeout_state_scheme \<Rightarrow> ticks" where
  "z_timeout_remaining to s = timeout_rem to s"

definition z_timeout_expires :: "timeout_id \<Rightarrow> 'a timeout_state_scheme \<Rightarrow> ticks" where
  "z_timeout_expires to s = curr_tick s + timeout_rem to s"

definition z_get_next_timeout_expiry :: "'a timeout_state_scheme \<Rightarrow> int" where
  "z_get_next_timeout_expiry s = next_timeout s"

text \<open>
  The loop of \<open>sys_clock_announce\<close>, over the routine \<open>call\<close> that runs a
  callback. A callback may link new timeouts, so the loop need not end.
\<close>

partial_function (option) announce_loop ::
  "(timeout_fn \<Rightarrow> timeout_id \<Rightarrow> 'a timeout_state_scheme \<Rightarrow> 'a timeout_state_scheme) \<Rightarrow>
   'a timeout_state_scheme \<Rightarrow> 'a timeout_state_scheme option" where
  "announce_loop call s =
     (case first s of
        None \<Rightarrow> Some s
      | Some t \<Rightarrow>
          let dt = dticks (timeouts s t) in
          if dt \<le> announce_remaining s
          then
            let s1 = s\<lparr>curr_tick := curr_tick s + dt, timeouts := set_dticks t 0 (timeouts s)\<rparr>;
                s2 = remove_timeout t s1;
                s3 = call (to_fn (timeouts s2 t)) t s2
            in announce_loop call (s3\<lparr>announce_remaining := announce_remaining s3 - dt\<rparr>)
          else Some s)"

definition announce_finish :: "'a timeout_state_scheme \<Rightarrow> 'a timeout_state_scheme" where
  "announce_finish s =
     (let T = timeouts s;
          T' = (case first s of
                  None \<Rightarrow> T
                | Some t \<Rightarrow> set_dticks t (dticks (T t) - announce_remaining s) T);
          s' = s\<lparr>timeouts := T', curr_tick := curr_tick s + announce_remaining s,
                announce_remaining := 0\<rparr>
      in s'\<lparr>clk_next := next_timeout s'\<rparr>)"

definition announce_timeouts ::
  "(timeout_fn \<Rightarrow> timeout_id \<Rightarrow> 'a timeout_state_scheme \<Rightarrow> 'a timeout_state_scheme) \<Rightarrow> int \<Rightarrow>
   'a timeout_state_scheme \<Rightarrow> 'a timeout_state_scheme option" where
  "announce_timeouts call ticks s =
     map_option announce_finish (announce_loop call (s\<lparr>announce_remaining := ticks\<rparr>))"

definition sys_clock_tick_get :: "'a timeout_state_scheme \<Rightarrow> ticks" where
  "sys_clock_tick_get s = curr_tick s + elapsed s"

definition sys_clock_tick_get_32 :: "'a timeout_state_scheme \<Rightarrow> u32" where
  "sys_clock_tick_get_32 s = word_of_int (sys_clock_tick_get s)"

definition UINT64_MAX :: int where "UINT64_MAX = 18446744073709551615"

definition sys_clock_timeout_end_calc :: "ticks \<Rightarrow> 'a timeout_state_scheme \<Rightarrow> ticks" where
  "sys_clock_timeout_end_calc timeout s =
     (if timeout = K_FOREVER then UINT64_MAX
      else if timeout = K_NO_WAIT then sys_clock_tick_get s
      else if Z_TICK_ABS timeout \<ge> 0 then Z_TICK_ABS timeout
      else sys_clock_tick_get s + max 1 timeout)"

lemmas timeout_consts = K_TICKS_FOREVER_def K_FOREVER_def K_NO_WAIT_def Z_TICK_ABS_def

section \<open>Deadlines\<close>

text \<open>
  A list of deltas stands for the absolute expiry ticks of its members. The
  queue is well formed when no node is linked twice and no delta is negative.
\<close>

definition deadline :: "'a timeout_state_scheme \<Rightarrow> timeout_id \<Rightarrow> ticks" where
  "deadline s t = curr_tick s + rem_sum (timeouts s) (timeout_list s) t"

definition timeout_wf :: "'a timeout_state_scheme \<Rightarrow> bool" where
  "timeout_wf s \<longleftrightarrow> distinct (timeout_list s) \<and>
     (\<forall>t \<in> set (timeout_list s). 0 \<le> dticks (timeouts s t))"

lemma set_dticks_simps [simp]:
  "dticks (set_dticks t d T u) = (if u = t then d else dticks (T u))"
  "to_fn (set_dticks t d T u) = to_fn (T u)"
  by (auto simp: set_dticks_def)

lemma set_dticks_other [simp]: "u \<noteq> t \<Longrightarrow> set_dticks t d T u = T u"
  by (simp add: set_dticks_def)

lemma rem_sum_cong:
  "(\<And>x. x \<in> set xs \<Longrightarrow> dticks (T' x) = dticks (T x)) \<Longrightarrow> rem_sum T' xs u = rem_sum T xs u"
  by (induction xs) auto

lemma rem_sum_nonneg: "\<forall>t \<in> set xs. 0 \<le> dticks (T t) \<Longrightarrow> 0 \<le> rem_sum T xs u"
  by (induction xs) auto

lemma add_loop_spec:
  assumes "add_loop T to ts = (T', l)" "distinct ts" "to \<notin> set ts"
  shows "set l = insert to (set ts) \<and> distinct l \<and>
     (\<forall>u \<in> set ts. rem_sum T' l u = rem_sum T ts u) \<and> rem_sum T' l to = dticks (T to) \<and>
     (\<forall>u. u \<notin> set l \<longrightarrow> T' u = T u) \<and> (\<forall>u. to_fn (T' u) = to_fn (T u)) \<and>
     ((\<forall>u \<in> set ts. 0 \<le> dticks (T u)) \<and> 0 \<le> dticks (T to) \<longrightarrow> (\<forall>u \<in> set l. 0 \<le> dticks (T' u)))"
  using assms
proof (induction T to ts arbitrary: T' l rule: add_loop.induct)
  case (1 T to)
  then show ?case by auto
next
  case (2 T to t ts)
  note prems = "2.prems"
  show ?case
  proof (cases "dticks (T t) > dticks (T to)")
    case True
    let ?T = "set_dticks t (dticks (T t) - dticks (T to)) T"
    from True prems(1) have l: "l = to # t # ts" and T': "T' = ?T" by auto
    have "rem_sum ?T ts u = rem_sum T ts u" for u
      using prems(2) by (intro rem_sum_cong) auto
    with True prems(2,3) show ?thesis unfolding l T' by auto
  next
    case False
    let ?T = "set_dticks to (dticks (T to) - dticks (T t)) T"
    from False prems(1) obtain l' where r: "add_loop ?T to ts = (T', l')" and l: "l = t # l'"
      by (auto split: prod.splits)
    have IH: "set l' = insert to (set ts) \<and> distinct l' \<and>
       (\<forall>u \<in> set ts. rem_sum T' l' u = rem_sum ?T ts u) \<and> rem_sum T' l' to = dticks (?T to) \<and>
       (\<forall>u. u \<notin> set l' \<longrightarrow> T' u = ?T u) \<and> (\<forall>u. to_fn (T' u) = to_fn (?T u)) \<and>
       ((\<forall>u \<in> set ts. 0 \<le> dticks (?T u)) \<and> 0 \<le> dticks (?T to) \<longrightarrow> (\<forall>u \<in> set l'. 0 \<le> dticks (T' u)))"
      using "2.IH" [OF False r] prems(2,3) by simp
    have same: "rem_sum ?T ts u = rem_sum T ts u" for u
      using prems(3) by (intro rem_sum_cong) auto
    have t: "T' t = T t" using IH prems(2,3) by auto
    have nonneg: "\<forall>u \<in> set l'. 0 \<le> dticks (T' u)"
      if "\<forall>u \<in> set (t # ts). 0 \<le> dticks (T u)" "0 \<le> dticks (T to)"
      using IH that False prems(3) by auto
    show ?thesis unfolding l
    proof (intro conjI)
      show "set (t # l') = insert to (set (t # ts))" using IH by auto
      show "distinct (t # l')" using IH prems(2,3) by auto
      show "\<forall>u \<in> set (t # ts). rem_sum T' (t # l') u = rem_sum T (t # ts) u"
        using IH same t by auto
      show "rem_sum T' (t # l') to = dticks (T to)" using IH t prems(3) by auto
      show "\<forall>u. u \<notin> set (t # l') \<longrightarrow> T' u = T u" using IH by auto
      show "\<forall>u. to_fn (T' u) = to_fn (T u)" using IH by auto
      show "(\<forall>u \<in> set (t # ts). 0 \<le> dticks (T u)) \<and> 0 \<le> dticks (T to) \<longrightarrow>
          (\<forall>u \<in> set (t # l'). 0 \<le> dticks (T' u))" using nonneg t by auto
    qed
  qed
qed

lemma next_in_None: "next_in xs t = None \<Longrightarrow> t \<in> set xs \<Longrightarrow> distinct xs \<Longrightarrow> last xs = t"
  by (induction xs t rule: next_in.induct) (auto split: if_splits)

lemma next_in_in: "next_in xs t = Some n \<Longrightarrow> n \<in> set xs"
  by (induction xs t rule: next_in.induct) (auto split: if_splits)

text \<open>Unlinking a node keeps the expiry of every other one.\<close>

lemma rem_sum_remove:
  assumes "distinct xs" "t \<in> set xs" "u \<in> set xs" "u \<noteq> t"
    and "T' = (case next_in xs t of None \<Rightarrow> T | Some n \<Rightarrow> set_dticks n (dticks (T n) + dticks (T t)) T)"
  shows "rem_sum T' (remove1 t xs) u = rem_sum T xs u"
  using assms
proof (induction xs t rule: next_in.induct)
  case (1 a b ts x)
  note prems = "1.prems"
  show ?case
  proof (cases "a = x")
    case True
    then have T': "T' = set_dticks b (dticks (T b) + dticks (T a)) T" using prems(5) by simp
    have "rem_sum T' ts u = rem_sum T ts u"
      unfolding T' using prems(1) by (intro rem_sum_cong) auto
    then show ?thesis using True T' prems by auto
  next
    case False
    have "dticks (T' a) = dticks (T a)"
      using prems False by (auto split: option.splits dest: next_in_in)
    moreover have "rem_sum T' (remove1 x (b # ts)) u = rem_sum T (b # ts) u" if "u \<noteq> a"
      using prems False that by (intro "1.IH") auto
    ultimately show ?thesis using False by (simp del: remove1.simps(2) add: remove1.simps(2) [of x a])
  qed
qed auto

lemma deadline_remove:
  assumes "timeout_wf s" "to_linked t s" "to_linked u s" "u \<noteq> t"
  shows "deadline (remove_timeout t s) u = deadline s u"
  using rem_sum_remove [of "timeout_list s" t u _ "timeouts s"] assms
  by (auto simp: deadline_def remove_timeout_def timeout_wf_def to_linked_def Let_def)

lemma wf_remove: "timeout_wf s \<Longrightarrow> to_linked t s \<Longrightarrow> timeout_wf (remove_timeout t s)"
  by (auto simp: timeout_wf_def remove_timeout_def to_linked_def Let_def split: option.splits)

lemma linked_remove [simp]:
  "timeout_wf s \<Longrightarrow> to_linked u (remove_timeout t s) \<longleftrightarrow> to_linked u s \<and> u \<noteq> t"
  by (auto simp: timeout_wf_def remove_timeout_def to_linked_def Let_def)

lemma remove_timeout_frame [simp]:
  "curr_tick (remove_timeout t s) = curr_tick s"
  "announce_remaining (remove_timeout t s) = announce_remaining s"
  "clk_elapsed (remove_timeout t s) = clk_elapsed s"
  "clk_next (remove_timeout t s) = clk_next s"
  "fault (remove_timeout t s) = fault s"
  "timeout_state.more (remove_timeout t s) = timeout_state.more s"
  "elapsed (remove_timeout t s) = elapsed s"
  by (auto simp: remove_timeout_def elapsed_def Let_def)

section \<open>Linking and unlinking\<close>

lemma abort_frame [simp]:
  "curr_tick (snd (z_abort_timeout t s)) = curr_tick s"
  "announce_remaining (snd (z_abort_timeout t s)) = announce_remaining s"
  "clk_elapsed (snd (z_abort_timeout t s)) = clk_elapsed s"
  "fault (snd (z_abort_timeout t s)) = fault s"
  "timeout_state.more (snd (z_abort_timeout t s)) = timeout_state.more s"
  by (auto simp: z_abort_timeout_def)

lemma linked_abort [simp]:
  "timeout_wf s \<Longrightarrow> to_linked u (snd (z_abort_timeout t s)) \<longleftrightarrow> to_linked u s \<and> u \<noteq> t"
  by (auto simp: z_abort_timeout_def)

lemma wf_abort [simp]: "timeout_wf s \<Longrightarrow> timeout_wf (snd (z_abort_timeout t s))"
  by (auto simp: z_abort_timeout_def wf_remove)

lemma deadline_abort:
  "timeout_wf s \<Longrightarrow> to_linked u s \<Longrightarrow> u \<noteq> t \<Longrightarrow> deadline (snd (z_abort_timeout t s)) u = deadline s u"
  by (auto simp: z_abort_timeout_def deadline_remove)

definition new_dticks :: "ticks \<Rightarrow> 'a timeout_state_scheme \<Rightarrow> ticks" where
  "new_dticks timeout s =
     (if Z_TICK_ABS timeout \<ge> 0 then max 1 (Z_TICK_ABS timeout - curr_tick s)
      else timeout + 1 + elapsed s)"

lemma new_dticks_pos:
  "timeout \<noteq> K_FOREVER \<Longrightarrow> 0 \<le> clk_elapsed s \<Longrightarrow> 1 \<le> new_dticks timeout s"
  by (auto simp: new_dticks_def timeout_consts elapsed_def)

lemma add_timeout_unfold:
  assumes "timeout \<noteq> K_FOREVER"
  obtains T' l where
    "add_loop ((timeouts s)(to := \<lparr>to_fn = fn, dticks = new_dticks timeout s\<rparr>)) to (timeout_list s) = (T', l)"
    "timeouts (z_add_timeout to fn timeout s) = T'"
    "timeout_list (z_add_timeout to fn timeout s) = l"
    "fault (z_add_timeout to fn timeout s) \<longleftrightarrow> fault s \<or> to_linked to s"
proof (cases "add_loop ((timeouts s)(to := \<lparr>to_fn = fn, dticks = new_dticks timeout s\<rparr>)) to (timeout_list s)")
  case (Pair T' l)
  then show ?thesis
    using assms by (intro that [of T' l]) (auto simp: z_add_timeout_def new_dticks_def Let_def)
qed

lemma add_timeout_frame [simp]:
  "curr_tick (z_add_timeout to fn timeout s) = curr_tick s"
  "announce_remaining (z_add_timeout to fn timeout s) = announce_remaining s"
  "clk_elapsed (z_add_timeout to fn timeout s) = clk_elapsed s"
  "timeout_state.more (z_add_timeout to fn timeout s) = timeout_state.more s"
  by (auto simp: z_add_timeout_def Let_def split: prod.splits)

lemma fault_add_timeout:
  "fault (z_add_timeout to fn timeout s) \<longleftrightarrow> fault s \<or> timeout \<noteq> K_FOREVER \<and> to_linked to s"
  by (auto simp: z_add_timeout_def Let_def split: prod.splits)

lemma linked_add_timeout [simp]:
  assumes "timeout_wf s" "\<not> to_linked to s"
  shows "to_linked u (z_add_timeout to fn timeout s) \<longleftrightarrow>
    to_linked u s \<or> u = to \<and> timeout \<noteq> K_FOREVER"
proof (cases "timeout = K_FOREVER")
  case True
  then show ?thesis by (simp add: z_add_timeout_def)
next
  case False
  then obtain T' l where
    "add_loop ((timeouts s)(to := \<lparr>to_fn = fn, dticks = new_dticks timeout s\<rparr>)) to (timeout_list s) = (T', l)"
    "timeout_list (z_add_timeout to fn timeout s) = l" by (rule add_timeout_unfold)
  with add_loop_spec [OF this(1)] assms False show ?thesis
    by (auto simp: timeout_wf_def to_linked_def)
qed

lemma wf_add_timeout:
  assumes "timeout_wf s" "\<not> to_linked to s" "0 \<le> clk_elapsed s"
  shows "timeout_wf (z_add_timeout to fn timeout s)"
proof (cases "timeout = K_FOREVER")
  case True
  with assms show ?thesis by (simp add: z_add_timeout_def)
next
  case False
  then obtain T' l where
    "add_loop ((timeouts s)(to := \<lparr>to_fn = fn, dticks = new_dticks timeout s\<rparr>)) to (timeout_list s) = (T', l)"
    "timeouts (z_add_timeout to fn timeout s) = T'"
    "timeout_list (z_add_timeout to fn timeout s) = l" by (rule add_timeout_unfold)
  with add_loop_spec [OF this(1)] assms new_dticks_pos [OF False assms(3)] show ?thesis
    by (fastforce simp: timeout_wf_def to_linked_def)
qed

lemma deadline_add_timeout:
  assumes "timeout_wf s" "\<not> to_linked to s" "timeout \<noteq> K_FOREVER"
  shows "to_linked u s \<Longrightarrow> deadline (z_add_timeout to fn timeout s) u = deadline s u"
    and "deadline (z_add_timeout to fn timeout s) to = curr_tick s + new_dticks timeout s"
proof -
  from assms(3) obtain T' l where r:
    "add_loop ((timeouts s)(to := \<lparr>to_fn = fn, dticks = new_dticks timeout s\<rparr>)) to (timeout_list s) = (T', l)"
    "timeouts (z_add_timeout to fn timeout s) = T'"
    "timeout_list (z_add_timeout to fn timeout s) = l" by (rule add_timeout_unfold)
  have "rem_sum ((timeouts s)(to := \<lparr>to_fn = fn, dticks = new_dticks timeout s\<rparr>)) (timeout_list s) u =
      rem_sum (timeouts s) (timeout_list s) u"
    using assms(2) by (intro rem_sum_cong) (auto simp: to_linked_def)
  with r add_loop_spec [OF r(1)] assms
  show "to_linked u s \<Longrightarrow> deadline (z_add_timeout to fn timeout s) u = deadline s u"
    and "deadline (z_add_timeout to fn timeout s) to = curr_tick s + new_dticks timeout s"
    by (auto simp: deadline_def timeout_wf_def to_linked_def)
qed

section \<open>The announcement loop\<close>

text \<open>The state in which the callback of the first timeout \<open>t\<close> runs.\<close>

definition fire :: "timeout_id \<Rightarrow> 'a timeout_state_scheme \<Rightarrow> 'a timeout_state_scheme" where
  "fire t s = remove_timeout t
     (s\<lparr>curr_tick := curr_tick s + dticks (timeouts s t), timeouts := set_dticks t 0 (timeouts s)\<rparr>)"

lemma announce_loop_fire:
  "announce_loop call s =
     (case first s of
        None \<Rightarrow> Some s
      | Some t \<Rightarrow>
          if dticks (timeouts s t) \<le> announce_remaining s
          then let s3 = call (to_fn (timeouts (fire t s) t)) t (fire t s)
               in announce_loop call (s3\<lparr>announce_remaining := announce_remaining s3 - dticks (timeouts s t)\<rparr>)
          else Some s)"
  by (subst announce_loop.simps) (auto simp: fire_def Let_def split: option.splits)

lemma first_Some: "first s = Some t \<longleftrightarrow> (\<exists>ts. timeout_list s = t # ts)"
  by (auto simp: first_def split: list.splits)

lemma first_None: "first s = None \<longleftrightarrow> timeout_list s = []"
  by (auto simp: first_def split: list.splits)

lemma fire_simps:
  assumes "timeout_list s = t # ts" "timeout_wf s"
  shows "timeout_list (fire t s) = ts"
    and "curr_tick (fire t s) = deadline s t"
    and "announce_remaining (fire t s) = announce_remaining s"
    and "clk_elapsed (fire t s) = clk_elapsed s"
    and "fault (fire t s) = fault s"
    and "timeout_state.more (fire t s) = timeout_state.more s"
    and "\<And>u. u \<noteq> t \<Longrightarrow> timeouts (fire t s) u = timeouts s u"
    and "to_fn (timeouts (fire t s) t) = to_fn (timeouts s t)"
  using assms
  by (cases ts; auto simp: fire_def remove_timeout_def deadline_def set_dticks_def timeout_wf_def Let_def)+

lemma wf_fire:
  assumes "timeout_list s = t # ts" "timeout_wf s"
  shows "timeout_wf (fire t s)"
proof -
  have "timeouts (fire t s) u = timeouts s u" if "u \<in> set ts" for u
    using fire_simps(7) [OF assms, of u] assms that by (auto simp: timeout_wf_def)
  then show ?thesis using assms by (simp add: timeout_wf_def fire_simps(1) [OF assms])
qed

lemma deadline_fire:
  assumes "timeout_list s = t # ts" "timeout_wf s" "u \<in> set ts"
  shows "deadline (fire t s) u = deadline s u"
proof -
  have "timeouts (fire t s) x = timeouts s x" if "x \<in> set ts" for x
    using fire_simps(7) [OF assms(1,2), of x] assms that by (auto simp: timeout_wf_def)
  then have "rem_sum (timeouts (fire t s)) ts u = rem_sum (timeouts s) ts u"
    by (intro rem_sum_cong) simp
  then show ?thesis
    using assms fire_simps(1,2) [OF assms(1,2)] by (auto simp: deadline_def timeout_wf_def)
qed

lemma deadline_ge_curr: "timeout_wf s \<Longrightarrow> curr_tick s \<le> deadline s u"
  by (auto simp: deadline_def timeout_wf_def intro: rem_sum_nonneg)

lemma deadline_upd [simp]:
  "deadline (s\<lparr>announce_remaining := r\<rparr>) u = deadline s u"
  "deadline (s\<lparr>clk_next := c\<rparr>) u = deadline s u"
  "deadline (s\<lparr>clk_elapsed := e\<rparr>) u = deadline s u"
  by (auto simp: deadline_def)

lemma to_linked_upd [simp]:
  "to_linked u (s\<lparr>announce_remaining := r\<rparr>) = to_linked u s"
  "to_linked u (s\<lparr>clk_next := c\<rparr>) = to_linked u s"
  "to_linked u (s\<lparr>clk_elapsed := e\<rparr>) = to_linked u s"
  by (auto simp: to_linked_def)

lemma timeout_wf_upd [simp]:
  "timeout_wf (s\<lparr>announce_remaining := r\<rparr>) = timeout_wf s"
  "timeout_wf (s\<lparr>clk_next := c\<rparr>) = timeout_wf s"
  "timeout_wf (s\<lparr>clk_elapsed := e\<rparr>) = timeout_wf s"
  by (auto simp: timeout_wf_def)

text \<open>After the loop: the counter reaches the announced tick and every delta is relative to it.\<close>

lemma finish_frame:
  "timeout_list (announce_finish s) = timeout_list s"
  "curr_tick (announce_finish s) = curr_tick s + announce_remaining s"
  "announce_remaining (announce_finish s) = 0"
  "clk_elapsed (announce_finish s) = clk_elapsed s"
  "fault (announce_finish s) = fault s"
  "timeout_state.more (announce_finish s) = timeout_state.more s"
  by (auto simp: announce_finish_def Let_def)

lemma finish_deadline:
  assumes "timeout_wf s" "u \<in> set (timeout_list s)"
  shows "deadline (announce_finish s) u = deadline s u"
proof (cases "timeout_list s")
  case Nil
  with assms show ?thesis by simp
next
  case (Cons t ts)
  have T: "timeouts (announce_finish s) = set_dticks t (dticks (timeouts s t) - announce_remaining s) (timeouts s)"
    using Cons by (simp add: announce_finish_def first_def Let_def)
  have "rem_sum (timeouts (announce_finish s)) ts u = rem_sum (timeouts s) ts u"
    using assms Cons unfolding T by (intro rem_sum_cong) (auto simp: timeout_wf_def)
  with Cons T show ?thesis by (auto simp: deadline_def finish_frame)
qed

lemma finish_wf:
  assumes "timeout_wf s" "\<And>t. first s = Some t \<Longrightarrow> announce_remaining s < dticks (timeouts s t)"
  shows "timeout_wf (announce_finish s)"
    and "u \<in> set (timeout_list s) \<Longrightarrow> curr_tick (announce_finish s) < deadline (announce_finish s) u"
proof -
  have T: "timeouts (announce_finish s) =
     (case first s of None \<Rightarrow> timeouts s
      | Some t \<Rightarrow> set_dticks t (dticks (timeouts s t) - announce_remaining s) (timeouts s))"
    by (simp add: announce_finish_def Let_def)
  show wf: "timeout_wf (announce_finish s)"
    using assms by (force simp: timeout_wf_def finish_frame T split: option.splits)
  show "curr_tick (announce_finish s) < deadline (announce_finish s) u" if "u \<in> set (timeout_list s)"
  proof (cases "timeout_list s")
    case Nil
    with that show ?thesis by simp
  next
    case (Cons t ts)
    have "0 < dticks (timeouts (announce_finish s) t)"
      using assms(2) [of t] Cons by (simp add: T first_def)
    moreover have "0 \<le> rem_sum (timeouts (announce_finish s)) ts u"
      using wf Cons by (intro rem_sum_nonneg) (auto simp: timeout_wf_def finish_frame)
    ultimately show ?thesis using Cons by (auto simp: deadline_def finish_frame)
  qed
qed

text \<open>
  What the loop relies on in the callbacks: they keep an invariant \<open>ok\<close> of the
  whole system that implies a well-formed queue, they do not move the clock,
  and a timeout they link expires in the future.
\<close>

locale timeout_handlers =
  fixes call :: "timeout_fn \<Rightarrow> timeout_id \<Rightarrow> 'a timeout_state_scheme \<Rightarrow> 'a timeout_state_scheme"
    and ok :: "'a timeout_state_scheme \<Rightarrow> bool"
  assumes ok_wf: "ok s \<Longrightarrow> timeout_wf s"
    and ok_remaining: "ok s \<Longrightarrow> ok (s\<lparr>announce_remaining := r\<rparr>)"
    and ok_call: "ok s \<Longrightarrow> first s = Some t \<Longrightarrow> ok (call (to_fn (timeouts s t)) t (fire t s))"
    and call_clock: "ok s \<Longrightarrow> first s = Some t \<Longrightarrow>
      curr_tick (call (to_fn (timeouts s t)) t (fire t s)) = curr_tick (fire t s) \<and>
      announce_remaining (call (to_fn (timeouts s t)) t (fire t s)) = announce_remaining s"
    and call_future: "ok s \<Longrightarrow> first s = Some t \<Longrightarrow>
      to_linked u (call (to_fn (timeouts s t)) t (fire t s)) \<Longrightarrow>
      to_linked u (fire t s) \<and> deadline (call (to_fn (timeouts s t)) t (fire t s)) u = deadline (fire t s) u \<or>
      curr_tick (fire t s) < deadline (call (to_fn (timeouts s t)) t (fire t s)) u"
begin

definition due_now :: "'a timeout_state_scheme \<Rightarrow> timeout_id set" where
  "due_now s = {u. to_linked u s \<and> deadline s u = curr_tick s}"

definition loop_step :: "timeout_id \<Rightarrow> 'a timeout_state_scheme \<Rightarrow> 'a timeout_state_scheme" where
  "loop_step t s =
     (let s3 = call (to_fn (timeouts s t)) t (fire t s)
      in s3\<lparr>announce_remaining := announce_remaining s3 - dticks (timeouts s t)\<rparr>)"

lemma finite_due: "finite (due_now s)"
  by (rule finite_subset [of _ "set (timeout_list s)"]) (auto simp: due_now_def to_linked_def)

lemma loop_unfold:
  assumes "ok s"
  shows "announce_loop call s =
     (case first s of
        None \<Rightarrow> Some s
      | Some t \<Rightarrow> if dticks (timeouts s t) \<le> announce_remaining s
                  then announce_loop call (loop_step t s) else Some s)"
proof (cases "timeout_list s")
  case Nil
  then show ?thesis by (subst announce_loop_fire) (simp add: first_def)
next
  case (Cons t ts)
  then show ?thesis
    using fire_simps(8) [OF Cons ok_wf [OF assms]]
    by (subst announce_loop_fire) (simp add: first_def loop_step_def Let_def)
qed

lemma loop_step_ok:
  assumes "ok s" "first s = Some t"
  shows "ok (loop_step t s)"
    and "curr_tick (loop_step t s) = curr_tick s + dticks (timeouts s t)"
    and "announce_remaining (loop_step t s) = announce_remaining s - dticks (timeouts s t)"
proof -
  from assms(2) obtain ts where l: "timeout_list s = t # ts" by (auto simp: first_Some)
  show "ok (loop_step t s)" using ok_call [OF assms] by (simp add: loop_step_def ok_remaining Let_def)
  show "announce_remaining (loop_step t s) = announce_remaining s - dticks (timeouts s t)"
    using call_clock [OF assms] by (simp add: loop_step_def Let_def)
  show "curr_tick (loop_step t s) = curr_tick s + dticks (timeouts s t)"
    using call_clock [OF assms] fire_simps(2) [OF l ok_wf [OF assms(1)]] l
    by (simp add: loop_step_def Let_def deadline_def)
qed

lemma loop_step_due:
  assumes "ok s" "first s = Some t" "dticks (timeouts s t) = 0"
  shows "due_now (loop_step t s) \<subset> due_now s"
proof -
  from assms(2) obtain ts where l: "timeout_list s = t # ts" by (auto simp: first_Some)
  note wf = ok_wf [OF assms(1)]
  have now: "curr_tick (fire t s) = curr_tick s" "curr_tick (loop_step t s) = curr_tick s"
    using fire_simps(2) [OF l wf] assms(3) l loop_step_ok(2) [OF assms(1,2)] by (auto simp: deadline_def)
  have t: "t \<in> due_now s" using l assms(3) by (auto simp: due_now_def deadline_def to_linked_def)
  have "u \<in> due_now s \<and> u \<noteq> t" if u: "u \<in> due_now (loop_step t s)" for u
  proof -
    have "to_linked u (fire t s) \<and> deadline (fire t s) u = curr_tick s"
      using call_future [OF assms(1,2), of u] u now by (auto simp: due_now_def loop_step_def Let_def)
    then have "u \<in> set ts" "deadline (fire t s) u = curr_tick s"
      using fire_simps(1) [OF l wf] by (auto simp: to_linked_def)
    moreover have "deadline (fire t s) u = deadline s u" using deadline_fire [OF l wf] calculation by simp
    ultimately show ?thesis using l wf by (auto simp: due_now_def to_linked_def timeout_wf_def)
  qed
  with t show ?thesis by blast
qed

text \<open>The loop ends, at the announced tick, and leaves nothing due.\<close>

lemma loop_terminates:
  assumes "ok s" "0 \<le> announce_remaining s"
  shows "\<exists>s'. announce_loop call s = Some s' \<and> ok s' \<and> 0 \<le> announce_remaining s' \<and>
     curr_tick s' + announce_remaining s' = curr_tick s + announce_remaining s \<and>
     (\<forall>t. first s' = Some t \<longrightarrow> announce_remaining s' < dticks (timeouts s' t))"
  using assms
proof (induction s rule: wf_induct_rule [OF wf_measures
        [of "[\<lambda>s. nat (announce_remaining s), \<lambda>s. card (due_now s)]"]])
  case (1 s)
  show ?case
  proof (cases "\<exists>t. first s = Some t \<and> dticks (timeouts s t) \<le> announce_remaining s")
    case False
    then have "announce_loop call s = Some s"
      using "1.prems" by (auto simp: loop_unfold split: option.splits)
    with False "1.prems" show ?thesis by auto
  next
    case True
    then obtain t where t: "first s = Some t" and le: "dticks (timeouts s t) \<le> announce_remaining s"
      by blast
    have nn: "0 \<le> dticks (timeouts s t)"
      using ok_wf [OF "1.prems"(1)] t by (auto simp: first_Some timeout_wf_def)
    note step = loop_step_ok [OF "1.prems"(1) t]
    have smaller: "(loop_step t s, s) \<in> measures [\<lambda>s. nat (announce_remaining s), \<lambda>s. card (due_now s)]"
    proof (cases "dticks (timeouts s t) = 0")
      case True
      from loop_step_due [OF "1.prems"(1) t this]
      have "card (due_now (loop_step t s)) < card (due_now s)" by (rule psubset_card_mono [OF finite_due])
      with True step show ?thesis by (simp add: measures_less)
    next
      case False
      with nn step "1.prems"(2) le show ?thesis by (auto simp: measures_less)
    qed
    have "0 \<le> announce_remaining (loop_step t s)" using step le by simp
    from "1.IH" [OF smaller step(1) this] obtain s' where
      "announce_loop call (loop_step t s) = Some s'" "ok s'" "0 \<le> announce_remaining s'"
      "curr_tick s' + announce_remaining s' = curr_tick s + announce_remaining s"
      "\<forall>t. first s' = Some t \<longrightarrow> announce_remaining s' < dticks (timeouts s' t)"
      using step by auto
    with t le "1.prems"(1) show ?thesis by (auto simp: loop_unfold)
  qed
qed

lemma announce_total:
  assumes "ok s" "0 \<le> ticks"
  shows "\<exists>s1 s'. announce_loop call (s\<lparr>announce_remaining := ticks\<rparr>) = Some s1 \<and> ok s1 \<and>
     announce_timeouts call ticks s = Some s' \<and> s' = announce_finish s1 \<and>
     curr_tick s' = curr_tick s + ticks \<and> timeout_wf s' \<and>
     (\<forall>u. to_linked u s' \<longrightarrow> curr_tick s' < deadline s' u)"
proof -
  from loop_terminates [OF ok_remaining [OF assms(1)], of ticks] assms(2) obtain s1 where
    s1: "announce_loop call (s\<lparr>announce_remaining := ticks\<rparr>) = Some s1" "ok s1"
      "curr_tick s1 + announce_remaining s1 = curr_tick s + ticks"
      "\<And>t. first s1 = Some t \<Longrightarrow> announce_remaining s1 < dticks (timeouts s1 t)"
    by auto
  from finish_wf [OF ok_wf [OF s1(2)] s1(4)] s1 show ?thesis
    by (auto simp: announce_timeouts_def finish_frame to_linked_def)
qed

end

section \<open>What fires, when, and in which order\<close>

text \<open>
  The list is ordered by expiry, so the timeouts due by a given tick are a
  prefix of it.
\<close>

lemma sorted_deadline:
  assumes "timeout_wf s"
  shows "sorted_wrt (\<lambda>a b. deadline s a \<le> deadline s b) (timeout_list s)"
proof -
  have "distinct xs \<Longrightarrow> \<forall>t \<in> set xs. 0 \<le> dticks (T t) \<Longrightarrow>
      sorted_wrt (\<lambda>a b. rem_sum T xs a \<le> rem_sum T xs b) xs" for T xs
  proof (induction xs)
    case (Cons x xs)
    have "rem_sum T (x # xs) a = dticks (T x) + rem_sum T xs a" if "a \<in> set xs" for a
      using Cons.prems that by auto
    then have "sorted_wrt (\<lambda>a b. rem_sum T (x # xs) a \<le> rem_sum T (x # xs) b) xs"
      using Cons by (auto intro: sorted_wrt_mono_rel [rotated])
    moreover have "rem_sum T (x # xs) x \<le> rem_sum T (x # xs) b" if "b \<in> set xs" for b
      using Cons.prems that rem_sum_nonneg [of xs T b] by auto
    ultimately show ?case by auto
  qed simp
  from this [of "timeout_list s" "timeouts s"] assms show ?thesis
    by (simp add: timeout_wf_def deadline_def)
qed

lemma filter_le_takeWhile:
  fixes f :: "'a \<Rightarrow> int"
  shows "sorted_wrt (\<lambda>a b. f a \<le> f b) xs \<Longrightarrow> filter (\<lambda>t. f t \<le> n) xs = takeWhile (\<lambda>t. f t \<le> n) xs"
proof (induction xs)
  case (Cons x xs)
  show ?case
  proof (cases "f x \<le> n")
    case False
    with Cons.prems have "filter (\<lambda>t. f t \<le> n) xs = []" by (fastforce simp: filter_empty_conv)
    with False show ?thesis by simp
  qed (use Cons in simp)
qed simp

text \<open>
  A callback that only writes down which timeout ran at which tick, in the part
  of the state that the timeout queue does not use.
\<close>

definition log_call :: "timeout_fn \<Rightarrow> timeout_id \<Rightarrow> (timeout_id \<times> ticks) list timeout_state_scheme \<Rightarrow>
    (timeout_id \<times> ticks) list timeout_state_scheme" where
  "log_call fn t s = timeout_state.more_update (\<lambda>l. l @ [(t, curr_tick s)]) s"

lemma log_call_simps [simp]:
  "timeouts (log_call f t s) = timeouts s" "timeout_list (log_call f t s) = timeout_list s"
  "curr_tick (log_call f t s) = curr_tick s"
  "announce_remaining (log_call f t s) = announce_remaining s"
  "timeout_state.more (log_call f t s) = timeout_state.more s @ [(t, curr_tick s)]"
  by (auto simp: log_call_def)

lemma log_call_deadline [simp]:
  "timeout_wf (log_call f t s) = timeout_wf s" "deadline (log_call f t s) u = deadline s u"
  by (auto simp: timeout_wf_def deadline_def)

interpretation log_handlers: timeout_handlers log_call timeout_wf
proof unfold_locales
  fix s :: "(timeout_id \<times> ticks) list timeout_state_scheme" and t u
  assume wf: "timeout_wf s" and f: "first s = Some t"
  then obtain ts where l: "timeout_list s = t # ts" by (auto simp: first_Some)
  show "timeout_wf (log_call (to_fn (timeouts s t)) t (fire t s))" using wf_fire [OF l wf] by simp
  show "curr_tick (log_call (to_fn (timeouts s t)) t (fire t s)) = curr_tick (fire t s) \<and>
      announce_remaining (log_call (to_fn (timeouts s t)) t (fire t s)) = announce_remaining s"
    using fire_simps [OF l wf] by simp
  assume "to_linked u (log_call (to_fn (timeouts s t)) t (fire t s))"
  then show "to_linked u (fire t s) \<and>
      deadline (log_call (to_fn (timeouts s t)) t (fire t s)) u = deadline (fire t s) u \<or>
      curr_tick (fire t s) < deadline (log_call (to_fn (timeouts s t)) t (fire t s)) u"
    by (simp add: to_linked_def)
qed simp_all

lemma announce_loop_log:
  assumes "timeout_wf s" "curr_tick s + announce_remaining s = stop"
  shows "\<exists>s'. announce_loop log_call s = Some s' \<and> timeout_wf s' \<and>
     timeout_list s' = dropWhile (\<lambda>t. deadline s t \<le> stop) (timeout_list s) \<and>
     (\<forall>u \<in> set (timeout_list s'). deadline s' u = deadline s u) \<and>
     curr_tick s' + announce_remaining s' = stop \<and>
     timeout_state.more s' = timeout_state.more s @
       map (\<lambda>t. (t, deadline s t)) (takeWhile (\<lambda>t. deadline s t \<le> stop) (timeout_list s))"
  using assms
proof (induction "timeout_list s" arbitrary: s)
  case Nil
  then show ?case by (subst announce_loop_fire) (simp add: first_def)
next
  case (Cons t ts)
  note l = Cons.hyps(2) [symmetric] and wf = Cons.prems(1)
  have due: "dticks (timeouts s t) \<le> announce_remaining s \<longleftrightarrow> deadline s t \<le> stop"
    using Cons.prems(2) l by (auto simp: deadline_def)
  show ?case
  proof (cases "deadline s t \<le> stop")
    case False
    with due l Cons.prems show ?thesis by (subst announce_loop_fire) (simp add: first_def)
  next
    case True
    define s3 where "s3 = log_call (to_fn (timeouts s t)) t (fire t s)"
    define s4 where "s4 = s3\<lparr>announce_remaining := announce_remaining s3 - dticks (timeouts s t)\<rparr>"
    note fs = fire_simps [OF l wf]
    have run: "announce_loop log_call s = announce_loop log_call s4"
      using True due l fs(8) by (subst announce_loop_fire) (simp add: first_def s3_def s4_def Let_def)
    have s4: "timeout_wf s4" "timeout_list s4 = ts" "timeout_state.more s4 = timeout_state.more s @ [(t, deadline s t)]"
      using wf_fire [OF l wf] fs by (auto simp: s3_def s4_def)
    have dl: "deadline s4 u = deadline s u" if "u \<in> set ts" for u
      using deadline_fire [OF l wf that] by (simp add: s3_def s4_def)
    have ct: "curr_tick s4 + announce_remaining s4 = stop"
      using Cons.prems(2) fs l by (auto simp: s3_def s4_def deadline_def)
    have tw: "takeWhile (\<lambda>u. deadline s4 u \<le> stop) ts = takeWhile (\<lambda>u. deadline s u \<le> stop) ts"
      using dl by (intro takeWhile_cong) auto
    have dw: "dropWhile (\<lambda>u. deadline s4 u \<le> stop) ts = dropWhile (\<lambda>u. deadline s u \<le> stop) ts"
      using dl by (intro dropWhile_cong) auto
    have mp: "map (\<lambda>u. (u, deadline s4 u)) (takeWhile (\<lambda>u. deadline s u \<le> stop) ts) =
        map (\<lambda>u. (u, deadline s u)) (takeWhile (\<lambda>u. deadline s u \<le> stop) ts)"
      using dl by (auto dest: set_takeWhileD)
    have sub: "set (dropWhile (\<lambda>u. deadline s u \<le> stop) ts) \<subseteq> set ts" by (auto dest: set_dropWhileD)
    from Cons.hyps(1) [OF s4(2) [symmetric] s4(1) ct] obtain s' where
      "announce_loop log_call s4 = Some s'" "timeout_wf s'"
      "timeout_list s' = dropWhile (\<lambda>u. deadline s u \<le> stop) ts"
      "\<forall>u \<in> set (timeout_list s'). deadline s' u = deadline s4 u"
      "curr_tick s' + announce_remaining s' = stop"
      "timeout_state.more s' = timeout_state.more s4 @
         map (\<lambda>u. (u, deadline s u)) (takeWhile (\<lambda>u. deadline s u \<le> stop) ts)"
      unfolding s4(2) tw dw mp by blast
    with run l True s4(3) dl sub show ?thesis by (intro exI [of _ s']) auto
  qed
qed

text \<open>The queue as the static initialisers leave it.\<close>

definition timeouts_boot :: "timeout_state" where
  "timeouts_boot = \<lparr>timeouts = (\<lambda>_. \<lparr>to_fn = Z_thread_timeout, dticks = 0\<rparr>), timeout_list = [],
     curr_tick = 0, announce_remaining = 0, clk_elapsed = 0, clk_next = 0, fault = False\<rparr>"

text \<open>A queue with two timeouts, the second one linked in front of the first.\<close>

definition two_timeouts :: "(timeout_id \<times> ticks) list timeout_state_scheme" where
  "two_timeouts = z_add_timeout SliceTO Slice_timeout 2
     (z_add_timeout (ThreadTO 1) Z_thread_timeout 5 (timeout_state.extend timeouts_boot []))"

lemmas timeout_eval = two_timeouts_def timeouts_boot_def z_add_timeout_def z_abort_timeout_def to_linked_def
  first_def timeout_wf_def deadline_def elapsed_def next_timeout_def set_dticks_def remove_timeout_def
  timeout_consts INT_MAX_def MAX_WAIT_def timeout_state.defs Let_def sys_clock_tick_get_def

section \<open>Properties\<close>



text \<open>
  Aborting a timeout (\<open>z_abort_timeout\<close>) unlinks it and nothing else, keeps
  the expiry of all others, and returns 0 exactly when it was linked.
\<close>

theorem abort_timeout_deadlines:
  assumes "timeout_wf s" "z_abort_timeout to s = (ret, s')"
  shows "timeout_wf s' \<and> (\<forall>u. to_linked u s' \<longleftrightarrow> to_linked u s \<and> u \<noteq> to) \<and>
     (\<forall>u. to_linked u s' \<longrightarrow> deadline s' u = deadline s u) \<and>
     ret = (if to_linked to s then 0 else - EINVAL)"
  using assms wf_abort [of s to] linked_abort [of s _ to] deadline_abort [of s _ to]
  by (auto simp: z_abort_timeout_def split: if_splits)

theorem abort_timeout_deadlines_witness:
  "fst (z_abort_timeout SliceTO two_timeouts) = 0 \<and>
   deadline (snd (z_abort_timeout SliceTO two_timeouts)) (ThreadTO 1) = 6"
  using abort_timeout_deadlines [of two_timeouts SliceTO "fst (z_abort_timeout SliceTO two_timeouts)"
      "snd (z_abort_timeout SliceTO two_timeouts)"]
  by (simp add: timeout_eval)





end
