(* ===== verification/Thread.thy ===== *)
theory Thread
  imports Timeout
begin

text \<open>
  Thread objects and the state of the kernel: \<^verbatim>\<open>struct k_thread\<close> and the flags of
  \<^verbatim>\<open>kernel_structs.h\<close>, the predicates and marks of \<^verbatim>\<open>kernel/include/ksched.h\<close>,
  the priority comparison of \<^verbatim>\<open>kernel/sched.c\<close>, and the record of everything the
  scheduler reads and writes. The configuration has \<open>CONFIG_NUM_COOP_PRIORITIES=16\<close>
  and \<open>CONFIG_NUM_PREEMPT_PRIORITIES=15\<close>, the defaults.
\<close>

section \<open>Thread objects\<close>

text \<open>
  A wait queue belongs to a kernel object, or is the join queue of a thread.
\<close>

datatype wq = WQ nat | JoinQ tid

text \<open>
  \<open>swap_key\<close> is the local \<open>key\<close> of \<open>do_swap\<close> on the stack of a thread that is
  switched out: whether interrupts were enabled when it took the lock.
\<close>

record k_thread =
  pended_on :: "wq option"
  user_options :: u8
  thread_state :: u8
  prio :: int
  sched_locked :: u8
  swap_data :: addr
  swap_retval :: int
  swap_key :: bool
  next_event_link :: "tid option"
  events :: u32
  event_options :: u32
  no_wake_on_timeout :: bool

definition THREAD_DUMMY :: u8 where "THREAD_DUMMY = BIT 0"
definition THREAD_PENDING :: u8 where "THREAD_PENDING = BIT 1"
definition THREAD_PRESTART :: u8 where "THREAD_PRESTART = BIT 2"
definition THREAD_DEAD :: u8 where "THREAD_DEAD = BIT 3"
definition THREAD_SUSPENDED :: u8 where "THREAD_SUSPENDED = BIT 4"
definition THREAD_ABORTING :: u8 where "THREAD_ABORTING = BIT 5"
definition THREAD_QUEUED :: u8 where "THREAD_QUEUED = BIT 7"

definition K_ESSENTIAL :: u8 where "K_ESSENTIAL = BIT 0"

definition PREEMPT_THRESHOLD :: u16 where "PREEMPT_THRESHOLD = 0x80 - 1"

definition K_HIGHEST_THREAD_PRIO :: int where "K_HIGHEST_THREAD_PRIO = -16"
definition K_LOWEST_THREAD_PRIO :: int where "K_LOWEST_THREAD_PRIO = 15"
definition K_IDLE_PRIO :: int where "K_IDLE_PRIO = K_LOWEST_THREAD_PRIO"
definition K_HIGHEST_APPLICATION_THREAD_PRIO :: int where
  "K_HIGHEST_APPLICATION_THREAD_PRIO = K_HIGHEST_THREAD_PRIO"
definition K_LOWEST_APPLICATION_THREAD_PRIO :: int where
  "K_LOWEST_APPLICATION_THREAD_PRIO = K_LOWEST_THREAD_PRIO - 1"
definition CONFIG_PRIORITY_CEILING :: int where "CONFIG_PRIORITY_CEILING = -127"

section \<open>Predicates and marks\<close>

definition z_is_thread_suspended :: "k_thread \<Rightarrow> bool" where
  "z_is_thread_suspended th \<longleftrightarrow> thread_state th AND THREAD_SUSPENDED \<noteq> 0"

definition z_is_thread_pending :: "k_thread \<Rightarrow> bool" where
  "z_is_thread_pending th \<longleftrightarrow> thread_state th AND THREAD_PENDING \<noteq> 0"

definition z_is_thread_prevented_from_running :: "k_thread \<Rightarrow> bool" where
  "z_is_thread_prevented_from_running th \<longleftrightarrow>
     thread_state th AND (THREAD_PENDING OR THREAD_PRESTART OR THREAD_DEAD OR
       THREAD_DUMMY OR THREAD_SUSPENDED) \<noteq> 0"

definition z_has_thread_started :: "k_thread \<Rightarrow> bool" where
  "z_has_thread_started th \<longleftrightarrow> thread_state th AND THREAD_PRESTART = 0"

definition z_is_thread_state_set :: "k_thread \<Rightarrow> u8 \<Rightarrow> bool" where
  "z_is_thread_state_set th state \<longleftrightarrow> thread_state th AND state \<noteq> 0"

definition z_is_thread_queued :: "k_thread \<Rightarrow> bool" where
  "z_is_thread_queued th \<longleftrightarrow> z_is_thread_state_set th THREAD_QUEUED"

definition z_set_thread_states :: "u8 \<Rightarrow> k_thread \<Rightarrow> k_thread" where
  "z_set_thread_states states th = th\<lparr>thread_state := thread_state th OR states\<rparr>"

definition z_reset_thread_states :: "u8 \<Rightarrow> k_thread \<Rightarrow> k_thread" where
  "z_reset_thread_states states th = th\<lparr>thread_state := thread_state th AND NOT states\<rparr>"

definition z_mark_thread_as_suspended :: "k_thread \<Rightarrow> k_thread" where
  "z_mark_thread_as_suspended th = th\<lparr>thread_state := thread_state th OR THREAD_SUSPENDED\<rparr>"

definition z_mark_thread_as_not_suspended :: "k_thread \<Rightarrow> k_thread" where
  "z_mark_thread_as_not_suspended th = th\<lparr>thread_state := thread_state th AND NOT THREAD_SUSPENDED\<rparr>"

definition z_mark_thread_as_started :: "k_thread \<Rightarrow> k_thread" where
  "z_mark_thread_as_started th = th\<lparr>thread_state := thread_state th AND NOT THREAD_PRESTART\<rparr>"

definition z_mark_thread_as_pending :: "k_thread \<Rightarrow> k_thread" where
  "z_mark_thread_as_pending th = th\<lparr>thread_state := thread_state th OR THREAD_PENDING\<rparr>"

definition z_mark_thread_as_not_pending :: "k_thread \<Rightarrow> k_thread" where
  "z_mark_thread_as_not_pending th = th\<lparr>thread_state := thread_state th AND NOT THREAD_PENDING\<rparr>"

lemmas flag_defs = THREAD_DUMMY_def THREAD_PENDING_def THREAD_PRESTART_def THREAD_DEAD_def
  THREAD_SUSPENDED_def THREAD_ABORTING_def THREAD_QUEUED_def

text \<open>
  The union \<open>preempt\<close> of \<open>prio\<close> (low byte) and \<open>sched_locked\<close> (high byte), and the
  threshold test on it.
\<close>

definition preempt :: "k_thread \<Rightarrow> u16" where
  "preempt th = push_bit 8 (ucast (sched_locked th)) OR ucast (word_of_int (prio th) :: u8)"

definition is_preempt :: "k_thread \<Rightarrow> bool" where
  "is_preempt th \<longleftrightarrow> preempt th \<le> PREEMPT_THRESHOLD"

definition int8 :: "int \<Rightarrow> int" where
  "int8 i = sint (word_of_int i :: u8)"

section \<open>Priorities\<close>

definition z_is_prio1_higher_than_or_equal_to_prio2 :: "int \<Rightarrow> int \<Rightarrow> bool" where
  "z_is_prio1_higher_than_or_equal_to_prio2 prio1 prio2 \<longleftrightarrow> prio1 \<le> prio2"

definition z_is_prio_higher_or_equal :: "int \<Rightarrow> int \<Rightarrow> bool" where
  "z_is_prio_higher_or_equal prio1 prio2 \<longleftrightarrow> z_is_prio1_higher_than_or_equal_to_prio2 prio1 prio2"

definition z_is_prio1_lower_than_or_equal_to_prio2 :: "int \<Rightarrow> int \<Rightarrow> bool" where
  "z_is_prio1_lower_than_or_equal_to_prio2 prio1 prio2 \<longleftrightarrow> prio1 \<ge> prio2"

definition z_is_prio_lower_or_equal :: "int \<Rightarrow> int \<Rightarrow> bool" where
  "z_is_prio_lower_or_equal prio1 prio2 \<longleftrightarrow> z_is_prio1_lower_than_or_equal_to_prio2 prio1 prio2"

definition z_is_prio1_higher_than_prio2 :: "int \<Rightarrow> int \<Rightarrow> bool" where
  "z_is_prio1_higher_than_prio2 prio1 prio2 \<longleftrightarrow> prio1 < prio2"

definition z_is_prio_higher :: "int \<Rightarrow> int \<Rightarrow> bool" where
  "z_is_prio_higher p test_prio \<longleftrightarrow> z_is_prio1_higher_than_prio2 p test_prio"

definition is_valid_prio :: "int \<Rightarrow> bool \<Rightarrow> bool" where
  "is_valid_prio p entry_is_idle \<longleftrightarrow>
     (if p = K_IDLE_PRIO \<and> entry_is_idle then True
      else if \<not> z_is_prio_higher_or_equal p K_LOWEST_APPLICATION_THREAD_PRIO then False
      else if \<not> z_is_prio_lower_or_equal p K_HIGHEST_APPLICATION_THREAD_PRIO then False
      else True)"

definition z_is_under_prio_ceiling :: "int \<Rightarrow> bool" where
  "z_is_under_prio_ceiling p \<longleftrightarrow> p \<ge> CONFIG_PRIORITY_CEILING"

definition z_get_new_prio_with_ceiling :: "int \<Rightarrow> int" where
  "z_get_new_prio_with_ceiling p =
     (if z_is_under_prio_ceiling p then p else CONFIG_PRIORITY_CEILING)"

lemmas prio_tests = z_is_prio1_higher_than_or_equal_to_prio2_def z_is_prio_higher_or_equal_def
  z_is_prio1_lower_than_or_equal_to_prio2_def z_is_prio_lower_or_equal_def
  z_is_prio1_higher_than_prio2_def z_is_prio_higher_def z_is_under_prio_ceiling_def
  z_get_new_prio_with_ceiling_def

text \<open>The comparison without \<open>CONFIG_SCHED_DEADLINE\<close>.\<close>

definition z_sched_prio_cmp :: "k_thread \<Rightarrow> k_thread \<Rightarrow> int" where
  "z_sched_prio_cmp thread_1 thread_2 =
     (let b1 = prio thread_1; b2 = prio thread_2 in if b1 \<noteq> b2 then b2 - b1 else 0)"

section \<open>Kernel state\<close>

text \<open>
  \<open>current_thread\<close> is \<open>_current\<close>, \<open>cache\<close> and \<open>runq\<close> are those of \<open>_kernel.ready_q\<close>,
  and the slice fields are the static variables of \<^verbatim>\<open>sched.c\<close>. \<open>irq_unlocked\<close> is the
  interrupt mask of the CPU and \<open>in_isr\<close> says whether it runs an interrupt handler.
  \<open>mem\<close> holds the bytes of message buffers and \<open>cells\<close> the pointers that the free
  blocks of memory slabs store.
\<close>

record kernel = timeout_state +
  threads :: "tid \<Rightarrow> k_thread"
  current_thread :: tid
  cache :: tid
  runq :: "tid list"
  waitqs :: "wq \<Rightarrow> tid list"
  in_isr :: bool
  irq_unlocked :: bool
  slice_ticks :: int
  slice_max_prio :: int
  slice_expired :: bool
  mem :: "addr \<Rightarrow> u8"
  cells :: "addr \<Rightarrow> addr"

definition z_idle_thread :: tid where "z_idle_thread = 0"

definition z_is_idle_thread_object :: "tid \<Rightarrow> bool" where
  "z_is_idle_thread_object t \<longleftrightarrow> t = z_idle_thread"

definition upd_thread :: "tid \<Rightarrow> (k_thread \<Rightarrow> k_thread) \<Rightarrow> 'a kernel_scheme \<Rightarrow> 'a kernel_scheme" where
  "upd_thread t f k = k\<lparr>threads := (threads k)(t := f (threads k t))\<rparr>"

definition z_is_thread_timeout_active :: "tid \<Rightarrow> 'a kernel_scheme \<Rightarrow> bool" where
  "z_is_thread_timeout_active t k \<longleftrightarrow> \<not> z_is_inactive_timeout (ThreadTO t) k"

definition z_is_thread_ready :: "tid \<Rightarrow> 'a kernel_scheme \<Rightarrow> bool" where
  "z_is_thread_ready t k \<longleftrightarrow>
     \<not> (z_is_thread_prevented_from_running (threads k t) \<or> z_is_thread_timeout_active t k)"

text \<open>Interrupt locking, which is all that a spinlock does on one CPU.\<close>

definition k_spin_lock :: "'a kernel_scheme \<Rightarrow> bool \<times> 'a kernel_scheme" where
  "k_spin_lock k = (irq_unlocked k, k\<lparr>irq_unlocked := False\<rparr>)"

definition k_spin_unlock :: "bool \<Rightarrow> 'a kernel_scheme \<Rightarrow> 'a kernel_scheme" where
  "k_spin_unlock key k = k\<lparr>irq_unlocked := key\<rparr>"

section \<open>The flags as bits\<close>

lemma state_flags [flag_simps]:
  "z_is_thread_suspended th \<longleftrightarrow> bit (thread_state th) 4"
  "z_is_thread_pending th \<longleftrightarrow> bit (thread_state th) 1"
  "z_is_thread_queued th \<longleftrightarrow> bit (thread_state th) 7"
  "z_has_thread_started th \<longleftrightarrow> \<not> bit (thread_state th) 2"
  "z_is_thread_prevented_from_running th \<longleftrightarrow>
     bit (thread_state th) 1 \<or> bit (thread_state th) 2 \<or> bit (thread_state th) 3 \<or>
     bit (thread_state th) 0 \<or> bit (thread_state th) 4"
  by (auto simp: z_is_thread_suspended_def z_is_thread_pending_def z_is_thread_queued_def
      z_has_thread_started_def z_is_thread_state_set_def z_is_thread_prevented_from_running_def
      flag_defs and_or_zero_iff)

lemma state_marks [simp]:
  "bit (thread_state (z_mark_thread_as_suspended th)) i \<longleftrightarrow> bit (thread_state th) i \<or> i = 4"
  "bit (thread_state (z_mark_thread_as_not_suspended th)) i \<longleftrightarrow> bit (thread_state th) i \<and> i \<noteq> 4"
  "bit (thread_state (z_mark_thread_as_started th)) i \<longleftrightarrow> bit (thread_state th) i \<and> i \<noteq> 2"
  "bit (thread_state (z_mark_thread_as_pending th)) i \<longleftrightarrow> bit (thread_state th) i \<or> i = 1"
  "bit (thread_state (z_mark_thread_as_not_pending th)) i \<longleftrightarrow> bit (thread_state th) i \<and> i \<noteq> 1"
  by (auto simp: z_mark_thread_as_suspended_def z_mark_thread_as_not_suspended_def
      z_mark_thread_as_started_def z_mark_thread_as_pending_def z_mark_thread_as_not_pending_def
      flag_defs bit_simps dest: bit_imp_le_length)

lemma state_marks_frame [simp]:
  "prio (z_mark_thread_as_suspended th) = prio th" "pended_on (z_mark_thread_as_suspended th) = pended_on th"
  "prio (z_mark_thread_as_not_suspended th) = prio th" "pended_on (z_mark_thread_as_not_suspended th) = pended_on th"
  "prio (z_mark_thread_as_started th) = prio th" "pended_on (z_mark_thread_as_started th) = pended_on th"
  "prio (z_mark_thread_as_pending th) = prio th" "pended_on (z_mark_thread_as_pending th) = pended_on th"
  "prio (z_mark_thread_as_not_pending th) = prio th" "pended_on (z_mark_thread_as_not_pending th) = pended_on th"
  "sched_locked (z_mark_thread_as_suspended th) = sched_locked th"
  "sched_locked (z_mark_thread_as_not_suspended th) = sched_locked th"
  "sched_locked (z_mark_thread_as_started th) = sched_locked th"
  "sched_locked (z_mark_thread_as_pending th) = sched_locked th"
  "sched_locked (z_mark_thread_as_not_pending th) = sched_locked th"
  by (auto simp: z_mark_thread_as_suspended_def z_mark_thread_as_not_suspended_def
      z_mark_thread_as_started_def z_mark_thread_as_pending_def z_mark_thread_as_not_pending_def)

lemma upd_thread_simps [simp]:
  "threads (upd_thread t f k) u = (if u = t then f (threads k t) else threads k u)"
  "runq (upd_thread t f k) = runq k" "waitqs (upd_thread t f k) = waitqs k"
  "current_thread (upd_thread t f k) = current_thread k" "cache (upd_thread t f k) = cache k"
  "in_isr (upd_thread t f k) = in_isr k" "irq_unlocked (upd_thread t f k) = irq_unlocked k"
  "timeouts (upd_thread t f k) = timeouts k" "timeout_list (upd_thread t f k) = timeout_list k"
  "curr_tick (upd_thread t f k) = curr_tick k" "announce_remaining (upd_thread t f k) = announce_remaining k"
  "clk_elapsed (upd_thread t f k) = clk_elapsed k" "fault (upd_thread t f k) = fault k"
  "clk_next (upd_thread t f k) = clk_next k"
  "slice_ticks (upd_thread t f k) = slice_ticks k" "slice_max_prio (upd_thread t f k) = slice_max_prio k"
  "slice_expired (upd_thread t f k) = slice_expired k"
  "mem (upd_thread t f k) = mem k" "cells (upd_thread t f k) = cells k"
  by (auto simp: upd_thread_def)

section \<open>Properties\<close>

text \<open>
  A thread is preemptible exactly when its scheduler lock count is zero and
  its priority is not negative, whatever the other lock counts down to.
\<close>

lemma bit7_neg:
  assumes "-128 \<le> (i :: int)" "i \<le> 127"
  shows "bit i 7 \<longleftrightarrow> i < 0"
proof -
  have "i div 128 = (if i < 0 then -1 else 0)" using assms by (auto simp: div_pos_geq div_pos_pos_trivial)
  then show ?thesis by (simp add: bit_iff_odd)
qed

lemma is_preempt_iff:
  assumes "-128 \<le> prio th" "prio th \<le> 127"
  shows "is_preempt th \<longleftrightarrow> sched_locked th = 0 \<and> 0 \<le> prio th"
proof -
  have "is_preempt th \<longleftrightarrow> unat (preempt th) < 2 ^ 7"
    by (auto simp: is_preempt_def PREEMPT_THRESHOLD_def word_le_nat_alt)
  then have p: "is_preempt th \<longleftrightarrow> (\<forall>n \<ge> 7. \<not> bit (preempt th) n)"
    by (simp only: less_exp_iff_bits)
  have b: "bit (preempt th) n \<longleftrightarrow> n < 16 \<and> (if n < 8 then bit (prio th) n else bit (sched_locked th) (n - 8))" for n
    by (auto simp: preempt_def bit_simps)
  have "is_preempt th \<longleftrightarrow> (\<forall>n \<ge> 7. \<not> bit (preempt th) n)" by (rule p)
  also have "\<dots> \<longleftrightarrow> \<not> bit (prio th) 7 \<and> (\<forall>n. \<not> bit (sched_locked th) n)"
  proof (intro iffI conjI allI impI)
    assume *: "\<forall>n \<ge> 7. \<not> bit (preempt th) n"
    show "\<not> bit (prio th) 7" using *[rule_format, of 7] by (simp add: b)
    show "\<not> bit (sched_locked th) n" for n
      using *[rule_format, of "n + 8"] bit_imp_le_length [of "sched_locked th" n] by (auto simp: b)
  next
    fix n :: nat assume *: "\<not> bit (prio th) 7 \<and> (\<forall>n. \<not> bit (sched_locked th) n)" and "7 \<le> n"
    then show "\<not> bit (preempt th) n" by (cases "n = 7") (auto simp: b)
  qed
  also have "\<dots> \<longleftrightarrow> sched_locked th = 0 \<and> 0 \<le> prio th"
    using assms bit_eqI [of "sched_locked th" 0] by (auto simp: bit7_neg)
  finally show ?thesis .
qed

lemma int8_id: "-128 \<le> i \<Longrightarrow> i \<le> 127 \<Longrightarrow> int8 i = i"
  by (simp add: int8_def signed_of_int signed_take_bit_int_eq_self)

end
