(* ===== verification/Priq.thy ===== *)
theory Priq
  imports Thread
begin

text \<open>
  The priority queues that hold ready and waiting threads: the ordered list of
  \<open>CONFIG_SCHED_DUMB\<close> and \<open>CONFIG_WAITQ_DUMB\<close>, the array of lists with a bitmask of
  \<open>CONFIG_SCHED_MULTIQ\<close>, and the comparison that \<open>CONFIG_SCHED_DEADLINE\<close> extends by
  deadlines, all from \<^verbatim>\<open>kernel/sched.c\<close>. A queue is the sequence of its threads
  (the theory \<open>Dlist\<close> relates the linked nodes to it).
\<close>

section \<open>Ordered list\<close>

fun z_priq_dumb_add :: "(tid \<Rightarrow> k_thread) \<Rightarrow> tid \<Rightarrow> tid list \<Rightarrow> tid list" where
  "z_priq_dumb_add T thread [] = [thread]"
| "z_priq_dumb_add T thread (t # pq) =
     (if z_sched_prio_cmp (T thread) (T t) > 0 then thread # t # pq
      else t # z_priq_dumb_add T thread pq)"

definition z_priq_dumb_remove :: "tid \<Rightarrow> tid list \<Rightarrow> tid list" where
  "z_priq_dumb_remove thread pq = remove1 thread pq"

definition z_priq_dumb_best :: "tid list \<Rightarrow> tid option" where
  "z_priq_dumb_best pq = (case pq of [] \<Rightarrow> None | n # _ \<Rightarrow> Some n)"

section \<open>One list per priority\<close>

record priq_mq =
  queues :: "nat \<Rightarrow> tid list"
  bitmask :: u32

definition priority_bit :: "k_thread \<Rightarrow> nat" where
  "priority_bit th = nat (prio th - K_HIGHEST_THREAD_PRIO)"

definition builtin_ctz :: "u32 \<Rightarrow> nat" where
  "builtin_ctz w = length (takeWhile (\<lambda>i. \<not> bit w i) [0..<32])"

definition z_priq_mq_add :: "(tid \<Rightarrow> k_thread) \<Rightarrow> tid \<Rightarrow> priq_mq \<Rightarrow> priq_mq" where
  "z_priq_mq_add T thread pq =
     (let b = priority_bit (T thread) in
      pq\<lparr>queues := (queues pq)(b := queues pq b @ [thread]), bitmask := bitmask pq OR BIT b\<rparr>)"

definition z_priq_mq_remove :: "(tid \<Rightarrow> k_thread) \<Rightarrow> tid \<Rightarrow> priq_mq \<Rightarrow> priq_mq" where
  "z_priq_mq_remove T thread pq =
     (let b = priority_bit (T thread);
          pq' = pq\<lparr>queues := (queues pq)(b := remove1 thread (queues pq b))\<rparr>
      in if queues pq' b = [] then pq'\<lparr>bitmask := bitmask pq' AND NOT (BIT b)\<rparr> else pq')"

definition z_priq_mq_best :: "priq_mq \<Rightarrow> tid option" where
  "z_priq_mq_best pq =
     (if bitmask pq = 0 then None
      else case queues pq (builtin_ctz (bitmask pq)) of [] \<Rightarrow> None | n # _ \<Rightarrow> Some n)"

definition init_mq :: priq_mq where
  "init_mq = \<lparr>queues = (\<lambda>_. []), bitmask = 0\<rparr>"

section \<open>Deadlines\<close>

definition prio_cmp_deadline :: "int \<times> u32 \<Rightarrow> int \<times> u32 \<Rightarrow> int" where
  "prio_cmp_deadline thread_1 thread_2 =
     (let b1 = fst thread_1; b2 = fst thread_2 in
      if b1 \<noteq> b2 then b2 - b1
      else let d1 = snd thread_1; d2 = snd thread_2 in
           if d1 \<noteq> d2 then sint (d2 - d1) else 0)"

section \<open>The interface\<close>

text \<open>
  What the scheduler relies on in a queue of threads: adding puts a thread
  behind every thread of the same or a higher priority and ahead of all others,
  removing takes out one thread, and the best thread is the first. \<open>seq\<close> is
  the sequence of threads that a queue holds.
\<close>

locale thread_queue =
  fixes P :: "tid \<Rightarrow> int"
    and valid :: "tid \<Rightarrow> bool"
    and ok :: "'q \<Rightarrow> bool"
    and seq :: "'q \<Rightarrow> tid list"
    and add :: "tid \<Rightarrow> 'q \<Rightarrow> 'q"
    and rem :: "tid \<Rightarrow> 'q \<Rightarrow> 'q"
    and best :: "'q \<Rightarrow> tid option"
  assumes sorted_seq: "ok q \<Longrightarrow> sorted_wrt (\<lambda>a b. P a \<le> P b) (seq q)"
    and distinct_seq: "ok q \<Longrightarrow> distinct (seq q)"
    and valid_seq: "ok q \<Longrightarrow> t \<in> set (seq q) \<Longrightarrow> valid t"
    and add_ok: "ok q \<Longrightarrow> valid t \<Longrightarrow> t \<notin> set (seq q) \<Longrightarrow> ok (add t q)"
    and seq_add: "ok q \<Longrightarrow> valid t \<Longrightarrow> t \<notin> set (seq q) \<Longrightarrow>
      seq (add t q) = takeWhile (\<lambda>u. P u \<le> P t) (seq q) @ t # dropWhile (\<lambda>u. P u \<le> P t) (seq q)"
    and rem_ok: "ok q \<Longrightarrow> t \<in> set (seq q) \<Longrightarrow> ok (rem t q)"
    and seq_rem: "ok q \<Longrightarrow> t \<in> set (seq q) \<Longrightarrow> seq (rem t q) = remove1 t (seq q)"
    and best_seq: "ok q \<Longrightarrow> best q = (if seq q = [] then None else Some (hd (seq q)))"
begin

text \<open>The best thread has the highest priority (the smallest number) in the queue.\<close>

lemma best_highest:
  assumes "ok q" "best q = Some t"
  shows "t \<in> set (seq q)" "u \<in> set (seq q) \<Longrightarrow> P t \<le> P u"
  using assms best_seq [of q] sorted_seq [of q] by (cases "seq q"; auto split: if_splits)+

lemma best_none: "ok q \<Longrightarrow> best q = None \<longleftrightarrow> seq q = []"
  by (simp add: best_seq)

text \<open>Within one priority the queue is first in, first out.\<close>

lemma add_fifo:
  assumes "ok q" "valid t" "t \<notin> set (seq q)"
  shows "filter (\<lambda>u. P u = p) (seq (add t q)) =
    filter (\<lambda>u. P u = p) (seq q) @ (if P t = p then [t] else [])"
proof -
  let ?D = "dropWhile (\<lambda>u. P u \<le> P t) (seq q)"
  have "\<forall>u \<in> set ?D. P t < P u"
    using dropWhile_upward [OF sorted_seq [OF assms(1)], of "\<lambda>u. P t < P u"] by (fastforce simp: not_less)
  then have "P t = p \<Longrightarrow> filter (\<lambda>u. P u = p) ?D = []" by (force simp: filter_empty_conv)
  moreover have "filter (\<lambda>u. P u = p) (seq q) =
     filter (\<lambda>u. P u = p) (takeWhile (\<lambda>u. P u \<le> P t) (seq q)) @ filter (\<lambda>u. P u = p) ?D"
    by (metis filter_append takeWhile_dropWhile_id)
  ultimately show ?thesis by (simp add: seq_add [OF assms])
qed

lemma rem_fifo:
  assumes "ok q" "t \<in> set (seq q)"
  shows "filter (\<lambda>u. P u = p) (seq (rem t q)) =
    (if P t = p then remove1 t (filter (\<lambda>u. P u = p) (seq q)) else filter (\<lambda>u. P u = p) (seq q))"
  by (auto simp: seq_rem [OF assms] filter_remove1_not remove1_filter_not filter_remove1)

lemma set_add:
  "ok q \<Longrightarrow> valid t \<Longrightarrow> t \<notin> set (seq q) \<Longrightarrow> set (seq (add t q)) = insert t (set (seq q))"
  by (simp add: seq_add) (metis set_append takeWhile_dropWhile_id)

end

section \<open>The list implements it\<close>

lemma prio_cmp_pos: "z_sched_prio_cmp a b > 0 \<longleftrightarrow> prio a < prio b"
  by (simp add: z_sched_prio_cmp_def Let_def)

lemma dumb_add_split:
  "z_priq_dumb_add T t pq =
     takeWhile (\<lambda>u. prio (T u) \<le> prio (T t)) pq @ t # dropWhile (\<lambda>u. prio (T u) \<le> prio (T t)) pq"
  by (induction pq) (auto simp: prio_cmp_pos)

lemma set_dumb_add [simp]: "set (z_priq_dumb_add T t pq) = insert t (set pq)"
  by (induction pq) auto

lemma distinct_dumb_add [simp]: "t \<notin> set pq \<Longrightarrow> distinct (z_priq_dumb_add T t pq) = distinct pq"
  by (induction pq) auto

lemma sorted_dumb_add:
  "sorted_wrt (\<lambda>a b. prio (T a) \<le> prio (T b)) pq \<Longrightarrow>
   sorted_wrt (\<lambda>a b. prio (T a) \<le> prio (T b)) (z_priq_dumb_add T t pq)"
  by (induction pq) (fastforce simp: prio_cmp_pos)+

lemma dumb_add_cong:
  "(\<And>u. u \<in> insert t (set pq) \<Longrightarrow> prio (T' u) = prio (T u)) \<Longrightarrow> z_priq_dumb_add T' t pq = z_priq_dumb_add T t pq"
  by (induction pq) (auto simp: prio_cmp_pos)

interpretation dumb: thread_queue "\<lambda>t. prio (T t)" "\<lambda>_. True"
    "\<lambda>pq. distinct pq \<and> sorted_wrt (\<lambda>a b. prio (T a) \<le> prio (T b)) pq" "\<lambda>pq. pq"
    "z_priq_dumb_add T" z_priq_dumb_remove z_priq_dumb_best for T
  by unfold_locales
    (auto simp: dumb_add_split [symmetric] sorted_dumb_add z_priq_dumb_remove_def z_priq_dumb_best_def
      sorted_wrt_remove1 split: list.splits)

section \<open>The array of lists implements it\<close>

definition mq_seq :: "priq_mq \<Rightarrow> tid list" where
  "mq_seq pq = concat (map (queues pq) [0..<32])"

definition mq_valid :: "(tid \<Rightarrow> k_thread) \<Rightarrow> tid \<Rightarrow> bool" where
  "mq_valid T t \<longleftrightarrow> K_HIGHEST_THREAD_PRIO \<le> prio (T t) \<and> prio (T t) \<le> K_LOWEST_THREAD_PRIO"

definition mq_ok :: "(tid \<Rightarrow> k_thread) \<Rightarrow> priq_mq \<Rightarrow> bool" where
  "mq_ok T pq \<longleftrightarrow>
     (\<forall>b < 32. distinct (queues pq b) \<and> (bit (bitmask pq) b \<longleftrightarrow> queues pq b \<noteq> []) \<and>
        (\<forall>t \<in> set (queues pq b). mq_valid T t \<and> priority_bit (T t) = b))"

lemma upt_split: "b < n \<Longrightarrow> [0..<n] = [0..<b] @ b # [Suc b..<n]"
  by (metis le0 le_add_diff_inverse less_or_eq_imp_le upt_add_eq_append upt_conv_Cons)

lemma mq_prio_le:
  "mq_valid T u \<Longrightarrow> mq_valid T t \<Longrightarrow> prio (T u) \<le> prio (T t) \<longleftrightarrow> priority_bit (T u) \<le> priority_bit (T t)"
  by (auto simp: mq_valid_def priority_bit_def)

lemma mq_valid_bit: "mq_valid T t \<Longrightarrow> priority_bit (T t) < 32"
  by (auto simp: mq_valid_def priority_bit_def K_HIGHEST_THREAD_PRIO_def K_LOWEST_THREAD_PRIO_def)

lemma mq_seq_split:
  "b < 32 \<Longrightarrow> mq_seq pq = concat (map (queues pq) [0..<b]) @ queues pq b @ concat (map (queues pq) [Suc b..<32])"
  by (simp add: mq_seq_def upt_split)

lemma mq_parts:
  assumes "mq_ok T pq" "mq_valid T t"
  defines "b \<equiv> priority_bit (T t)"
  shows "\<forall>u \<in> set (concat (map (queues pq) [0..<b]) @ queues pq b). prio (T u) \<le> prio (T t)"
    and "\<forall>u \<in> set (concat (map (queues pq) [Suc b..<32])). \<not> prio (T u) \<le> prio (T t)"
proof -
  have b: "b < 32" using mq_valid_bit [OF assms(2)] by (simp add: b_def)
  have q: "mq_valid T u \<and> priority_bit (T u) = i" if "u \<in> set (queues pq i)" "i < 32" for u i
    using assms(1) that by (simp add: mq_ok_def)
  show "\<forall>u \<in> set (concat (map (queues pq) [0..<b]) @ queues pq b). prio (T u) \<le> prio (T t)"
  proof
    fix u assume "u \<in> set (concat (map (queues pq) [0..<b]) @ queues pq b)"
    then have "(\<exists>i < b. u \<in> set (queues pq i)) \<or> u \<in> set (queues pq b)" by auto
    then obtain i where "i \<le> b" "u \<in> set (queues pq i)" by (metis less_imp_le order_refl)
    with q [of u i] b mq_prio_le [of T u t] assms(2) show "prio (T u) \<le> prio (T t)" by (simp add: b_def)
  qed
  show "\<forall>u \<in> set (concat (map (queues pq) [Suc b..<32])). \<not> prio (T u) \<le> prio (T t)"
  proof
    fix u assume "u \<in> set (concat (map (queues pq) [Suc b..<32]))"
    then obtain i where "Suc b \<le> i" "i < 32" "u \<in> set (queues pq i)" by auto
    with q [of u i] mq_prio_le [of T u t] assms(2) show "\<not> prio (T u) \<le> prio (T t)" by (simp add: b_def)
  qed
qed

lemma mq_mem_queue:
  assumes "mq_ok T pq" "t \<in> set (mq_seq pq)"
  shows "mq_valid T t \<and> t \<in> set (queues pq (priority_bit (T t)))"
proof -
  from assms(2) obtain b where "b < 32" "t \<in> set (queues pq b)" by (auto simp: mq_seq_def)
  moreover with assms(1) have "mq_valid T t \<and> priority_bit (T t) = b" by (simp add: mq_ok_def)
  ultimately show ?thesis by simp
qed

lemma mq_add_ok:
  assumes "mq_ok T pq" "mq_valid T t" "t \<notin> set (mq_seq pq)"
  shows "mq_ok T (z_priq_mq_add T t pq)"
  unfolding mq_ok_def
proof (intro allI impI)
  fix b :: nat assume b: "b < 32"
  note old = assms(1) [unfolded mq_ok_def, rule_format, OF b]
  have "t \<notin> set (queues pq b)" using assms(3) b by (simp add: mq_seq_def)
  with old b assms(2) show "distinct (queues (z_priq_mq_add T t pq) b) \<and>
      bit (bitmask (z_priq_mq_add T t pq)) b = (queues (z_priq_mq_add T t pq) b \<noteq> []) \<and>
      (\<forall>t\<in>set (queues (z_priq_mq_add T t pq) b). mq_valid T t \<and> priority_bit (T t) = b)"
    by (cases "priority_bit (T t) = b") (simp_all add: z_priq_mq_add_def Let_def bit_or_iff)
qed

lemma mq_seq_add:
  assumes "mq_ok T pq" "mq_valid T t" "t \<notin> set (mq_seq pq)"
  shows "mq_seq (z_priq_mq_add T t pq) = takeWhile (\<lambda>u. prio (T u) \<le> prio (T t)) (mq_seq pq) @ t #
     dropWhile (\<lambda>u. prio (T u) \<le> prio (T t)) (mq_seq pq)"
proof -
  let ?b = "priority_bit (T t)" and ?c = "\<lambda>u. prio (T u) \<le> prio (T t)"
  let ?A = "concat (map (queues pq) [0..<?b]) @ queues pq ?b" and ?B = "concat (map (queues pq) [Suc ?b..<32])"
  have b: "?b < 32" by (rule mq_valid_bit [OF assms(2)])
  have s: "mq_seq pq = ?A @ ?B" by (simp add: mq_seq_split [OF b])
  note parts = mq_parts [OF assms(1,2)]
  note parts' = While_append [OF parts]
  have "mq_seq (z_priq_mq_add T t pq) = ?A @ t # ?B"
    by (simp add: mq_seq_split [OF b] z_priq_mq_add_def Let_def map_upt_eqI)
  then show ?thesis unfolding s parts' .
qed

lemma mq_rem_ok:
  assumes "mq_ok T pq" "t \<in> set (mq_seq pq)"
  shows "mq_ok T (z_priq_mq_remove T t pq)"
proof -
  note m = mq_mem_queue [OF assms]
  note b = mq_valid_bit [OF conjunct1 [OF m]]
  show ?thesis unfolding mq_ok_def
  proof (intro allI impI)
    fix i :: nat assume i: "i < 32"
    note old = assms(1) [unfolded mq_ok_def, rule_format, OF i]
    have "set (remove1 t (queues pq i)) \<subseteq> set (queues pq i)" by (rule set_remove1_subset)
    with old i m show "distinct (queues (z_priq_mq_remove T t pq) i) \<and>
        bit (bitmask (z_priq_mq_remove T t pq)) i = (queues (z_priq_mq_remove T t pq) i \<noteq> []) \<and>
        (\<forall>t\<in>set (queues (z_priq_mq_remove T t pq) i). mq_valid T t \<and> priority_bit (T t) = i)"
      by (cases "priority_bit (T t) = i")
        (auto simp: z_priq_mq_remove_def Let_def bit_and_iff bit_not_iff)
  qed
qed

lemma mq_seq_rem:
  assumes "mq_ok T pq" "t \<in> set (mq_seq pq)"
  shows "mq_seq (z_priq_mq_remove T t pq) = remove1 t (mq_seq pq)"
proof -
  let ?b = "priority_bit (T t)"
  note m = mq_mem_queue [OF assms]
  note b = mq_valid_bit [OF conjunct1 [OF m]]
  have no: "t \<notin> set (concat (map (queues pq) [0..<?b]))"
  proof
    assume "t \<in> set (concat (map (queues pq) [0..<?b]))"
    then obtain i where i: "i < ?b" "t \<in> set (queues pq i)" by auto
    with assms(1) b have "priority_bit (T t) = i" by (simp add: mq_ok_def)
    with i show False by simp
  qed
  have q: "queues (z_priq_mq_remove T t pq) = (queues pq)(?b := remove1 t (queues pq ?b))"
    by (simp add: z_priq_mq_remove_def Let_def)
  have "mq_seq (z_priq_mq_remove T t pq) = concat (map (queues pq) [0..<?b]) @
     remove1 t (queues pq ?b) @ concat (map (queues pq) [Suc ?b..<32])"
    by (simp add: mq_seq_split [OF b] q map_upt_eqI)
  then show ?thesis using no m by (simp add: mq_seq_split [OF b] remove1_append)
qed

lemma mq_best:
  assumes "mq_ok T pq"
  shows "z_priq_mq_best pq = (if mq_seq pq = [] then None else Some (hd (mq_seq pq)))"
proof (cases "bitmask pq = 0")
  case True
  with assms have "mq_seq pq = []" by (auto simp: mq_ok_def mq_seq_def)
  with True show ?thesis by (simp add: z_priq_mq_best_def)
next
  case False
  let ?w = "bitmask pq" and ?b = "builtin_ctz (bitmask pq)"
  from False obtain i where "bit ?w i" "i < 32" using bit_eqI [of ?w 0] bit_imp_le_length [of ?w] by force
  then have "\<exists>i \<in> set [0..<32]. bit ?w i" by auto
  then have "takeWhile (\<lambda>i. \<not> bit ?w i) [0..<32] \<noteq> [0..<32]" by (simp only: takeWhile_eq_all_conv) blast
  then have b: "?b < 32"
    using length_takeWhile_le [of "\<lambda>i. \<not> bit ?w i" "[0..<32]"] takeWhile_eq_take [of "\<lambda>i. \<not> bit ?w i" "[0..<32]"]
    unfolding builtin_ctz_def by (metis diff_zero le_neq_implies_less length_upt take_all_iff)
  have hit: "bit ?w ?b" using nth_length_takeWhile [of "\<lambda>i. \<not> bit ?w i" "[0..<32]"] b
    by (simp add: builtin_ctz_def)
  have below: "\<not> bit ?w j" if "j < ?b" for j
    using nth_mem [of j "takeWhile (\<lambda>i. \<not> bit ?w i) [0..<32]"] that b takeWhile_nth [of j "\<lambda>i. \<not> bit ?w i" "[0..<32]"]
    by (auto simp: builtin_ctz_def dest!: set_takeWhileD)
  have "concat (map (queues pq) [0..<?b]) = []"
    using assms below b by (auto simp: mq_ok_def)
  then have "mq_seq pq = queues pq ?b @ concat (map (queues pq) [Suc ?b..<32])"
    by (simp only: mq_seq_split [OF b] append_Nil)
  moreover have "queues pq ?b \<noteq> []" using assms hit b by (auto simp: mq_ok_def)
  ultimately show ?thesis
    using False by (auto simp: z_priq_mq_best_def split: list.splits)
qed

lemma mq_sorted:
  assumes "mq_ok T pq"
  shows "sorted_wrt (\<lambda>a b. prio (T a) \<le> prio (T b)) (mq_seq pq)" "distinct (mq_seq pq)"
proof -
  have "n \<le> 32 \<Longrightarrow> sorted_wrt (\<lambda>a b. prio (T a) \<le> prio (T b)) (concat (map (queues pq) [0..<n])) \<and>
      distinct (concat (map (queues pq) [0..<n]))" for n
  proof (induction n)
    case (Suc n)
    have q: "mq_valid T u \<and> priority_bit (T u) = i" if "u \<in> set (queues pq i)" "i < 32" for u i
      using assms that by (simp add: mq_ok_def)
    have "sorted_wrt (\<lambda>a b. prio (T a) \<le> prio (T b)) (queues pq n)"
      using q [of _ n] Suc.prems by (auto simp: sorted_wrt_iff_nth_less mq_prio_le)
    moreover have "\<forall>u \<in> set (concat (map (queues pq) [0..<n])). \<forall>v \<in> set (queues pq n).
        prio (T u) \<le> prio (T v) \<and> u \<noteq> v"
    proof (intro ballI)
      fix u v assume "u \<in> set (concat (map (queues pq) [0..<n]))" and v: "v \<in> set (queues pq n)"
      then obtain i where i: "i < n" "u \<in> set (queues pq i)" by auto
      with q [of u i] q [OF v] Suc.prems show "prio (T u) \<le> prio (T v) \<and> u \<noteq> v"
        by (auto simp: mq_prio_le)
    qed
    moreover have "distinct (queues pq n)" using assms Suc.prems by (simp add: mq_ok_def)
    moreover have "concat (map (queues pq) [0..<Suc n]) = concat (map (queues pq) [0..<n]) @ queues pq n" by simp
    ultimately show ?case
      using Suc.IH Suc.prems by (simp only: sorted_wrt_append distinct_append) blast
  qed simp
  from this [of 32] show "sorted_wrt (\<lambda>a b. prio (T a) \<le> prio (T b)) (mq_seq pq)" "distinct (mq_seq pq)"
    unfolding mq_seq_def by blast+
qed

interpretation mq: thread_queue "\<lambda>t. prio (T t)" "mq_valid T" "mq_ok T" mq_seq
    "z_priq_mq_add T" "z_priq_mq_remove T" z_priq_mq_best for T
  by unfold_locales
    (rule mq_sorted mq_mem_queue [THEN conjunct1] mq_add_ok mq_seq_add mq_rem_ok mq_seq_rem mq_best; assumption)+

section \<open>Properties\<close>

text \<open>A sequence of insertions and removals, and when the scheduler could issue it.\<close>

datatype priq_op = Add tid | Remove tid

fun run_dumb :: "(tid \<Rightarrow> k_thread) \<Rightarrow> priq_op list \<Rightarrow> tid list \<Rightarrow> tid list" where
  "run_dumb T [] pq = pq"
| "run_dumb T (Add t # ops) pq = run_dumb T ops (z_priq_dumb_add T t pq)"
| "run_dumb T (Remove t # ops) pq = run_dumb T ops (z_priq_dumb_remove t pq)"

fun run_mq :: "(tid \<Rightarrow> k_thread) \<Rightarrow> priq_op list \<Rightarrow> priq_mq \<Rightarrow> priq_mq" where
  "run_mq T [] pq = pq"
| "run_mq T (Add t # ops) pq = run_mq T ops (z_priq_mq_add T t pq)"
| "run_mq T (Remove t # ops) pq = run_mq T ops (z_priq_mq_remove T t pq)"

fun priq_ops_ok :: "(tid \<Rightarrow> k_thread) \<Rightarrow> priq_op list \<Rightarrow> tid list \<Rightarrow> bool" where
  "priq_ops_ok T [] pq \<longleftrightarrow> True"
| "priq_ops_ok T (Add t # ops) pq \<longleftrightarrow> mq_valid T t \<and> t \<notin> set pq \<and> priq_ops_ok T ops (z_priq_dumb_add T t pq)"
| "priq_ops_ok T (Remove t # ops) pq \<longleftrightarrow> t \<in> set pq \<and> priq_ops_ok T ops (z_priq_dumb_remove t pq)"

lemma run_simulation:
  "mq_ok T pq \<Longrightarrow> mq_seq pq = xs \<Longrightarrow> priq_ops_ok T ops xs \<Longrightarrow>
     mq_ok T (run_mq T ops pq) \<and> mq_seq (run_mq T ops pq) = run_dumb T ops xs"
proof (induction ops arbitrary: pq xs)
  case (Cons op ops)
  show ?case
  proof (cases op)
    case (Add t)
    with Cons.prems have t: "mq_valid T t" "t \<notin> set (mq_seq pq)" by auto
    have "mq_seq (z_priq_mq_add T t pq) = z_priq_dumb_add T t xs"
      using mq_seq_add [OF Cons.prems(1) t] Cons.prems(2) by (simp only: dumb_add_split)
    with Cons.IH [OF mq_add_ok [OF Cons.prems(1) t]] Cons.prems(3) Add show ?thesis by simp
  next
    case (Remove t)
    with Cons.prems have t: "t \<in> set (mq_seq pq)" by auto
    have "mq_seq (z_priq_mq_remove T t pq) = z_priq_dumb_remove t xs"
      using mq_seq_rem [OF Cons.prems(1) t] Cons.prems(2) by (simp only: z_priq_dumb_remove_def)
    with Cons.IH [OF mq_rem_ok [OF Cons.prems(1) t]] Cons.prems(3) Remove show ?thesis by simp
  qed
qed simp

lemma init_mq_ok: "mq_ok T init_mq" "mq_seq init_mq = []"
  by (auto simp: mq_ok_def init_mq_def mq_seq_def concat_eq_Nil_conv simp del: upt_rec_numeral upt_conv_Nil)

text \<open>
  C23. The multiqueue scheduler and the list scheduler are interchangeable: after any
  sequence of insertions and removals both hold the same threads in the same
  order and name the same thread as the best one.
\<close>

theorem mq_refines_dumb:
  assumes "priq_ops_ok T ops []"
  shows "mq_seq (run_mq T ops init_mq) = run_dumb T ops [] \<and>
     z_priq_mq_best (run_mq T ops init_mq) = z_priq_dumb_best (run_dumb T ops [])"
  using run_simulation [OF init_mq_ok assms] mq_best [of T "run_mq T ops init_mq"]
  by (auto simp: z_priq_dumb_best_def split: list.splits)

theorem mq_refines_dumb_witness:
  "let T = (\<lambda>t. (undefined :: k_thread)\<lparr>prio := (if t = 2 then 3 else 7)\<rparr>);
       ops = [Add 1, Add 2, Add 3, Remove 2, Add 2, Remove 1] in
     priq_ops_ok T ops [] \<and> run_dumb T ops [] = [2, 3] \<and>
     z_priq_mq_best (run_mq T ops init_mq) = Some 2"
  using mq_refines_dumb [of "\<lambda>t. (undefined :: k_thread)\<lparr>prio := (if t = 2 then 3 else 7)\<rparr>"
      "[Add 1, Add 2, Add 3, Remove 2, Add 2, Remove 1]"]
  by (simp add: z_sched_prio_cmp_def z_priq_dumb_remove_def z_priq_dumb_best_def mq_valid_def
      K_HIGHEST_THREAD_PRIO_def K_LOWEST_THREAD_PRIO_def)

text \<open>
  Under \<open>CONFIG_SCHED_DEADLINE\<close> the comparison of two threads is that of their
  priorities and then of their deadlines, earlier first, although deadlines are
  32-bit cycle counts that wrap around, as long as the two deadlines are less
  than half the cycle range apart.
\<close>

theorem deadline_compare:
  fixes D1 D2 :: int
  assumes "\<bar>D1 - D2\<bar> < 2 ^ 31"
  shows "0 < prio_cmp_deadline (p1, word_of_int D1) (p2, word_of_int D2) \<longleftrightarrow>
     p1 < p2 \<or> p1 = p2 \<and> D1 < D2"
proof -
  have d: "sint (word_of_int (D2 - D1) :: u32) = D2 - D1"
    using assms by (simp add: sint_sbintrunc' signed_take_bit_int_eq_self del: of_int_diff)
  have "(word_of_int D1 :: u32) = word_of_int D2 \<longleftrightarrow> word_of_int (D2 - D1) = (0 :: u32)" by auto
  also have "\<dots> \<longleftrightarrow> sint (word_of_int (D2 - D1) :: u32) = 0" by (simp only: signed_eq_0_iff)
  finally have "(word_of_int D1 :: u32) = word_of_int D2 \<longleftrightarrow> D1 = D2" using d by auto
  with d show ?thesis by (auto simp: prio_cmp_deadline_def Let_def)
qed

theorem deadline_compare_witness:
  "0 < prio_cmp_deadline (3, word_of_int 4294967290) (3, word_of_int 4294967300)"
  using deadline_compare [of 4294967290 4294967300 3 3] by simp

end
