(* ===== verification/Time_Units.thy ===== *)
theory Time_Units
  imports Prelude
begin

text \<open>
  The unit conversions of \<^verbatim>\<open>include/zephyr/sys/time_units.h\<close>: the converter \<open>z_tmcvt\<close>
  with its choice between three formulas, on machine words, and the 84 functions
  that instantiate it. The frequencies of the tick and of the hardware cycle
  counter, and the longest timeout that the build is configured for, are fields
  of a configuration record.
\<close>

section \<open>Configuration\<close>

record clock_config =
  Z_HZ_ticks :: u32
  Z_HZ_cyc :: u32
  Z_CCYC :: bool
  MAX_TIMEOUT_DAYS :: u64

definition Z_HZ_ms :: u32 where "Z_HZ_ms = 1000"
definition Z_HZ_us :: u32 where "Z_HZ_us = 1000000"
definition Z_HZ_ns :: u32 where "Z_HZ_ns = 1000000000"

lemmas hz_defs = Z_HZ_ms_def Z_HZ_us_def Z_HZ_ns_def

section \<open>The converter\<close>

definition UINT32_MAX :: u64 where "UINT32_MAX = 4294967295"

definition Z_TMCVT_USE_FAST_ALGO :: "clock_config \<Rightarrow> u32 \<Rightarrow> u32 \<Rightarrow> bool" where
  "Z_TMCVT_USE_FAST_ALGO c from_hz to_hz \<longleftrightarrow>
     ((MAX_TIMEOUT_DAYS c * 24 * 3600 * ucast from_hz + (UINT32_MAX - 1)) div UINT32_MAX) * ucast to_hz \<le> UINT32_MAX"

definition z_tmcvt :: "clock_config \<Rightarrow> u64 \<Rightarrow> u32 \<Rightarrow> u32 \<Rightarrow> bool \<Rightarrow> bool \<Rightarrow> bool \<Rightarrow> bool \<Rightarrow> u64" where
  "z_tmcvt c t from_hz to_hz const_hz result32 round_up round_off =
     (let mul_ratio = const_hz \<and> to_hz > from_hz \<and> to_hz mod from_hz = 0;
          div_ratio = const_hz \<and> from_hz > to_hz \<and> from_hz mod to_hz = 0
      in if from_hz = to_hz then (if result32 then ucast (ucast t :: u32) else t)
         else
           let rdivisor = (if div_ratio then from_hz div to_hz else from_hz);
               off = (if mul_ratio then 0
                      else if round_off then ucast (rdivisor div 2)
                      else if round_up then ucast (rdivisor - 1)
                      else 0)
           in if div_ratio
              then let t = t + off in
                   if result32 \<and> t < push_bit 32 1
                   then ucast ((ucast t :: u32) div (from_hz div to_hz))
                   else t div (ucast from_hz div ucast to_hz)
              else if mul_ratio
              then (if result32 then ucast ((ucast t :: u32) * (to_hz div from_hz))
                    else t * (ucast to_hz div ucast from_hz))
              else if result32
              then ucast (ucast ((t * ucast to_hz + off) div ucast from_hz) :: u32)
              else if const_hz \<and> Z_TMCVT_USE_FAST_ALGO c from_hz to_hz
              then (t * ucast to_hz + off) div ucast from_hz
              else (t div ucast from_hz) * ucast to_hz +
                   ((t mod ucast from_hz) * ucast to_hz + off) div ucast from_hz)"

section \<open>The conversions\<close>

definition k_ms_to_cyc_floor32 :: "clock_config \<Rightarrow> u32 \<Rightarrow> u32" where
  "k_ms_to_cyc_floor32 c t = ucast (z_tmcvt c (ucast t) Z_HZ_ms (Z_HZ_cyc c) (Z_CCYC c) True False False)"

definition k_ms_to_cyc_floor64 :: "clock_config \<Rightarrow> u64 \<Rightarrow> u64" where
  "k_ms_to_cyc_floor64 c t = z_tmcvt c t Z_HZ_ms (Z_HZ_cyc c) (Z_CCYC c) False False False"

definition k_ms_to_cyc_near32 :: "clock_config \<Rightarrow> u32 \<Rightarrow> u32" where
  "k_ms_to_cyc_near32 c t = ucast (z_tmcvt c (ucast t) Z_HZ_ms (Z_HZ_cyc c) (Z_CCYC c) True False True)"

definition k_ms_to_cyc_near64 :: "clock_config \<Rightarrow> u64 \<Rightarrow> u64" where
  "k_ms_to_cyc_near64 c t = z_tmcvt c t Z_HZ_ms (Z_HZ_cyc c) (Z_CCYC c) False False True"

definition k_ms_to_cyc_ceil32 :: "clock_config \<Rightarrow> u32 \<Rightarrow> u32" where
  "k_ms_to_cyc_ceil32 c t = ucast (z_tmcvt c (ucast t) Z_HZ_ms (Z_HZ_cyc c) (Z_CCYC c) True True False)"

definition k_ms_to_cyc_ceil64 :: "clock_config \<Rightarrow> u64 \<Rightarrow> u64" where
  "k_ms_to_cyc_ceil64 c t = z_tmcvt c t Z_HZ_ms (Z_HZ_cyc c) (Z_CCYC c) False True False"

definition k_ms_to_ticks_floor32 :: "clock_config \<Rightarrow> u32 \<Rightarrow> u32" where
  "k_ms_to_ticks_floor32 c t = ucast (z_tmcvt c (ucast t) Z_HZ_ms (Z_HZ_ticks c) True True False False)"

definition k_ms_to_ticks_floor64 :: "clock_config \<Rightarrow> u64 \<Rightarrow> u64" where
  "k_ms_to_ticks_floor64 c t = z_tmcvt c t Z_HZ_ms (Z_HZ_ticks c) True False False False"

definition k_ms_to_ticks_near32 :: "clock_config \<Rightarrow> u32 \<Rightarrow> u32" where
  "k_ms_to_ticks_near32 c t = ucast (z_tmcvt c (ucast t) Z_HZ_ms (Z_HZ_ticks c) True True False True)"

definition k_ms_to_ticks_near64 :: "clock_config \<Rightarrow> u64 \<Rightarrow> u64" where
  "k_ms_to_ticks_near64 c t = z_tmcvt c t Z_HZ_ms (Z_HZ_ticks c) True False False True"

definition k_ms_to_ticks_ceil32 :: "clock_config \<Rightarrow> u32 \<Rightarrow> u32" where
  "k_ms_to_ticks_ceil32 c t = ucast (z_tmcvt c (ucast t) Z_HZ_ms (Z_HZ_ticks c) True True True False)"

definition k_ms_to_ticks_ceil64 :: "clock_config \<Rightarrow> u64 \<Rightarrow> u64" where
  "k_ms_to_ticks_ceil64 c t = z_tmcvt c t Z_HZ_ms (Z_HZ_ticks c) True False True False"

definition k_us_to_cyc_floor32 :: "clock_config \<Rightarrow> u32 \<Rightarrow> u32" where
  "k_us_to_cyc_floor32 c t = ucast (z_tmcvt c (ucast t) Z_HZ_us (Z_HZ_cyc c) (Z_CCYC c) True False False)"

definition k_us_to_cyc_floor64 :: "clock_config \<Rightarrow> u64 \<Rightarrow> u64" where
  "k_us_to_cyc_floor64 c t = z_tmcvt c t Z_HZ_us (Z_HZ_cyc c) (Z_CCYC c) False False False"

definition k_us_to_cyc_near32 :: "clock_config \<Rightarrow> u32 \<Rightarrow> u32" where
  "k_us_to_cyc_near32 c t = ucast (z_tmcvt c (ucast t) Z_HZ_us (Z_HZ_cyc c) (Z_CCYC c) True False True)"

definition k_us_to_cyc_near64 :: "clock_config \<Rightarrow> u64 \<Rightarrow> u64" where
  "k_us_to_cyc_near64 c t = z_tmcvt c t Z_HZ_us (Z_HZ_cyc c) (Z_CCYC c) False False True"

definition k_us_to_cyc_ceil32 :: "clock_config \<Rightarrow> u32 \<Rightarrow> u32" where
  "k_us_to_cyc_ceil32 c t = ucast (z_tmcvt c (ucast t) Z_HZ_us (Z_HZ_cyc c) (Z_CCYC c) True True False)"

definition k_us_to_cyc_ceil64 :: "clock_config \<Rightarrow> u64 \<Rightarrow> u64" where
  "k_us_to_cyc_ceil64 c t = z_tmcvt c t Z_HZ_us (Z_HZ_cyc c) (Z_CCYC c) False True False"

definition k_us_to_ticks_floor32 :: "clock_config \<Rightarrow> u32 \<Rightarrow> u32" where
  "k_us_to_ticks_floor32 c t = ucast (z_tmcvt c (ucast t) Z_HZ_us (Z_HZ_ticks c) True True False False)"

definition k_us_to_ticks_floor64 :: "clock_config \<Rightarrow> u64 \<Rightarrow> u64" where
  "k_us_to_ticks_floor64 c t = z_tmcvt c t Z_HZ_us (Z_HZ_ticks c) True False False False"

definition k_us_to_ticks_near32 :: "clock_config \<Rightarrow> u32 \<Rightarrow> u32" where
  "k_us_to_ticks_near32 c t = ucast (z_tmcvt c (ucast t) Z_HZ_us (Z_HZ_ticks c) True True False True)"

definition k_us_to_ticks_near64 :: "clock_config \<Rightarrow> u64 \<Rightarrow> u64" where
  "k_us_to_ticks_near64 c t = z_tmcvt c t Z_HZ_us (Z_HZ_ticks c) True False False True"

definition k_us_to_ticks_ceil32 :: "clock_config \<Rightarrow> u32 \<Rightarrow> u32" where
  "k_us_to_ticks_ceil32 c t = ucast (z_tmcvt c (ucast t) Z_HZ_us (Z_HZ_ticks c) True True True False)"

definition k_us_to_ticks_ceil64 :: "clock_config \<Rightarrow> u64 \<Rightarrow> u64" where
  "k_us_to_ticks_ceil64 c t = z_tmcvt c t Z_HZ_us (Z_HZ_ticks c) True False True False"

definition k_ns_to_cyc_floor32 :: "clock_config \<Rightarrow> u32 \<Rightarrow> u32" where
  "k_ns_to_cyc_floor32 c t = ucast (z_tmcvt c (ucast t) Z_HZ_ns (Z_HZ_cyc c) (Z_CCYC c) True False False)"

definition k_ns_to_cyc_floor64 :: "clock_config \<Rightarrow> u64 \<Rightarrow> u64" where
  "k_ns_to_cyc_floor64 c t = z_tmcvt c t Z_HZ_ns (Z_HZ_cyc c) (Z_CCYC c) False False False"

definition k_ns_to_cyc_near32 :: "clock_config \<Rightarrow> u32 \<Rightarrow> u32" where
  "k_ns_to_cyc_near32 c t = ucast (z_tmcvt c (ucast t) Z_HZ_ns (Z_HZ_cyc c) (Z_CCYC c) True False True)"

definition k_ns_to_cyc_near64 :: "clock_config \<Rightarrow> u64 \<Rightarrow> u64" where
  "k_ns_to_cyc_near64 c t = z_tmcvt c t Z_HZ_ns (Z_HZ_cyc c) (Z_CCYC c) False False True"

definition k_ns_to_cyc_ceil32 :: "clock_config \<Rightarrow> u32 \<Rightarrow> u32" where
  "k_ns_to_cyc_ceil32 c t = ucast (z_tmcvt c (ucast t) Z_HZ_ns (Z_HZ_cyc c) (Z_CCYC c) True True False)"

definition k_ns_to_cyc_ceil64 :: "clock_config \<Rightarrow> u64 \<Rightarrow> u64" where
  "k_ns_to_cyc_ceil64 c t = z_tmcvt c t Z_HZ_ns (Z_HZ_cyc c) (Z_CCYC c) False True False"

definition k_ns_to_ticks_floor32 :: "clock_config \<Rightarrow> u32 \<Rightarrow> u32" where
  "k_ns_to_ticks_floor32 c t = ucast (z_tmcvt c (ucast t) Z_HZ_ns (Z_HZ_ticks c) True True False False)"

definition k_ns_to_ticks_floor64 :: "clock_config \<Rightarrow> u64 \<Rightarrow> u64" where
  "k_ns_to_ticks_floor64 c t = z_tmcvt c t Z_HZ_ns (Z_HZ_ticks c) True False False False"

definition k_ns_to_ticks_near32 :: "clock_config \<Rightarrow> u32 \<Rightarrow> u32" where
  "k_ns_to_ticks_near32 c t = ucast (z_tmcvt c (ucast t) Z_HZ_ns (Z_HZ_ticks c) True True False True)"

definition k_ns_to_ticks_near64 :: "clock_config \<Rightarrow> u64 \<Rightarrow> u64" where
  "k_ns_to_ticks_near64 c t = z_tmcvt c t Z_HZ_ns (Z_HZ_ticks c) True False False True"

definition k_ns_to_ticks_ceil32 :: "clock_config \<Rightarrow> u32 \<Rightarrow> u32" where
  "k_ns_to_ticks_ceil32 c t = ucast (z_tmcvt c (ucast t) Z_HZ_ns (Z_HZ_ticks c) True True True False)"

definition k_ns_to_ticks_ceil64 :: "clock_config \<Rightarrow> u64 \<Rightarrow> u64" where
  "k_ns_to_ticks_ceil64 c t = z_tmcvt c t Z_HZ_ns (Z_HZ_ticks c) True False True False"

definition k_cyc_to_ms_floor32 :: "clock_config \<Rightarrow> u32 \<Rightarrow> u32" where
  "k_cyc_to_ms_floor32 c t = ucast (z_tmcvt c (ucast t) (Z_HZ_cyc c) Z_HZ_ms (Z_CCYC c) True False False)"

definition k_cyc_to_ms_floor64 :: "clock_config \<Rightarrow> u64 \<Rightarrow> u64" where
  "k_cyc_to_ms_floor64 c t = z_tmcvt c t (Z_HZ_cyc c) Z_HZ_ms (Z_CCYC c) False False False"

definition k_cyc_to_ms_near32 :: "clock_config \<Rightarrow> u32 \<Rightarrow> u32" where
  "k_cyc_to_ms_near32 c t = ucast (z_tmcvt c (ucast t) (Z_HZ_cyc c) Z_HZ_ms (Z_CCYC c) True False True)"

definition k_cyc_to_ms_near64 :: "clock_config \<Rightarrow> u64 \<Rightarrow> u64" where
  "k_cyc_to_ms_near64 c t = z_tmcvt c t (Z_HZ_cyc c) Z_HZ_ms (Z_CCYC c) False False True"

definition k_cyc_to_ms_ceil32 :: "clock_config \<Rightarrow> u32 \<Rightarrow> u32" where
  "k_cyc_to_ms_ceil32 c t = ucast (z_tmcvt c (ucast t) (Z_HZ_cyc c) Z_HZ_ms (Z_CCYC c) True True False)"

definition k_cyc_to_ms_ceil64 :: "clock_config \<Rightarrow> u64 \<Rightarrow> u64" where
  "k_cyc_to_ms_ceil64 c t = z_tmcvt c t (Z_HZ_cyc c) Z_HZ_ms (Z_CCYC c) False True False"

definition k_cyc_to_us_floor32 :: "clock_config \<Rightarrow> u32 \<Rightarrow> u32" where
  "k_cyc_to_us_floor32 c t = ucast (z_tmcvt c (ucast t) (Z_HZ_cyc c) Z_HZ_us (Z_CCYC c) True False False)"

definition k_cyc_to_us_floor64 :: "clock_config \<Rightarrow> u64 \<Rightarrow> u64" where
  "k_cyc_to_us_floor64 c t = z_tmcvt c t (Z_HZ_cyc c) Z_HZ_us (Z_CCYC c) False False False"

definition k_cyc_to_us_near32 :: "clock_config \<Rightarrow> u32 \<Rightarrow> u32" where
  "k_cyc_to_us_near32 c t = ucast (z_tmcvt c (ucast t) (Z_HZ_cyc c) Z_HZ_us (Z_CCYC c) True False True)"

definition k_cyc_to_us_near64 :: "clock_config \<Rightarrow> u64 \<Rightarrow> u64" where
  "k_cyc_to_us_near64 c t = z_tmcvt c t (Z_HZ_cyc c) Z_HZ_us (Z_CCYC c) False False True"

definition k_cyc_to_us_ceil32 :: "clock_config \<Rightarrow> u32 \<Rightarrow> u32" where
  "k_cyc_to_us_ceil32 c t = ucast (z_tmcvt c (ucast t) (Z_HZ_cyc c) Z_HZ_us (Z_CCYC c) True True False)"

definition k_cyc_to_us_ceil64 :: "clock_config \<Rightarrow> u64 \<Rightarrow> u64" where
  "k_cyc_to_us_ceil64 c t = z_tmcvt c t (Z_HZ_cyc c) Z_HZ_us (Z_CCYC c) False True False"

definition k_cyc_to_ns_floor32 :: "clock_config \<Rightarrow> u32 \<Rightarrow> u32" where
  "k_cyc_to_ns_floor32 c t = ucast (z_tmcvt c (ucast t) (Z_HZ_cyc c) Z_HZ_ns (Z_CCYC c) True False False)"

definition k_cyc_to_ns_floor64 :: "clock_config \<Rightarrow> u64 \<Rightarrow> u64" where
  "k_cyc_to_ns_floor64 c t = z_tmcvt c t (Z_HZ_cyc c) Z_HZ_ns (Z_CCYC c) False False False"

definition k_cyc_to_ns_near32 :: "clock_config \<Rightarrow> u32 \<Rightarrow> u32" where
  "k_cyc_to_ns_near32 c t = ucast (z_tmcvt c (ucast t) (Z_HZ_cyc c) Z_HZ_ns (Z_CCYC c) True False True)"

definition k_cyc_to_ns_near64 :: "clock_config \<Rightarrow> u64 \<Rightarrow> u64" where
  "k_cyc_to_ns_near64 c t = z_tmcvt c t (Z_HZ_cyc c) Z_HZ_ns (Z_CCYC c) False False True"

definition k_cyc_to_ns_ceil32 :: "clock_config \<Rightarrow> u32 \<Rightarrow> u32" where
  "k_cyc_to_ns_ceil32 c t = ucast (z_tmcvt c (ucast t) (Z_HZ_cyc c) Z_HZ_ns (Z_CCYC c) True True False)"

definition k_cyc_to_ns_ceil64 :: "clock_config \<Rightarrow> u64 \<Rightarrow> u64" where
  "k_cyc_to_ns_ceil64 c t = z_tmcvt c t (Z_HZ_cyc c) Z_HZ_ns (Z_CCYC c) False True False"

definition k_cyc_to_ticks_floor32 :: "clock_config \<Rightarrow> u32 \<Rightarrow> u32" where
  "k_cyc_to_ticks_floor32 c t = ucast (z_tmcvt c (ucast t) (Z_HZ_cyc c) (Z_HZ_ticks c) (Z_CCYC c) True False False)"

definition k_cyc_to_ticks_floor64 :: "clock_config \<Rightarrow> u64 \<Rightarrow> u64" where
  "k_cyc_to_ticks_floor64 c t = z_tmcvt c t (Z_HZ_cyc c) (Z_HZ_ticks c) (Z_CCYC c) False False False"

definition k_cyc_to_ticks_near32 :: "clock_config \<Rightarrow> u32 \<Rightarrow> u32" where
  "k_cyc_to_ticks_near32 c t = ucast (z_tmcvt c (ucast t) (Z_HZ_cyc c) (Z_HZ_ticks c) (Z_CCYC c) True False True)"

definition k_cyc_to_ticks_near64 :: "clock_config \<Rightarrow> u64 \<Rightarrow> u64" where
  "k_cyc_to_ticks_near64 c t = z_tmcvt c t (Z_HZ_cyc c) (Z_HZ_ticks c) (Z_CCYC c) False False True"

definition k_cyc_to_ticks_ceil32 :: "clock_config \<Rightarrow> u32 \<Rightarrow> u32" where
  "k_cyc_to_ticks_ceil32 c t = ucast (z_tmcvt c (ucast t) (Z_HZ_cyc c) (Z_HZ_ticks c) (Z_CCYC c) True True False)"

definition k_cyc_to_ticks_ceil64 :: "clock_config \<Rightarrow> u64 \<Rightarrow> u64" where
  "k_cyc_to_ticks_ceil64 c t = z_tmcvt c t (Z_HZ_cyc c) (Z_HZ_ticks c) (Z_CCYC c) False True False"

definition k_ticks_to_ms_floor32 :: "clock_config \<Rightarrow> u32 \<Rightarrow> u32" where
  "k_ticks_to_ms_floor32 c t = ucast (z_tmcvt c (ucast t) (Z_HZ_ticks c) Z_HZ_ms True True False False)"

definition k_ticks_to_ms_floor64 :: "clock_config \<Rightarrow> u64 \<Rightarrow> u64" where
  "k_ticks_to_ms_floor64 c t = z_tmcvt c t (Z_HZ_ticks c) Z_HZ_ms True False False False"

definition k_ticks_to_ms_near32 :: "clock_config \<Rightarrow> u32 \<Rightarrow> u32" where
  "k_ticks_to_ms_near32 c t = ucast (z_tmcvt c (ucast t) (Z_HZ_ticks c) Z_HZ_ms True True False True)"

definition k_ticks_to_ms_near64 :: "clock_config \<Rightarrow> u64 \<Rightarrow> u64" where
  "k_ticks_to_ms_near64 c t = z_tmcvt c t (Z_HZ_ticks c) Z_HZ_ms True False False True"

definition k_ticks_to_ms_ceil32 :: "clock_config \<Rightarrow> u32 \<Rightarrow> u32" where
  "k_ticks_to_ms_ceil32 c t = ucast (z_tmcvt c (ucast t) (Z_HZ_ticks c) Z_HZ_ms True True True False)"

definition k_ticks_to_ms_ceil64 :: "clock_config \<Rightarrow> u64 \<Rightarrow> u64" where
  "k_ticks_to_ms_ceil64 c t = z_tmcvt c t (Z_HZ_ticks c) Z_HZ_ms True False True False"

definition k_ticks_to_us_floor32 :: "clock_config \<Rightarrow> u32 \<Rightarrow> u32" where
  "k_ticks_to_us_floor32 c t = ucast (z_tmcvt c (ucast t) (Z_HZ_ticks c) Z_HZ_us True True False False)"

definition k_ticks_to_us_floor64 :: "clock_config \<Rightarrow> u64 \<Rightarrow> u64" where
  "k_ticks_to_us_floor64 c t = z_tmcvt c t (Z_HZ_ticks c) Z_HZ_us True False False False"

definition k_ticks_to_us_near32 :: "clock_config \<Rightarrow> u32 \<Rightarrow> u32" where
  "k_ticks_to_us_near32 c t = ucast (z_tmcvt c (ucast t) (Z_HZ_ticks c) Z_HZ_us True True False True)"

definition k_ticks_to_us_near64 :: "clock_config \<Rightarrow> u64 \<Rightarrow> u64" where
  "k_ticks_to_us_near64 c t = z_tmcvt c t (Z_HZ_ticks c) Z_HZ_us True False False True"

definition k_ticks_to_us_ceil32 :: "clock_config \<Rightarrow> u32 \<Rightarrow> u32" where
  "k_ticks_to_us_ceil32 c t = ucast (z_tmcvt c (ucast t) (Z_HZ_ticks c) Z_HZ_us True True True False)"

definition k_ticks_to_us_ceil64 :: "clock_config \<Rightarrow> u64 \<Rightarrow> u64" where
  "k_ticks_to_us_ceil64 c t = z_tmcvt c t (Z_HZ_ticks c) Z_HZ_us True False True False"

definition k_ticks_to_ns_floor32 :: "clock_config \<Rightarrow> u32 \<Rightarrow> u32" where
  "k_ticks_to_ns_floor32 c t = ucast (z_tmcvt c (ucast t) (Z_HZ_ticks c) Z_HZ_ns True True False False)"

definition k_ticks_to_ns_floor64 :: "clock_config \<Rightarrow> u64 \<Rightarrow> u64" where
  "k_ticks_to_ns_floor64 c t = z_tmcvt c t (Z_HZ_ticks c) Z_HZ_ns True False False False"

definition k_ticks_to_ns_near32 :: "clock_config \<Rightarrow> u32 \<Rightarrow> u32" where
  "k_ticks_to_ns_near32 c t = ucast (z_tmcvt c (ucast t) (Z_HZ_ticks c) Z_HZ_ns True True False True)"

definition k_ticks_to_ns_near64 :: "clock_config \<Rightarrow> u64 \<Rightarrow> u64" where
  "k_ticks_to_ns_near64 c t = z_tmcvt c t (Z_HZ_ticks c) Z_HZ_ns True False False True"

definition k_ticks_to_ns_ceil32 :: "clock_config \<Rightarrow> u32 \<Rightarrow> u32" where
  "k_ticks_to_ns_ceil32 c t = ucast (z_tmcvt c (ucast t) (Z_HZ_ticks c) Z_HZ_ns True True True False)"

definition k_ticks_to_ns_ceil64 :: "clock_config \<Rightarrow> u64 \<Rightarrow> u64" where
  "k_ticks_to_ns_ceil64 c t = z_tmcvt c t (Z_HZ_ticks c) Z_HZ_ns True False True False"

definition k_ticks_to_cyc_floor32 :: "clock_config \<Rightarrow> u32 \<Rightarrow> u32" where
  "k_ticks_to_cyc_floor32 c t = ucast (z_tmcvt c (ucast t) (Z_HZ_ticks c) (Z_HZ_cyc c) (Z_CCYC c) True False False)"

definition k_ticks_to_cyc_floor64 :: "clock_config \<Rightarrow> u64 \<Rightarrow> u64" where
  "k_ticks_to_cyc_floor64 c t = z_tmcvt c t (Z_HZ_ticks c) (Z_HZ_cyc c) (Z_CCYC c) False False False"

definition k_ticks_to_cyc_near32 :: "clock_config \<Rightarrow> u32 \<Rightarrow> u32" where
  "k_ticks_to_cyc_near32 c t = ucast (z_tmcvt c (ucast t) (Z_HZ_ticks c) (Z_HZ_cyc c) (Z_CCYC c) True False True)"

definition k_ticks_to_cyc_near64 :: "clock_config \<Rightarrow> u64 \<Rightarrow> u64" where
  "k_ticks_to_cyc_near64 c t = z_tmcvt c t (Z_HZ_ticks c) (Z_HZ_cyc c) (Z_CCYC c) False False True"

definition k_ticks_to_cyc_ceil32 :: "clock_config \<Rightarrow> u32 \<Rightarrow> u32" where
  "k_ticks_to_cyc_ceil32 c t = ucast (z_tmcvt c (ucast t) (Z_HZ_ticks c) (Z_HZ_cyc c) (Z_CCYC c) True True False)"

definition k_ticks_to_cyc_ceil64 :: "clock_config \<Rightarrow> u64 \<Rightarrow> u64" where
  "k_ticks_to_cyc_ceil64 c t = z_tmcvt c t (Z_HZ_ticks c) (Z_HZ_cyc c) (Z_CCYC c) False True False"

section \<open>Exactness\<close>

text \<open>The conversion over the natural numbers: round down, up, or to the nearest.\<close>

definition cvt_spec :: "nat \<Rightarrow> nat \<Rightarrow> nat \<Rightarrow> bool \<Rightarrow> bool \<Rightarrow> nat" where
  "cvt_spec t f g round_up round_off =
     (t * g + (if round_off then f div 2 else if round_up then f - 1 else 0)) div f"

lemma cvt_div_ratio:
  assumes "0 < q" "0 < g"
  shows "(t + (if near then q div 2 else if up then q - 1 else 0)) div q = cvt_spec t (q * g) g up near"
proof -
  have shift: "(a * g + r) div (q * g) = a div q" if "r < g" for a r
    using that assms by (simp add: div_mult2_eq mult.commute [of q g])
  have near: "\<exists>r < g. t * g + q * g div 2 = (t + q div 2) * g + r"
  proof (cases "even q")
    case True
    then obtain m where "q = 2 * m" by (rule evenE)
    with assms show ?thesis by (intro exI [of _ 0]) (simp add: algebra_simps)
  next
    case False
    then obtain m where q: "q = 2 * m + 1" by (rule oddE)
    have "q * g = 2 * (m * g) + g" by (simp add: q algebra_simps)
    then have "q * g div 2 = m * g + g div 2" by simp
    with assms q show ?thesis by (intro exI [of _ "g div 2"]) (simp add: algebra_simps)
  qed
  have up: "t * g + (q * g - 1) = (t + (q - 1)) * g + (g - 1)"
    using assms by (cases q; cases g) (simp_all add: algebra_simps)
  have "(t * g + (q * g - 1)) div (q * g) = (t + (q - 1)) div q"
    unfolding up using assms by (intro shift) simp
  then show ?thesis
    using shift [of 0 t] near shift assms by (auto simp: cvt_spec_def)
qed

lemma cvt_mul_ratio:
  assumes "0 < f"
  shows "t * q = cvt_spec t f (q * f) up near"
proof -
  have "(t * (q * f) + r) div f = t * q" if "r < f" for r
    using that assms by (simp add: mult.assoc [symmetric])
  then show ?thesis using assms by (auto simp: cvt_spec_def)
qed

lemma cvt_slow:
  assumes "0 < f"
  shows "t div f * g + (t mod f * g + r) div f = (t * g + r) div (f :: nat)"
proof -
  have "t * g + r = (t mod f * g + r) + (t div f * g) * f"
    by (metis add.assoc add.commute add_mult_distrib mod_mult_div_eq mult.assoc mult.commute)
  then have "(t * g + r) div f = ((t mod f * g + r) + (t div f * g) * f) div f"
    by (rule arg_cong [of _ _ "\<lambda>x. x div f"])
  also have "\<dots> = t div f * g + (t mod f * g + r) div f" using assms by (simp only: div_mult_self1)
  finally show ?thesis by simp
qed

lemma unat_lt: "unat (x :: 'a::len word) < 2 ^ LENGTH('a)"
  by (rule unsigned_less)

lemma unat_ucast64 [simp]: "unat (ucast (x :: u32) :: u64) = unat x"
  by (simp add: unsigned_ucast_eq take_bit_nat_eq_self less_trans [OF unsigned_less])


text \<open>
  When the fast formula is chosen, no timeout within the configured range
  overflows its 64-bit product.
\<close>

lemma fast_no_overflow:
  assumes "Z_TMCVT_USE_FAST_ALGO c f g" "unat t \<le> unat (MAX_TIMEOUT_DAYS c) * 86400 * unat f"
    "unat (MAX_TIMEOUT_DAYS c) * 86400 * unat f + 2 ^ 32 \<le> 2 ^ 64" "0 < f"
  shows "unat t * unat g + unat f \<le> 2 ^ 64"
proof -
  define D where "D = unat (MAX_TIMEOUT_DAYS c) * 86400 * unat f"
  let ?M = "4294967295 :: nat"
  let ?w = "MAX_TIMEOUT_DAYS c * 24 * 3600 * ucast f :: u64"
  have small: "D + 2 ^ 32 \<le> 2 ^ 64" and t_le: "unat t \<le> D" using assms(2,3) by (simp_all only: D_def)
  have f: "0 < unat f" "unat f < 2 ^ 32" "unat g < 2 ^ 32" using assms(4) unat_lt [of f] unat_lt [of g]
    by (auto simp: word_less_nat_alt)
  have "unat ?w = D mod 2 ^ 64"
    unfolding D_def by (simp add: unat_word_ariths mod_simps mult.assoc)
  then have w: "unat ?w = D" using small by simp
  have "unat (?w + (UINT32_MAX - 1)) = (D + (?M - 1)) mod 2 ^ 64"
    unfolding unat_word_ariths(1) w by (simp add: UINT32_MAX_def)
  also have "\<dots> = D + (?M - 1)" using small by simp
  finally have "unat (?w + (UINT32_MAX - 1)) = D + (?M - 1)" .
  then have q: "unat ((?w + (UINT32_MAX - 1)) div UINT32_MAX) = (D + (?M - 1)) div ?M"
    by (simp add: unat_div UINT32_MAX_def)
  let ?Q = "(D + (?M - 1)) div ?M"
  have "D + (?M - 1) = ?Q * ?M + (D + (?M - 1)) mod ?M" by (simp only: div_mult_mod_eq)
  moreover have "(D + (?M - 1)) mod ?M < ?M" by simp
  ultimately have up: "D \<le> ?Q * ?M" by linarith
  have "?Q \<le> (2 ^ 64 - 1) div ?M" using small by (intro div_le_mono) simp
  then have "?Q \<le> 2 ^ 32 + 1" by simp
  then have "?Q * unat g \<le> (2 ^ 32 + 1) * (2 ^ 32 - 1)" using f by (intro mult_mono) auto
  then have "?Q * unat g < 2 ^ 64" by simp
  then have "unat ((?w + (UINT32_MAX - 1)) div UINT32_MAX * ucast g) = ?Q * unat g"
    unfolding unat_word_ariths(2) q by simp
  with assms(1) have "?Q * unat g \<le> ?M"
    unfolding Z_TMCVT_USE_FAST_ALGO_def word_le_nat_alt by (simp add: UINT32_MAX_def)
  then have "?Q * unat g * ?M \<le> ?M * ?M" by (rule mult_le_mono1)
  moreover have "unat t * unat g \<le> ?Q * ?M * unat g" using t_le up by (intro mult_le_mono1) linarith
  moreover have "?Q * ?M * unat g = ?Q * unat g * ?M" by (simp only: ac_simps)
  ultimately have "unat t * unat g \<le> ?M * ?M" by linarith
  with f(2) show ?thesis by simp
qed


definition round_by :: "bool \<Rightarrow> bool \<Rightarrow> u32 \<Rightarrow> u64" where
  "round_by up near d = (if near then ucast (d div 2) else if up then ucast (d - 1) else 0)"

lemma unat_round_by:
  assumes "d \<noteq> 0"
  shows "unat (round_by up near d) = (if near then unat d div 2 else if up then unat d - 1 else 0)"
  using assms by (simp add: round_by_def unat_div unat_minus_one)

lemma tmcvt_div:
  assumes "0 < g" "f \<noteq> g" "const_hz \<and> f > g \<and> f mod g = 0" "unat t + 2 ^ 32 \<le> 2 ^ 64"
  shows "unat (z_tmcvt c t f g const_hz False up near) = cvt_spec (unat t) (unat f) (unat g) up near"
proof -
  define q where "q = f div g"
  have g: "0 < unat g" using assms(1) by (simp add: word_less_nat_alt)
  have uq: "unat q = unat f div unat g" by (simp add: q_def unat_div)
  have "unat f mod unat g = 0" using assms(3) by (metis unat_mod unat_eq_zero)
  then have f: "unat f = unat q * unat g" unfolding uq by (metis add.right_neutral div_mult_mod_eq)
  have "unat q \<noteq> 0" using f assms(3) by (metis mult_zero_left not_less_zero word_less_nat_alt)
  then have q0: "q \<noteq> 0" "0 < unat q" by auto
  have off: "unat (round_by up near q) \<le> 2 ^ 32 - 1"
    using unat_round_by [OF q0(1), of up near] unat_lt [of q] by auto
  have no_mul: "\<not> f < g" using assms(3) by auto
  have "z_tmcvt c t f g const_hz False up near = (t + round_by up near q) div (ucast f div ucast g)"
    using assms(2,3) no_mul by (simp add: z_tmcvt_def Let_def round_by_def q_def)
  moreover have "unat (t + round_by up near q) = unat t + unat (round_by up near q)"
    using off assms(4) by (intro unat_add_lem [THEN iffD1]) simp
  ultimately have "unat (z_tmcvt c t f g const_hz False up near) = (unat t + unat (round_by up near q)) div unat q"
    by (simp add: unat_div uq)
  also have "\<dots> = cvt_spec (unat t) (unat q * unat g) (unat g) up near"
    using cvt_div_ratio [OF q0(2) g, of "unat t" near up] by (simp only: unat_round_by [OF q0(1)])
  finally show ?thesis by (simp only: f)
qed

lemma tmcvt_mul:
  assumes "0 < f" "f \<noteq> g" "const_hz \<and> g > f \<and> g mod f = 0" "cvt_spec (unat t) (unat f) (unat g) up near < 2 ^ 64"
  shows "unat (z_tmcvt c t f g const_hz False up near) = cvt_spec (unat t) (unat f) (unat g) up near"
proof -
  have f: "0 < unat f" using assms(1) by (simp add: word_less_nat_alt)
  have "unat g mod unat f = 0" using assms(3) by (metis unat_mod unat_eq_zero)
  then have g: "unat g = unat g div unat f * unat f" by (metis add.right_neutral div_mult_mod_eq)
  have s: "cvt_spec (unat t) (unat f) (unat g) up near = unat t * (unat g div unat f)"
    using cvt_mul_ratio [OF f, of "unat t" "unat g div unat f" up near] g by metis
  have "\<not> g < f" using assms(3) by auto
  then have "z_tmcvt c t f g const_hz False up near = t * (ucast g div ucast f)"
    using assms(2,3) by (simp add: z_tmcvt_def Let_def)
  then have "unat (z_tmcvt c t f g const_hz False up near) = unat t * (unat g div unat f) mod 2 ^ 64"
    by (simp add: unat_word_ariths(2) unat_div)
  with s assms(4) show ?thesis by simp
qed

lemma tmcvt_gen:
  assumes "0 < f" "f \<noteq> g" "\<not> (const_hz \<and> f > g \<and> f mod g = 0)" "\<not> (const_hz \<and> g > f \<and> g mod f = 0)"
    and "unat t \<le> unat (MAX_TIMEOUT_DAYS c) * 86400 * unat f"
    and "unat (MAX_TIMEOUT_DAYS c) * 86400 * unat f + 2 ^ 32 \<le> 2 ^ 64"
    and "cvt_spec (unat t) (unat f) (unat g) up near < 2 ^ 64"
  shows "unat (z_tmcvt c t f g const_hz False up near) = cvt_spec (unat t) (unat f) (unat g) up near"
proof -
  let ?off = "round_by up near f"
  have f: "0 < unat f" "f \<noteq> 0" using assms(1) by (auto simp: word_less_nat_alt)
  have lt: "unat f < 2 ^ 32" "unat g < 2 ^ 32" using unat_lt [of f] unat_lt [of g] by auto
  have off: "unat ?off < unat f" using f unat_round_by [OF f(2), of up near] by auto
  have spec: "cvt_spec (unat t) (unat f) (unat g) up near = (unat t * unat g + unat ?off) div unat f"
    by (simp only: cvt_spec_def unat_round_by [OF f(2)])
  have eq: "z_tmcvt c t f g const_hz False up near =
     (if const_hz \<and> Z_TMCVT_USE_FAST_ALGO c f g then (t * ucast g + ?off) div ucast f
      else (t div ucast f) * ucast g + ((t mod ucast f) * ucast g + ?off) div ucast f)"
    using assms(2-4) by (auto simp: z_tmcvt_def Let_def round_by_def)
  show ?thesis
  proof (cases "const_hz \<and> Z_TMCVT_USE_FAST_ALGO c f g")
    case True
    then have "unat t * unat g + unat f \<le> 2 ^ 64" using fast_no_overflow [OF _ assms(5,6,1)] by blast
    then have small: "unat t * unat g + unat ?off < 2 ^ 64" using off by linarith
    then have "unat (t * ucast g) = unat t * unat g" by (simp add: unat_word_ariths(2))
    then have "unat (t * ucast g + ?off) = unat t * unat g + unat ?off"
      using small by (simp add: unat_word_ariths(1))
    then show ?thesis unfolding eq if_P [OF True] spec by (simp add: unat_div)
  next
    case False
    let ?a = "unat t div unat f * unat g" and ?b = "unat t mod unat f * unat g + unat ?off"
    have sum: "?a + ?b div unat f = cvt_spec (unat t) (unat f) (unat g) up near"
      unfolding spec by (rule cvt_slow [OF f(1)])
    have "unat t mod unat f \<le> 2 ^ 32 - 2" using mod_less_divisor [OF f(1), of "unat t"] lt(1) by linarith
    then have "unat t mod unat f * unat g \<le> (2 ^ 32 - 2) * (2 ^ 32 - 1)" using lt(2) by (intro mult_mono) auto
    then have b: "?b < 2 ^ 64" using off lt(1) by simp
    have a: "?a < 2 ^ 64" using sum assms(7) by linarith
    have ua: "unat (t div ucast f * ucast g) = ?a"
      using a by (simp add: unat_word_ariths(2) unat_div)
    have "unat (t mod ucast f * ucast g) = unat t mod unat f * unat g"
      using b by (simp add: unat_word_ariths(2) unat_mod)
    then have "unat (t mod ucast f * ucast g + ?off) = ?b" using b by (simp add: unat_word_ariths(1))
    then have ub: "unat ((t mod ucast f * ucast g + ?off) div ucast f) = ?b div unat f" by (simp add: unat_div)
    have "unat (t div ucast f * ucast g + (t mod ucast f * ucast g + ?off) div ucast f) = (?a + ?b div unat f) mod 2 ^ 64"
      unfolding unat_word_ariths(1) ua ub by simp
    also have "\<dots> = ?a + ?b div unat f" unfolding sum using assms(7) by simp
    finally show ?thesis unfolding eq if_not_P [OF False] sum .
  qed
qed

lemma tmcvt_exact:
  assumes "0 < from_hz" "0 < to_hz" "unat t \<le> unat (MAX_TIMEOUT_DAYS c) * 86400 * unat from_hz"
    "unat (MAX_TIMEOUT_DAYS c) * 86400 * unat from_hz + 2 ^ 32 \<le> 2 ^ 64"
    "cvt_spec (unat t) (unat from_hz) (unat to_hz) up near < 2 ^ 64"
  shows "unat (z_tmcvt c t from_hz to_hz const_hz False up near) =
    cvt_spec (unat t) (unat from_hz) (unat to_hz) up near"
proof -
  let ?f = "unat from_hz" and ?g = "unat to_hz" and ?t = "unat t"
  have pos: "0 < ?f" using assms(1) by (simp add: word_less_nat_alt)
  note spec = assms(5)
  have t: "?t + 2 ^ 32 \<le> 2 ^ 64" using assms(3,4) by linarith
  have same: "unat (z_tmcvt c t from_hz to_hz const_hz False up near) = cvt_spec ?t ?f ?g up near"
    if "from_hz = to_hz"
    using that cvt_mul_ratio [OF pos, of ?t 1 up near] by (simp add: z_tmcvt_def)
  show ?thesis
  proof (cases "from_hz = to_hz")
    case False
    note ne = this
    show ?thesis
    proof (cases "const_hz \<and> from_hz > to_hz \<and> from_hz mod to_hz = 0")
      case True
      then show ?thesis by (rule tmcvt_div [OF assms(2) ne _ t])
    next
      case no_div: False
      show ?thesis
      proof (cases "const_hz \<and> to_hz > from_hz \<and> to_hz mod from_hz = 0")
        case True
        then show ?thesis by (rule tmcvt_mul [OF assms(1) ne _ spec])
      next
        case False
        then show ?thesis by (rule tmcvt_gen [OF assms(1) ne no_div _ assms(3,4) spec])
      qed
    qed
  qed (rule same)
qed

text \<open>
  C28. The 64-bit conversions between time units are exact: on machine words the
  chosen formula returns \<open>t * to_hz / from_hz\<close> rounded down, up, or to the nearest
  as asked, whenever that value fits in 64 bits and \<open>t\<close> is within the longest
  timeout the build is configured for. No intermediate product overflows.
\<close>

theorem z_tmcvt_exact:
  fixes from_hz to_hz :: u32 and t :: u64
  assumes "0 < from_hz" "0 < to_hz" "unat t \<le> unat (MAX_TIMEOUT_DAYS c) * 86400 * unat from_hz"
    "unat (MAX_TIMEOUT_DAYS c) * 86400 * unat from_hz + 2 ^ 32 \<le> 2 ^ 64"
    "(unat t * unat to_hz + (if near then unat from_hz div 2 else if up then unat from_hz - 1 else 0))
       div unat from_hz < 2 ^ 64"
  shows "unat (z_tmcvt c t from_hz to_hz const_hz False up near) =
    (unat t * unat to_hz + (if near then unat from_hz div 2 else if up then unat from_hz - 1 else 0))
       div unat from_hz"
  using tmcvt_exact [OF assms(1-4), of up near] assms(5) by (simp only: cvt_spec_def)

text \<open>A tick of 32768 Hz, a cycle counter of 12 MHz, the default range of a year.\<close>

definition rtc_config :: clock_config where
  "rtc_config = \<lparr>Z_HZ_ticks = 32768, Z_HZ_cyc = 12000000, Z_CCYC = True, MAX_TIMEOUT_DAYS = 365\<rparr>"

theorem z_tmcvt_exact_witness:
  "unat (z_tmcvt rtc_config 100 1000 32768 True False True False) = 3277"
  using z_tmcvt_exact [of 1000 32768 100 rtc_config False True True] by (simp add: rtc_config_def)

text \<open>
  C29. A timeout given in milliseconds is never cut short by the conversion: the
  ticks it is rounded up to last at least as many milliseconds.
\<close>

theorem ms_ticks_roundtrip:
  assumes "0 < Z_HZ_ticks c" "unat t \<le> unat (MAX_TIMEOUT_DAYS c) * 86400 * 1000"
    "unat (MAX_TIMEOUT_DAYS c) * 86400 * 1000 + 2 ^ 32 \<le> 2 ^ 64"
    "unat (MAX_TIMEOUT_DAYS c) * 86400 * unat (Z_HZ_ticks c) + 2 ^ 32 \<le> 2 ^ 64"
  shows "t \<le> k_ticks_to_ms_floor64 c (k_ms_to_ticks_ceil64 c t)"
proof -
  define D where "D = unat (MAX_TIMEOUT_DAYS c) * 86400"
  let ?h = "unat (Z_HZ_ticks c)" and ?n = "k_ms_to_ticks_ceil64 c t"
  note hyp = assms(2-4) [folded D_def]
  have h: "0 < ?h" using assms(1) by (simp add: word_less_nat_alt)
  let ?a = "(unat t * ?h + 999) div 1000"
  have "unat t * ?h + 999 \<le> (D * ?h) * 1000 + 999" using mult_le_mono1 [OF hyp(1), of ?h] by (simp add: ac_simps)
  then have "?a \<le> ((D * ?h) * 1000 + 999) div 1000" by (rule div_le_mono)
  then have a: "?a \<le> D * ?h" by simp
  have "x \<le> (x + 999) div 1000 * 1000" for x :: nat
    using div_mult_mod_eq [of "x + 999" 1000] mod_less_divisor [of 1000 "x + 999"] by linarith
  then have lo: "unat t * ?h \<le> ?a * 1000" .
  have ms: "unat Z_HZ_ms = 1000" "0 < Z_HZ_ms" by (simp_all add: Z_HZ_ms_def)
  have s1: "cvt_spec (unat t) 1000 ?h True False = ?a" by (simp add: cvt_spec_def)
  have "cvt_spec (unat t) 1000 ?h True False < 2 ^ 64" unfolding s1
    by (rule le_less_trans [OF a]) (use hyp(3) in simp)
  note tmcvt_exact [OF ms(2) assms(1), of t c True False True, unfolded ms(1), folded D_def, OF hyp(1,2) this, unfolded s1]
  then have n: "unat ?n = ?a" by (simp only: k_ms_to_ticks_ceil64_def)
  have "?a * 1000 div ?h \<le> (D * ?h) * 1000 div ?h" using a by (intro div_le_mono mult_le_mono1)
  also have "\<dots> = D * 1000" using h by (simp add: ac_simps)
  finally have b: "?a * 1000 div ?h < 2 ^ 64" by (rule le_less_trans) (use hyp(2) in simp)
  have s2: "cvt_spec ?a ?h 1000 False False = ?a * 1000 div ?h" by (simp add: cvt_spec_def)
  have "cvt_spec ?a ?h 1000 False False < 2 ^ 64" unfolding s2 by (rule b)
  note tmcvt_exact [OF assms(1) ms(2), of ?n c False False True, unfolded ms(1) n, folded D_def, OF a hyp(3) this, unfolded s2]
  then have "unat (k_ticks_to_ms_floor64 c ?n) = ?a * 1000 div ?h" by (simp only: k_ticks_to_ms_floor64_def)
  moreover have "unat t \<le> ?a * 1000 div ?h" using lo h by (simp add: less_eq_div_iff_mult_less_eq)
  ultimately show ?thesis by (simp add: word_le_nat_alt)
qed

theorem ms_ticks_roundtrip_witness:
  "100 \<le> k_ticks_to_ms_floor64 rtc_config (k_ms_to_ticks_ceil64 rtc_config 100)"
  using ms_ticks_roundtrip [of rtc_config 100] by (simp add: rtc_config_def)

end
