(* ===== verification/Sched.thy ===== *)
theory Sched
  imports Priq Time_Units
begin

text \<open>
  The scheduler of \<^verbatim>\<open>kernel/sched.c\<close>, with \<^verbatim>\<open>kernel/include/kswap.h\<close> and the thread
  creation of \<^verbatim>\<open>kernel/thread.c\<close>, on one CPU (no \<open>CONFIG_SMP\<close>), with the list queues,
  time slicing and events, and without meta-IRQ priorities, CPU masks, per-thread
  slices or \<open>CONFIG_SWAP_NONATOMIC\<close>. A \<open>LOCKED\<close> block masks interrupts for its extent,
  which nothing inside it observes; where a key outlives the block it is explicit.
\<close>

section \<open>Run queue\<close>

definition is_metairq :: "k_thread \<Rightarrow> bool" where
  "is_metairq th \<longleftrightarrow> False"

definition should_preempt :: "tid \<Rightarrow> bool \<Rightarrow> 'a kernel_scheme \<Rightarrow> bool" where
  "should_preempt thread preempt_ok k \<longleftrightarrow>
     (if preempt_ok then True
      else if z_is_thread_prevented_from_running (threads k (current_thread k)) then True
      else if is_preempt (threads k (current_thread k)) \<or> is_metairq (threads k thread) then True
      else False)"

text \<open>
  Linking a node that is in a queue already, or unlinking one that is not,
  corrupts the lists: both are recorded as a fault.
\<close>

definition runq_add :: "tid \<Rightarrow> 'a kernel_scheme \<Rightarrow> 'a kernel_scheme" where
  "runq_add thread k =
     k\<lparr>runq := z_priq_dumb_add (threads k) thread (runq k),
       fault := fault k \<or> thread \<in> set (runq k) \<or> pended_on (threads k thread) \<noteq> None\<rparr>"

definition runq_remove :: "tid \<Rightarrow> 'a kernel_scheme \<Rightarrow> 'a kernel_scheme" where
  "runq_remove thread k =
     k\<lparr>runq := z_priq_dumb_remove thread (runq k), fault := fault k \<or> thread \<notin> set (runq k)\<rparr>"

definition runq_best :: "'a kernel_scheme \<Rightarrow> tid option" where
  "runq_best k = z_priq_dumb_best (runq k)"

definition queue_thread :: "tid \<Rightarrow> 'a kernel_scheme \<Rightarrow> 'a kernel_scheme" where
  "queue_thread thread k = runq_add thread (upd_thread thread (z_set_thread_states THREAD_QUEUED) k)"

definition dequeue_thread :: "tid \<Rightarrow> 'a kernel_scheme \<Rightarrow> 'a kernel_scheme" where
  "dequeue_thread thread k = runq_remove thread (upd_thread thread (z_reset_thread_states THREAD_QUEUED) k)"

definition next_up :: "'a kernel_scheme \<Rightarrow> tid" where
  "next_up k = (case runq_best k of Some thread \<Rightarrow> thread | None \<Rightarrow> z_idle_thread)"

section \<open>Time slices\<close>

definition slice_time :: "tid \<Rightarrow> 'a kernel_scheme \<Rightarrow> int" where
  "slice_time thread k = slice_ticks k"

definition sliceable :: "tid \<Rightarrow> 'a kernel_scheme \<Rightarrow> bool" where
  "sliceable thread k \<longleftrightarrow>
     is_preempt (threads k thread) \<and> slice_time thread k \<noteq> 0 \<and>
     \<not> z_is_prio_higher (prio (threads k thread)) (slice_max_prio k) \<and>
     \<not> z_is_thread_prevented_from_running (threads k thread) \<and>
     \<not> z_is_idle_thread_object thread"

definition slice_timeout :: "'a kernel_scheme \<Rightarrow> 'a kernel_scheme" where
  "slice_timeout k = k\<lparr>slice_expired := True\<rparr>"

definition z_reset_time_slice :: "tid \<Rightarrow> 'a kernel_scheme \<Rightarrow> 'a kernel_scheme" where
  "z_reset_time_slice cur k =
     (let k1 = (snd (z_abort_timeout SliceTO k))\<lparr>slice_expired := False\<rparr> in
      if sliceable cur k1
      then z_add_timeout SliceTO Slice_timeout (slice_time cur k1 - 1) k1
      else k1)"

definition k_sched_time_slice_set :: "clock_config \<Rightarrow> int \<Rightarrow> int \<Rightarrow> 'a kernel_scheme \<Rightarrow> 'a kernel_scheme" where
  "k_sched_time_slice_set c slice_ms p k =
     z_reset_time_slice (current_thread k)
       (k\<lparr>slice_ticks := sint (k_ms_to_ticks_ceil32 c (word_of_int slice_ms)), slice_max_prio := p\<rparr>)"

section \<open>The next thread\<close>

definition update_cache :: "bool \<Rightarrow> 'a kernel_scheme \<Rightarrow> 'a kernel_scheme" where
  "update_cache preempt_ok k =
     (let thread = next_up k in
      if should_preempt thread preempt_ok k
      then (if thread \<noteq> current_thread k then z_reset_time_slice thread k else k)\<lparr>cache := thread\<rparr>
      else k\<lparr>cache := current_thread k\<rparr>)"

definition move_thread_to_end_of_prio_q :: "tid \<Rightarrow> 'a kernel_scheme \<Rightarrow> 'a kernel_scheme" where
  "move_thread_to_end_of_prio_q thread k =
     (let k1 = (if z_is_thread_queued (threads k thread) then dequeue_thread thread k else k);
          k2 = queue_thread thread k1
      in update_cache (thread = current_thread k2) k2)"

definition z_time_slice :: "'a kernel_scheme \<Rightarrow> 'a kernel_scheme" where
  "z_time_slice k =
     (let cur = current_thread k in
      if slice_expired k \<and> sliceable cur k
      then z_reset_time_slice cur
             (if \<not> z_is_thread_prevented_from_running (threads k cur)
              then move_thread_to_end_of_prio_q cur k else k)
      else k)"

definition ready_thread :: "tid \<Rightarrow> 'a kernel_scheme \<Rightarrow> 'a kernel_scheme" where
  "ready_thread thread k =
     (if \<not> z_is_thread_queued (threads k thread) \<and> z_is_thread_ready thread k
      then update_cache False (queue_thread thread k) else k)"

definition z_ready_thread :: "tid \<Rightarrow> 'a kernel_scheme \<Rightarrow> 'a kernel_scheme" where
  "z_ready_thread thread k = ready_thread thread k"

definition unready_thread :: "tid \<Rightarrow> 'a kernel_scheme \<Rightarrow> 'a kernel_scheme" where
  "unready_thread thread k =
     (let k1 = (if z_is_thread_queued (threads k thread) then dequeue_thread thread k else k)
      in update_cache (thread = current_thread k1) k1)"

section \<open>Context switch\<close>

definition z_swap_next_thread :: "'a kernel_scheme \<Rightarrow> tid" where
  "z_swap_next_thread k = cache k"

text \<open>
  \<open>do_swap\<close> leaves \<open>-EAGAIN\<close> as the return value of the thread it switches out, for
  a waker to overwrite. The interrupt mask after the switch is the one the new
  thread saved when it was switched out itself.
\<close>

definition do_swap :: "bool \<Rightarrow> 'a kernel_scheme \<Rightarrow> 'a kernel_scheme" where
  "do_swap key k =
     (let old_thread = current_thread k;
          k1 = upd_thread old_thread (\<lambda>th. th\<lparr>swap_retval := - EAGAIN\<rparr>) k;
          new_thread = z_swap_next_thread k1
      in if new_thread \<noteq> old_thread
         then let k2 = upd_thread old_thread (\<lambda>th. th\<lparr>swap_key := key\<rparr>) k1;
                  k3 = z_reset_time_slice new_thread (k2\<lparr>current_thread := new_thread\<rparr>)
              in k3\<lparr>irq_unlocked := swap_key (threads k3 new_thread)\<rparr>
         else k1\<lparr>irq_unlocked := key\<rparr>)"

definition z_swap_irqlock :: "bool \<Rightarrow> 'a kernel_scheme \<Rightarrow> 'a kernel_scheme" where
  "z_swap_irqlock key k = do_swap key k"

definition z_swap :: "bool \<Rightarrow> 'a kernel_scheme \<Rightarrow> 'a kernel_scheme" where
  "z_swap key k = do_swap key k"

text \<open>On return from an interrupt: the interrupted thread had interrupts enabled.\<close>

definition z_get_next_switch_handle :: "'a kernel_scheme \<Rightarrow> 'a kernel_scheme" where
  "z_get_next_switch_handle k =
     (let k1 = upd_thread (current_thread k) (\<lambda>th. th\<lparr>swap_key := True\<rparr>) k
      in k1\<lparr>current_thread := cache k1, irq_unlocked := swap_key (threads k1 (cache k1))\<rparr>)"

definition resched :: "bool \<Rightarrow> 'a kernel_scheme \<Rightarrow> bool" where
  "resched key k \<longleftrightarrow> key \<and> \<not> in_isr k"

definition need_swap :: "'a kernel_scheme \<Rightarrow> bool" where
  "need_swap k \<longleftrightarrow> cache k \<noteq> current_thread k"

definition z_reschedule :: "bool \<Rightarrow> 'a kernel_scheme \<Rightarrow> 'a kernel_scheme" where
  "z_reschedule key k =
     (if resched key k \<and> need_swap k then z_swap key k else k_spin_unlock key k)"

definition z_reschedule_irqlock :: "bool \<Rightarrow> 'a kernel_scheme \<Rightarrow> 'a kernel_scheme" where
  "z_reschedule_irqlock key k =
     (if resched key k then z_swap_irqlock key k else k\<lparr>irq_unlocked := key\<rparr>)"

definition z_reschedule_unlocked :: "'a kernel_scheme \<Rightarrow> 'a kernel_scheme" where
  "z_reschedule_unlocked k = (let (key, k1) = k_spin_lock k in z_reschedule_irqlock key k1)"

section \<open>Starting, suspending and resuming\<close>

definition z_sched_start :: "tid \<Rightarrow> 'a kernel_scheme \<Rightarrow> 'a kernel_scheme" where
  "z_sched_start thread k =
     (let (key, k1) = k_spin_lock k in
      if z_has_thread_started (threads k1 thread) then k_spin_unlock key k1
      else z_reschedule key (ready_thread thread (upd_thread thread z_mark_thread_as_started k1)))"

definition z_add_thread_timeout :: "tid \<Rightarrow> ticks \<Rightarrow> 'a kernel_scheme \<Rightarrow> 'a kernel_scheme" where
  "z_add_thread_timeout thread ticks k = z_add_timeout (ThreadTO thread) Z_thread_timeout ticks k"

definition z_abort_thread_timeout :: "tid \<Rightarrow> 'a kernel_scheme \<Rightarrow> int \<times> 'a kernel_scheme" where
  "z_abort_thread_timeout thread k = z_abort_timeout (ThreadTO thread) k"

definition k_thread_suspend :: "tid \<Rightarrow> 'a kernel_scheme \<Rightarrow> 'a kernel_scheme" where
  "k_thread_suspend thread k =
     (let k1 = snd (z_abort_thread_timeout thread k);
          k2 = (if z_is_thread_queued (threads k1 thread) then dequeue_thread thread k1 else k1);
          k3 = upd_thread thread z_mark_thread_as_suspended k2;
          k4 = update_cache (thread = current_thread k3) k3
      in if thread = current_thread k4 then z_reschedule_unlocked k4 else k4)"

definition k_thread_resume :: "tid \<Rightarrow> 'a kernel_scheme \<Rightarrow> 'a kernel_scheme" where
  "k_thread_resume thread k =
     (let (key, k1) = k_spin_lock k in
      if \<not> z_is_thread_suspended (threads k1 thread) then k_spin_unlock key k1
      else z_reschedule key (ready_thread thread (upd_thread thread z_mark_thread_as_not_suspended k1)))"

section \<open>Waiting\<close>

definition waitq_add :: "wq \<Rightarrow> tid \<Rightarrow> 'a kernel_scheme \<Rightarrow> 'a kernel_scheme" where
  "waitq_add q thread k =
     k\<lparr>waitqs := (waitqs k)(q := z_priq_dumb_add (threads k) thread (waitqs k q)),
       fault := fault k \<or> thread \<in> set (waitqs k q) \<or> thread \<in> set (runq k)\<rparr>"

definition waitq_remove :: "wq \<Rightarrow> tid \<Rightarrow> 'a kernel_scheme \<Rightarrow> 'a kernel_scheme" where
  "waitq_remove q thread k =
     k\<lparr>waitqs := (waitqs k)(q := z_priq_dumb_remove thread (waitqs k q)),
       fault := fault k \<or> thread \<notin> set (waitqs k q)\<rparr>"

definition z_waitq_head :: "wq \<Rightarrow> 'a kernel_scheme \<Rightarrow> tid option" where
  "z_waitq_head q k = z_priq_dumb_best (waitqs k q)"

definition add_to_waitq_locked :: "tid \<Rightarrow> wq option \<Rightarrow> 'a kernel_scheme \<Rightarrow> 'a kernel_scheme" where
  "add_to_waitq_locked thread wait_q k =
     (let k1 = upd_thread thread z_mark_thread_as_pending (unready_thread thread k)
      in case wait_q of
           None \<Rightarrow> k1
         | Some q \<Rightarrow> waitq_add q thread (upd_thread thread (\<lambda>th. th\<lparr>pended_on := Some q\<rparr>) k1))"

definition add_thread_timeout :: "tid \<Rightarrow> ticks \<Rightarrow> 'a kernel_scheme \<Rightarrow> 'a kernel_scheme" where
  "add_thread_timeout thread timeout k =
     (if timeout \<noteq> K_FOREVER then z_add_thread_timeout thread timeout k else k)"

definition pend_locked :: "tid \<Rightarrow> wq option \<Rightarrow> ticks \<Rightarrow> 'a kernel_scheme \<Rightarrow> 'a kernel_scheme" where
  "pend_locked thread wait_q timeout k =
     add_thread_timeout thread timeout (add_to_waitq_locked thread wait_q k)"

definition z_pend_thread :: "tid \<Rightarrow> wq option \<Rightarrow> ticks \<Rightarrow> 'a kernel_scheme \<Rightarrow> 'a kernel_scheme" where
  "z_pend_thread thread wait_q timeout k = pend_locked thread wait_q timeout k"

text \<open>
  The calls that pend the current thread return, when it runs again, the
  \<open>swap_retval\<close> it has by then.
\<close>

definition z_pend_curr :: "bool \<Rightarrow> wq option \<Rightarrow> ticks \<Rightarrow> 'a kernel_scheme \<Rightarrow> 'a kernel_scheme" where
  "z_pend_curr key wait_q timeout k =
     (let k1 = snd (k_spin_lock k) in z_swap key (pend_locked (current_thread k1) wait_q timeout k1))"

definition z_pend_curr_irqlock :: "bool \<Rightarrow> wq option \<Rightarrow> ticks \<Rightarrow> 'a kernel_scheme \<Rightarrow> 'a kernel_scheme" where
  "z_pend_curr_irqlock key wait_q timeout k =
     z_swap_irqlock key (pend_locked (current_thread k) wait_q timeout k)"

definition unpend_thread_no_timeout :: "tid \<Rightarrow> 'a kernel_scheme \<Rightarrow> 'a kernel_scheme" where
  "unpend_thread_no_timeout thread k =
     (case pended_on (threads k thread) of
        None \<Rightarrow> k\<lparr>fault := True\<rparr>
      | Some q \<Rightarrow>
          upd_thread thread (\<lambda>th. (z_mark_thread_as_not_pending th)\<lparr>pended_on := None\<rparr>)
            (waitq_remove q thread k))"

definition z_unpend_thread_no_timeout :: "tid \<Rightarrow> 'a kernel_scheme \<Rightarrow> 'a kernel_scheme" where
  "z_unpend_thread_no_timeout thread k =
     (if pended_on (threads k thread) \<noteq> None then unpend_thread_no_timeout thread k else k)"

definition z_sched_wake_thread :: "tid \<Rightarrow> bool \<Rightarrow> 'a kernel_scheme \<Rightarrow> 'a kernel_scheme" where
  "z_sched_wake_thread thread is_timeout k =
     (let th = threads k thread;
          killed = thread_state th AND THREAD_DEAD \<noteq> 0 \<or> thread_state th AND THREAD_ABORTING \<noteq> 0;
          do_nothing = no_wake_on_timeout th \<and> is_timeout;
          k1 = upd_thread thread (\<lambda>th. th\<lparr>no_wake_on_timeout := False\<rparr>) k
      in if do_nothing then k1
         else if \<not> killed
         then let k2 = (if pended_on (threads k1 thread) \<noteq> None then unpend_thread_no_timeout thread k1 else k1);
                  k3 = upd_thread thread z_mark_thread_as_started k2;
                  k4 = (if is_timeout then upd_thread thread z_mark_thread_as_not_suspended k3 else k3)
              in ready_thread thread k4
         else k1)"

definition z_thread_timeout :: "tid \<Rightarrow> 'a kernel_scheme \<Rightarrow> 'a kernel_scheme" where
  "z_thread_timeout thread k = z_sched_wake_thread thread True k"

definition z_unpend1_no_timeout :: "wq \<Rightarrow> 'a kernel_scheme \<Rightarrow> tid option \<times> 'a kernel_scheme" where
  "z_unpend1_no_timeout q k =
     (case z_waitq_head q k of
        None \<Rightarrow> (None, k)
      | Some thread \<Rightarrow> (Some thread, unpend_thread_no_timeout thread k))"

definition z_unpend_first_thread :: "wq \<Rightarrow> 'a kernel_scheme \<Rightarrow> tid option \<times> 'a kernel_scheme" where
  "z_unpend_first_thread q k =
     (case z_waitq_head q k of
        None \<Rightarrow> (None, k)
      | Some thread \<Rightarrow>
          (Some thread, snd (z_abort_thread_timeout thread (unpend_thread_no_timeout thread k))))"

definition z_unpend_thread :: "tid \<Rightarrow> 'a kernel_scheme \<Rightarrow> 'a kernel_scheme" where
  "z_unpend_thread thread k = snd (z_abort_thread_timeout thread (z_unpend_thread_no_timeout thread k))"

definition ready_one_thread :: "wq \<Rightarrow> 'a kernel_scheme \<Rightarrow> 'a kernel_scheme" where
  "ready_one_thread q k =
     (case z_unpend_first_thread q k of (None, k1) \<Rightarrow> k1 | (Some thread, k1) \<Rightarrow> z_ready_thread thread k1)"

text \<open>
  A loop that works on the head of a wait queue until the queue is empty. Each
  round takes the head off, so that the initial length bounds the rounds.
\<close>

fun drain :: "(tid \<Rightarrow> 'a kernel_scheme \<Rightarrow> 'a kernel_scheme) \<Rightarrow> nat \<Rightarrow> wq \<Rightarrow> 'a kernel_scheme \<Rightarrow> 'a kernel_scheme" where
  "drain body 0 q k = k"
| "drain body (Suc n) q k =
     (case z_waitq_head q k of None \<Rightarrow> k | Some thread \<Rightarrow> drain body n q (body thread k))"

definition z_unpend_all :: "wq \<Rightarrow> 'a kernel_scheme \<Rightarrow> bool \<times> 'a kernel_scheme" where
  "z_unpend_all q k =
     (z_waitq_head q k \<noteq> None,
      drain (\<lambda>thread k. z_ready_thread thread (z_unpend_thread thread k)) (length (waitqs k q)) q k)"

definition arch_thread_return_value_set :: "tid \<Rightarrow> int \<Rightarrow> 'a kernel_scheme \<Rightarrow> 'a kernel_scheme" where
  "arch_thread_return_value_set thread v k = upd_thread thread (\<lambda>th. th\<lparr>swap_retval := v\<rparr>) k"

definition z_thread_return_value_set_with_data :: "tid \<Rightarrow> int \<Rightarrow> addr \<Rightarrow> 'a kernel_scheme \<Rightarrow> 'a kernel_scheme" where
  "z_thread_return_value_set_with_data thread v data k =
     upd_thread thread (\<lambda>th. th\<lparr>swap_data := data\<rparr>) (arch_thread_return_value_set thread v k)"

definition z_sched_wake :: "wq \<Rightarrow> int \<Rightarrow> addr \<Rightarrow> 'a kernel_scheme \<Rightarrow> bool \<times> 'a kernel_scheme" where
  "z_sched_wake q retval data k =
     (case z_waitq_head q k of
        None \<Rightarrow> (False, k)
      | Some thread \<Rightarrow>
          (True,
           ready_thread thread (snd (z_abort_thread_timeout thread
             (unpend_thread_no_timeout thread (z_thread_return_value_set_with_data thread retval data k))))))"

definition z_sched_wait :: "bool \<Rightarrow> wq \<Rightarrow> ticks \<Rightarrow> 'a kernel_scheme \<Rightarrow> 'a kernel_scheme" where
  "z_sched_wait key q timeout k = z_pend_curr key (Some q) timeout k"

definition z_sched_wait_resume :: "tid \<Rightarrow> 'a kernel_scheme \<Rightarrow> int \<times> addr" where
  "z_sched_wait_resume self k = (swap_retval (threads k self), swap_data (threads k self))"

fun waitq_walk :: "(tid \<Rightarrow> 's \<Rightarrow> int \<times> 's) \<Rightarrow> tid list \<Rightarrow> 's \<Rightarrow> int \<times> 's" where
  "waitq_walk func [] s = (0, s)"
| "waitq_walk func (thread # ts) s =
     (let (status, s') = func thread s in if status \<noteq> 0 then (status, s') else waitq_walk func ts s')"

section \<open>Priorities and the scheduler lock\<close>

definition z_set_prio :: "tid \<Rightarrow> int \<Rightarrow> 'a kernel_scheme \<Rightarrow> bool \<times> 'a kernel_scheme" where
  "z_set_prio thread p k =
     (let need_sched = z_is_thread_ready thread k;
          set = upd_thread thread (\<lambda>th. th\<lparr>prio := int8 p\<rparr>)
      in (need_sched,
          if need_sched then update_cache True (queue_thread thread (set (dequeue_thread thread k)))
          else set k))"

definition z_thread_priority_set :: "tid \<Rightarrow> int \<Rightarrow> 'a kernel_scheme \<Rightarrow> 'a kernel_scheme" where
  "z_thread_priority_set thread p k =
     (let (need_sched, k1) = z_set_prio thread p k in
      if need_sched \<and> sched_locked (threads k1 (current_thread k1)) = 0
      then z_reschedule_unlocked k1 else k1)"

definition k_thread_priority_get :: "tid \<Rightarrow> 'a kernel_scheme \<Rightarrow> int" where
  "k_thread_priority_get thread k = prio (threads k thread)"

definition k_thread_priority_set :: "tid \<Rightarrow> int \<Rightarrow> 'a kernel_scheme \<Rightarrow> 'a kernel_scheme" where
  "k_thread_priority_set thread p k = z_thread_priority_set thread p k"

definition k_sched_lock :: "'a kernel_scheme \<Rightarrow> 'a kernel_scheme" where
  "k_sched_lock k = upd_thread (current_thread k) (\<lambda>th. th\<lparr>sched_locked := sched_locked th - 1\<rparr>) k"

definition k_sched_unlock :: "'a kernel_scheme \<Rightarrow> 'a kernel_scheme" where
  "k_sched_unlock k =
     z_reschedule_unlocked
       (update_cache False
         (upd_thread (current_thread k) (\<lambda>th. th\<lparr>sched_locked := sched_locked th + 1\<rparr>) k))"

definition k_is_preempt_thread :: "'a kernel_scheme \<Rightarrow> bool" where
  "k_is_preempt_thread k \<longleftrightarrow> \<not> in_isr k \<and> is_preempt (threads k (current_thread k))"

definition k_can_yield :: "'a kernel_scheme \<Rightarrow> bool" where
  "k_can_yield k \<longleftrightarrow> \<not> (in_isr k \<or> z_is_idle_thread_object (current_thread k))"

section \<open>Yield, sleep and wakeup\<close>

definition k_yield :: "'a kernel_scheme \<Rightarrow> 'a kernel_scheme" where
  "k_yield k =
     (let (key, k1) = k_spin_lock k;
          cur = current_thread k1
      in z_swap key (update_cache True (queue_thread cur (dequeue_thread cur k1))))"

text \<open>The local \<open>expected_wakeup_ticks\<close> of \<open>z_tick_sleep\<close>.\<close>

definition expected_wakeup_ticks :: "ticks \<Rightarrow> 'a kernel_scheme \<Rightarrow> u32" where
  "expected_wakeup_ticks ticks k =
     (if Z_TICK_ABS ticks \<le> 0 then word_of_int ticks + sys_clock_tick_get_32 k
      else word_of_int (Z_TICK_ABS ticks))"

definition z_tick_sleep :: "ticks \<Rightarrow> 'a kernel_scheme \<Rightarrow> int outcome \<times> 'a kernel_scheme" where
  "z_tick_sleep ticks k =
     (if ticks = 0 then (Ret 0, k_yield k)
      else
        let (key, k1) = k_spin_lock k;
            cur = current_thread k1;
            k2 = unready_thread cur k1;
            k3 = z_add_thread_timeout cur ticks k2;
            k4 = upd_thread cur z_mark_thread_as_suspended k3
        in (Pend, z_swap key k4))"

definition z_tick_sleep_resume :: "u32 \<Rightarrow> 'a kernel_scheme \<Rightarrow> int" where
  "z_tick_sleep_resume expected k =
     (let ticks = uint expected - uint (sys_clock_tick_get_32 k)
      in if ticks > 0 then sint (word_of_int ticks :: u32) else 0)"

text \<open>
  The remaining ticks are converted to the unit of the caller. A call that
  suspends the caller for good returns \<open>K_TICKS_FOREVER\<close> once it is resumed.
\<close>

definition ticks_to_ms :: "clock_config \<Rightarrow> int \<Rightarrow> int" where
  "ticks_to_ms c n = sint (ucast (k_ticks_to_ms_floor64 c (word_of_int n)) :: u32)"

definition k_sleep :: "clock_config \<Rightarrow> ticks \<Rightarrow> 'a kernel_scheme \<Rightarrow> int outcome \<times> 'a kernel_scheme" where
  "k_sleep c timeout k =
     (if timeout = K_FOREVER then (Pend, k_thread_suspend (current_thread k) k)
      else case z_tick_sleep timeout k of
             (Ret n, k1) \<Rightarrow> (Ret (ticks_to_ms c n), k1)
           | (Pend, k1) \<Rightarrow> (Pend, k1))"

definition k_sleep_resume :: "clock_config \<Rightarrow> ticks \<Rightarrow> u32 \<Rightarrow> 'a kernel_scheme \<Rightarrow> int" where
  "k_sleep_resume c timeout expected k =
     (if timeout = K_FOREVER then K_TICKS_FOREVER else ticks_to_ms c (z_tick_sleep_resume expected k))"

definition usleep_ticks :: "clock_config \<Rightarrow> int \<Rightarrow> int" where
  "usleep_ticks c us = sint (ucast (k_us_to_ticks_ceil64 c (word_of_int us)) :: u32)"

definition ticks_to_us :: "clock_config \<Rightarrow> int \<Rightarrow> int" where
  "ticks_to_us c n = sint (ucast (k_ticks_to_us_floor64 c (word_of_int n)) :: u32)"

definition k_usleep :: "clock_config \<Rightarrow> int \<Rightarrow> 'a kernel_scheme \<Rightarrow> int outcome \<times> 'a kernel_scheme" where
  "k_usleep c us k =
     (case z_tick_sleep (usleep_ticks c us) k of
        (Ret n, k1) \<Rightarrow> (Ret (ticks_to_us c n), k1)
      | (Pend, k1) \<Rightarrow> (Pend, k1))"

definition k_usleep_resume :: "clock_config \<Rightarrow> u32 \<Rightarrow> 'a kernel_scheme \<Rightarrow> int" where
  "k_usleep_resume c expected k = ticks_to_us c (z_tick_sleep_resume expected k)"

definition k_wakeup :: "tid \<Rightarrow> 'a kernel_scheme \<Rightarrow> 'a kernel_scheme" where
  "k_wakeup thread k =
     (if z_is_thread_pending (threads k thread) then k
      else
        let (ret, k1) = z_abort_thread_timeout thread k in
        if ret < 0 \<and> thread_state (threads k1 thread) \<noteq> THREAD_SUSPENDED then k1
        else
          let k2 = z_ready_thread thread (upd_thread thread z_mark_thread_as_not_suspended k1)
          in if \<not> in_isr k2 then z_reschedule_unlocked k2 else k2)"

section \<open>The end of a thread\<close>

definition unpend_all :: "wq \<Rightarrow> 'a kernel_scheme \<Rightarrow> 'a kernel_scheme" where
  "unpend_all q k =
     drain (\<lambda>thread k. ready_thread thread (arch_thread_return_value_set thread 0
              (snd (z_abort_thread_timeout thread (unpend_thread_no_timeout thread k)))))
       (length (waitqs k q)) q k"

definition end_thread :: "tid \<Rightarrow> 'a kernel_scheme \<Rightarrow> 'a kernel_scheme" where
  "end_thread thread k =
     (if thread_state (threads k thread) AND THREAD_DEAD = 0
      then
        let k1 = upd_thread thread (z_reset_thread_states THREAD_ABORTING o z_set_thread_states THREAD_DEAD) k;
            k2 = (if z_is_thread_queued (threads k1 thread) then dequeue_thread thread k1 else k1);
            k3 = (if pended_on (threads k2 thread) \<noteq> None then unpend_thread_no_timeout thread k2 else k2);
            k4 = snd (z_abort_thread_timeout thread k3);
            k5 = unpend_all (JoinQ thread) k4
        in update_cache True k5
      else k)"

text \<open>Aborting an essential thread is a kernel panic, recorded as a fault.\<close>

definition z_thread_abort :: "tid \<Rightarrow> 'a kernel_scheme \<Rightarrow> 'a kernel_scheme" where
  "z_thread_abort thread k =
     (let (key, k1) = k_spin_lock k in
      if user_options (threads k1 thread) AND K_ESSENTIAL \<noteq> 0
      then (k_spin_unlock key k1)\<lparr>fault := True\<rparr>
      else if thread_state (threads k1 thread) AND THREAD_DEAD \<noteq> 0 then k_spin_unlock key k1
      else
        let k2 = end_thread thread k1 in
        if thread = current_thread k2 \<and> \<not> in_isr k2 then z_swap key k2
        else k_spin_unlock key k2)"

definition k_thread_join :: "tid \<Rightarrow> ticks \<Rightarrow> 'a kernel_scheme \<Rightarrow> int outcome \<times> 'a kernel_scheme" where
  "k_thread_join thread timeout k =
     (let (key, k1) = k_spin_lock k;
          cur = current_thread k1
      in if thread_state (threads k1 thread) AND THREAD_DEAD \<noteq> 0 then (Ret 0, k_spin_unlock key k1)
         else if timeout = K_NO_WAIT then (Ret (- EBUSY), k_spin_unlock key k1)
         else if thread = cur \<or> pended_on (threads k1 thread) = Some (JoinQ cur)
         then (Ret (- EDEADLK), k_spin_unlock key k1)
         else (Pend, z_swap key (add_thread_timeout cur timeout
                       (add_to_waitq_locked cur (Some (JoinQ thread)) k1))))"

section \<open>Creation\<close>

definition z_init_thread_base :: "int \<Rightarrow> u8 \<Rightarrow> u8 \<Rightarrow> k_thread \<Rightarrow> k_thread" where
  "z_init_thread_base priority initial_state options th =
     th\<lparr>pended_on := None, user_options := options, thread_state := initial_state,
        prio := int8 priority, sched_locked := 0\<rparr>"

text \<open>
  The parts of \<open>z_setup_new_thread\<close> that the scheduler sees. The initial context
  that the architecture builds starts with interrupts enabled.
\<close>

definition z_setup_new_thread :: "tid \<Rightarrow> int \<Rightarrow> u8 \<Rightarrow> 'a kernel_scheme \<Rightarrow> 'a kernel_scheme" where
  "z_setup_new_thread new_thread p options k =
     upd_thread new_thread
       (\<lambda>th. (z_init_thread_base p THREAD_PRESTART options th)\<lparr>swap_key := True, no_wake_on_timeout := False\<rparr>)
       (k\<lparr>waitqs := (waitqs k)(JoinQ new_thread := []),
         fault := fault k \<or> to_linked (ThreadTO new_thread) k\<rparr>)"

definition k_thread_start :: "tid \<Rightarrow> 'a kernel_scheme \<Rightarrow> 'a kernel_scheme" where
  "k_thread_start thread k = z_sched_start thread k"

definition schedule_new_thread :: "tid \<Rightarrow> ticks \<Rightarrow> 'a kernel_scheme \<Rightarrow> 'a kernel_scheme" where
  "schedule_new_thread thread delay k =
     (if delay = K_NO_WAIT then k_thread_start thread k else z_add_thread_timeout thread delay k)"

definition k_thread_create :: "tid \<Rightarrow> int \<Rightarrow> u8 \<Rightarrow> ticks \<Rightarrow> 'a kernel_scheme \<Rightarrow> 'a kernel_scheme" where
  "k_thread_create new_thread p options delay k =
     (let k1 = z_setup_new_thread new_thread p options k
      in if delay \<noteq> K_FOREVER then schedule_new_thread new_thread delay k1 else k1)"

end
