(* ===== verification/Sched_Inv.thy ===== *)
theory Sched_Inv
  imports Sched
begin

text \<open>
  The invariant of the scheduler and its preservation by every operation of
  the theory \<open>Sched\<close>. Between the steps of an operation some threads are neither in the run
  queue nor blocked (a thread that was just taken off a wait queue, say); the
  invariant is therefore indexed by the set of such threads, which is empty
  whenever an operation starts or ends.
\<close>

section \<open>Frames\<close>

abbreviation queued :: "'a kernel_scheme \<Rightarrow> tid \<Rightarrow> bool" where
  "queued k t \<equiv> z_is_thread_queued (threads k t)"

abbreviation prevented :: "'a kernel_scheme \<Rightarrow> tid \<Rightarrow> bool" where
  "prevented k t \<equiv> z_is_thread_prevented_from_running (threads k t)"

lemma ready_iff: "z_is_thread_ready t k \<longleftrightarrow> \<not> prevented k t \<and> \<not> to_linked (ThreadTO t) k"
  by (auto simp: z_is_thread_ready_def z_is_thread_timeout_active_def z_is_inactive_timeout_def)

text \<open>The timeout operations and the slice timer leave the scheduler's own state alone.\<close>

lemma add_timeout_kernel [simp]:
  "threads (z_add_timeout to fn n k) = threads k" "runq (z_add_timeout to fn n k) = runq k"
  "waitqs (z_add_timeout to fn n k) = waitqs k" "current_thread (z_add_timeout to fn n k) = current_thread k"
  "cache (z_add_timeout to fn n k) = cache k" "in_isr (z_add_timeout to fn n k) = in_isr k"
  "irq_unlocked (z_add_timeout to fn n k) = irq_unlocked k"
  "slice_ticks (z_add_timeout to fn n k) = slice_ticks k"
  "slice_max_prio (z_add_timeout to fn n k) = slice_max_prio k"
  "slice_expired (z_add_timeout to fn n k) = slice_expired k"
  "mem (z_add_timeout to fn n k) = mem k" "cells (z_add_timeout to fn n k) = cells k"
  by (auto simp: z_add_timeout_def Let_def split: prod.splits)

lemma abort_timeout_kernel [simp]:
  "threads (snd (z_abort_timeout to k)) = threads k" "runq (snd (z_abort_timeout to k)) = runq k"
  "waitqs (snd (z_abort_timeout to k)) = waitqs k"
  "current_thread (snd (z_abort_timeout to k)) = current_thread k"
  "cache (snd (z_abort_timeout to k)) = cache k" "in_isr (snd (z_abort_timeout to k)) = in_isr k"
  "irq_unlocked (snd (z_abort_timeout to k)) = irq_unlocked k"
  "slice_ticks (snd (z_abort_timeout to k)) = slice_ticks k"
  "slice_max_prio (snd (z_abort_timeout to k)) = slice_max_prio k"
  "slice_expired (snd (z_abort_timeout to k)) = slice_expired k"
  "mem (snd (z_abort_timeout to k)) = mem k" "cells (snd (z_abort_timeout to k)) = cells k"
  by (auto simp: z_abort_timeout_def remove_timeout_def Let_def)

lemma reset_slice_kernel [simp]:
  "threads (z_reset_time_slice t k) = threads k" "runq (z_reset_time_slice t k) = runq k"
  "waitqs (z_reset_time_slice t k) = waitqs k" "current_thread (z_reset_time_slice t k) = current_thread k"
  "cache (z_reset_time_slice t k) = cache k" "in_isr (z_reset_time_slice t k) = in_isr k"
  "irq_unlocked (z_reset_time_slice t k) = irq_unlocked k"
  "slice_ticks (z_reset_time_slice t k) = slice_ticks k"
  "slice_max_prio (z_reset_time_slice t k) = slice_max_prio k"
  "slice_expired (z_reset_time_slice t k) = False"
  "mem (z_reset_time_slice t k) = mem k" "cells (z_reset_time_slice t k) = cells k"
  by (auto simp: z_reset_time_slice_def Let_def)

text \<open>Updates of the scheduler's own fields leave the timeout queue alone.\<close>

lemma timeout_wf_kernel [simp]:
  "timeout_wf (k\<lparr>threads := a\<rparr>) = timeout_wf k" "timeout_wf (k\<lparr>current_thread := b\<rparr>) = timeout_wf k"
  "timeout_wf (k\<lparr>cache := b\<rparr>) = timeout_wf k" "timeout_wf (k\<lparr>runq := c\<rparr>) = timeout_wf k"
  "timeout_wf (k\<lparr>waitqs := d\<rparr>) = timeout_wf k" "timeout_wf (k\<lparr>irq_unlocked := e\<rparr>) = timeout_wf k"
  "timeout_wf (k\<lparr>in_isr := e\<rparr>) = timeout_wf k" "timeout_wf (k\<lparr>slice_expired := e\<rparr>) = timeout_wf k"
  "timeout_wf (k\<lparr>mem := m\<rparr>) = timeout_wf k" "timeout_wf (k\<lparr>cells := c'\<rparr>) = timeout_wf k"
  "timeout_wf (k\<lparr>slice_ticks := i\<rparr>) = timeout_wf k" "timeout_wf (k\<lparr>slice_max_prio := i\<rparr>) = timeout_wf k"
  "timeout_wf (upd_thread t f k) = timeout_wf k"
  by (auto simp: timeout_wf_def)

lemma timeout_wf_fault [simp]: "timeout_wf (k\<lparr>fault := e\<rparr>) = timeout_wf k"
  by (auto simp: timeout_wf_def)

lemma linked_kernel [simp]:
  "to_linked u (k\<lparr>threads := a\<rparr>) = to_linked u k" "to_linked u (k\<lparr>current_thread := b\<rparr>) = to_linked u k"
  "to_linked u (k\<lparr>cache := b\<rparr>) = to_linked u k" "to_linked u (k\<lparr>runq := c\<rparr>) = to_linked u k"
  "to_linked u (k\<lparr>waitqs := d\<rparr>) = to_linked u k" "to_linked u (k\<lparr>irq_unlocked := e\<rparr>) = to_linked u k"
  "to_linked u (k\<lparr>in_isr := e\<rparr>) = to_linked u k" "to_linked u (k\<lparr>slice_expired := e\<rparr>) = to_linked u k"
  "to_linked u (k\<lparr>mem := m\<rparr>) = to_linked u k" "to_linked u (k\<lparr>cells := c'\<rparr>) = to_linked u k"
  "to_linked u (k\<lparr>slice_ticks := i\<rparr>) = to_linked u k" "to_linked u (k\<lparr>slice_max_prio := i\<rparr>) = to_linked u k"
  "to_linked u (upd_thread t f k) = to_linked u k"
  by (auto simp: to_linked_def)

lemma linked_fault [simp]: "to_linked u (k\<lparr>fault := e\<rparr>) = to_linked u k"
  by (auto simp: to_linked_def)

lemma deadline_kernel [simp]:
  "deadline (k\<lparr>threads := a\<rparr>) u = deadline k u" "deadline (k\<lparr>current_thread := b\<rparr>) u = deadline k u"
  "deadline (k\<lparr>cache := b\<rparr>) u = deadline k u" "deadline (k\<lparr>runq := c\<rparr>) u = deadline k u"
  "deadline (k\<lparr>waitqs := d\<rparr>) u = deadline k u" "deadline (k\<lparr>irq_unlocked := e\<rparr>) u = deadline k u"
  "deadline (k\<lparr>in_isr := e\<rparr>) u = deadline k u" "deadline (k\<lparr>slice_expired := e\<rparr>) u = deadline k u"
  "deadline (k\<lparr>mem := m\<rparr>) u = deadline k u" "deadline (k\<lparr>cells := c'\<rparr>) u = deadline k u"
  "deadline (k\<lparr>slice_ticks := i\<rparr>) u = deadline k u" "deadline (k\<lparr>slice_max_prio := i\<rparr>) u = deadline k u"
  "deadline (upd_thread t f k) u = deadline k u"
  by (auto simp: deadline_def)

lemma deadline_fault [simp]: "deadline (k\<lparr>fault := e\<rparr>) u = deadline k u"
  by (auto simp: deadline_def)

section \<open>The invariant\<close>

definition sched_wf :: "tid set \<Rightarrow> 'a kernel_scheme \<Rightarrow> bool" where
  "sched_wf S k \<longleftrightarrow>
     distinct (runq k) \<and>
     sorted_wrt (\<lambda>a b. prio (threads k a) \<le> prio (threads k b)) (runq k) \<and>
     (\<forall>t. t \<in> set (runq k) \<longleftrightarrow> queued k t) \<and>
     (\<forall>t. queued k t \<longrightarrow> z_is_thread_ready t k \<and> t \<noteq> z_idle_thread \<and> t \<notin> S) \<and>
     (\<forall>t. z_is_thread_ready t k \<and> t \<noteq> z_idle_thread \<and> t \<notin> S \<longrightarrow> queued k t) \<and>
     z_idle_thread \<notin> S \<and> z_is_thread_ready z_idle_thread k \<and>
     sched_locked (threads k z_idle_thread) = 0 \<and> 0 \<le> prio (threads k z_idle_thread) \<and>
     (\<forall>q. distinct (waitqs k q)) \<and>
     (\<forall>q t. t \<in> set (waitqs k q) \<longleftrightarrow> pended_on (threads k t) = Some q) \<and>
     (\<forall>t. pended_on (threads k t) \<noteq> None \<longrightarrow> z_is_thread_pending (threads k t)) \<and>
     (\<forall>t. -128 \<le> prio (threads k t) \<and> prio (threads k t) \<le> 127) \<and>
     timeout_wf k \<and> 0 \<le> clk_elapsed k \<and> \<not> fault k"

definition cache_ok :: "'a kernel_scheme \<Rightarrow> bool" where
  "cache_ok k \<longleftrightarrow> cache k = next_up k \<or>
     cache k = current_thread k \<and> current_thread k \<in> set (runq k) \<and>
     \<not> is_preempt (threads k (current_thread k))"

text \<open>
  Two flags that are only set inside a critical section (\<open>no_wake_on_timeout\<close>) or
  on another CPU (\<open>_THREAD_ABORTING\<close>).
\<close>

definition quiet :: "'a kernel_scheme \<Rightarrow> bool" where
  "quiet k \<longleftrightarrow> (\<forall>t. \<not> no_wake_on_timeout (threads k t) \<and> \<not> bit (thread_state (threads k t)) 5)"

definition kinv_ex :: "tid set \<Rightarrow> 'a kernel_scheme \<Rightarrow> bool" where
  "kinv_ex S k \<longleftrightarrow> sched_wf S k \<and> cache_ok k \<and> \<not> to_linked (ThreadTO (current_thread k)) k \<and> quiet k"

abbreviation kinv :: "'a kernel_scheme \<Rightarrow> bool" where
  "kinv k \<equiv> kinv_ex {} k"

lemma sched_wfD:
  assumes "sched_wf S k"
  shows "distinct (runq k)"
    and "sorted_wrt (\<lambda>a b. prio (threads k a) \<le> prio (threads k b)) (runq k)"
    and "t \<in> set (runq k) \<longleftrightarrow> queued k t"
    and "queued k t \<Longrightarrow> z_is_thread_ready t k \<and> t \<noteq> z_idle_thread \<and> t \<notin> S"
    and "z_is_thread_ready t k \<Longrightarrow> t \<noteq> z_idle_thread \<Longrightarrow> t \<notin> S \<Longrightarrow> queued k t"
    and "z_idle_thread \<notin> S" and "z_is_thread_ready z_idle_thread k"
    and "distinct (waitqs k q)"
    and "t \<in> set (waitqs k q) \<longleftrightarrow> pended_on (threads k t) = Some q"
    and "pended_on (threads k t) \<noteq> None \<Longrightarrow> z_is_thread_pending (threads k t)"
    and "-128 \<le> prio (threads k t) \<and> prio (threads k t) \<le> 127"
    and "timeout_wf k" and "0 \<le> clk_elapsed k" and "\<not> fault k"
    and "sched_locked (threads k z_idle_thread) = 0 \<and> 0 \<le> prio (threads k z_idle_thread)"
proof -
  note w = assms [unfolded sched_wf_def]
  note c_distinct = conjunct1 [OF w] and w0 = conjunct2 [OF w]
  note c_sorted = conjunct1 [OF w0] and w1 = conjunct2 [OF w0]
  note c_mem = conjunct1 [OF w1] and w2 = conjunct2 [OF w1]
  note c_qd = conjunct1 [OF w2] and w3 = conjunct2 [OF w2]
  note c_rq = conjunct1 [OF w3] and w4 = conjunct2 [OF w3]
  note c_idleS = conjunct1 [OF w4] and w5 = conjunct2 [OF w4]
  note c_idleR = conjunct1 [OF w5] and w6 = conjunct2 [OF w5]
  note c_lock = conjunct1 [OF w6] and w7 = conjunct2 [OF w6]
  note c_iprio = conjunct1 [OF w7] and w8 = conjunct2 [OF w7]
  note c_dw = conjunct1 [OF w8] and w9 = conjunct2 [OF w8]
  note c_mw = conjunct1 [OF w9] and w10 = conjunct2 [OF w9]
  note c_pp = conjunct1 [OF w10] and w11 = conjunct2 [OF w10]
  note c_pr = conjunct1 [OF w11] and w12 = conjunct2 [OF w11]
  note c_twf = conjunct1 [OF w12] and w13 = conjunct2 [OF w12]
  note c_clk = conjunct1 [OF w13] and w14 = conjunct2 [OF w13]
  note c_fault = w14
  show "distinct (runq k)" "sorted_wrt (\<lambda>a b. prio (threads k a) \<le> prio (threads k b)) (runq k)"
    "z_idle_thread \<notin> S" "z_is_thread_ready z_idle_thread k" "timeout_wf k" "0 \<le> clk_elapsed k" "\<not> fault k"
    by (fact c_distinct c_sorted c_idleS c_idleR c_twf c_clk c_fault)+
  show "t \<in> set (runq k) \<longleftrightarrow> queued k t" by (rule c_mem [rule_format])
  show "queued k t \<Longrightarrow> z_is_thread_ready t k \<and> t \<noteq> z_idle_thread \<and> t \<notin> S" by (rule c_qd [rule_format])
  show "z_is_thread_ready t k \<Longrightarrow> t \<noteq> z_idle_thread \<Longrightarrow> t \<notin> S \<Longrightarrow> queued k t" using c_rq by blast
  show "distinct (waitqs k q)" by (rule c_dw [rule_format])
  show "t \<in> set (waitqs k q) \<longleftrightarrow> pended_on (threads k t) = Some q" by (rule c_mw [rule_format])
  show "pended_on (threads k t) \<noteq> None \<Longrightarrow> z_is_thread_pending (threads k t)" by (rule c_pp [rule_format])
  show "-128 \<le> prio (threads k t) \<and> prio (threads k t) \<le> 127" by (rule c_pr [rule_format])
  show "sched_locked (threads k z_idle_thread) = 0 \<and> 0 \<le> prio (threads k z_idle_thread)"
    using c_lock c_iprio by (rule conjI)
qed

lemma sched_wfI:
  assumes "distinct (runq k)" "sorted_wrt (\<lambda>a b. prio (threads k a) \<le> prio (threads k b)) (runq k)"
    "\<And>t. t \<in> set (runq k) \<longleftrightarrow> queued k t"
    "\<And>t. queued k t \<Longrightarrow> z_is_thread_ready t k \<and> t \<noteq> z_idle_thread \<and> t \<notin> S"
    "\<And>t. z_is_thread_ready t k \<Longrightarrow> t \<noteq> z_idle_thread \<Longrightarrow> t \<notin> S \<Longrightarrow> queued k t"
    "z_idle_thread \<notin> S" "z_is_thread_ready z_idle_thread k"
    "sched_locked (threads k z_idle_thread) = 0 \<and> 0 \<le> prio (threads k z_idle_thread)"
    "\<And>q. distinct (waitqs k q)" "\<And>q t. t \<in> set (waitqs k q) \<longleftrightarrow> pended_on (threads k t) = Some q"
    "\<And>t. pended_on (threads k t) \<noteq> None \<Longrightarrow> z_is_thread_pending (threads k t)"
    "\<And>t. -128 \<le> prio (threads k t) \<and> prio (threads k t) \<le> 127"
    "timeout_wf k" "0 \<le> clk_elapsed k" "\<not> fault k"
  shows "sched_wf S k"
proof -
  have ready: "\<forall>t. z_is_thread_ready t k \<and> t \<noteq> z_idle_thread \<and> t \<notin> S \<longrightarrow> queued k t"
    using assms(5) by blast
  show ?thesis unfolding sched_wf_def
    apply (rule conjI, rule assms(1))
    apply (rule conjI, rule assms(2))
    apply (rule conjI, rule allI, rule assms(3))
    apply (rule conjI, intro allI impI, rule assms(4), assumption)
    apply (rule conjI, rule ready)
    apply (rule conjI, rule assms(6))
    apply (rule conjI, rule assms(7))
    apply (rule conjI, rule assms(8) [THEN conjunct1])
    apply (rule conjI, rule assms(8) [THEN conjunct2])
    apply (rule conjI, rule allI, rule assms(9))
    apply (rule conjI, intro allI, rule assms(10))
    apply (rule conjI, intro allI impI, rule assms(11), assumption)
    apply (rule conjI, rule allI, rule assms(12))
    apply (intro conjI assms(13,14,15))
    done
qed

text \<open>
  Only part of the state matters: a change to anything else keeps the
  invariant.
\<close>

lemma sched_wf_frame:
  assumes "sched_wf S k" "runq k' = runq k" "waitqs k' = waitqs k"
    "\<And>t. thread_state (threads k' t) = thread_state (threads k t)"
    "\<And>t. prio (threads k' t) = prio (threads k t)"
    "\<And>t. pended_on (threads k' t) = pended_on (threads k t)"
    "sched_locked (threads k' z_idle_thread) = sched_locked (threads k z_idle_thread)"
    "\<And>t. to_linked (ThreadTO t) k' = to_linked (ThreadTO t) k"
    "timeout_wf k'" "clk_elapsed k' = clk_elapsed k" "fault k' = fault k"
  shows "sched_wf S k'"
  using assms(1) [unfolded sched_wf_def ready_iff state_flags] assms(9)
  unfolding sched_wf_def ready_iff state_flags assms(2-8,10,11)
  by (elim conjE) (intro conjI, assumption+)

lemma next_up_frame: "runq k' = runq k \<Longrightarrow> next_up k' = next_up k"
  by (simp add: next_up_def runq_best_def)

lemma cache_ok_frame:
  assumes "cache_ok k" "runq k' = runq k" "current_thread k' = current_thread k" "cache k' = cache k"
    "sched_locked (threads k' (current_thread k)) = sched_locked (threads k (current_thread k))"
    "prio (threads k' (current_thread k)) = prio (threads k (current_thread k))"
  shows "cache_ok k'"
  using assms by (auto simp: cache_ok_def is_preempt_def preempt_def next_up_frame [OF assms(2)])

lemma reset_slice_linked:
  "timeout_wf k \<Longrightarrow> to_linked (ThreadTO t) (z_reset_time_slice u k) = to_linked (ThreadTO t) k"
  "timeout_wf k \<Longrightarrow> 0 \<le> clk_elapsed k \<Longrightarrow> timeout_wf (z_reset_time_slice u k)"
  "timeout_wf k \<Longrightarrow> clk_elapsed (z_reset_time_slice u k) = clk_elapsed k"
  "timeout_wf k \<Longrightarrow> fault (z_reset_time_slice u k) = fault k"
  by (auto simp: z_reset_time_slice_def Let_def wf_add_timeout fault_add_timeout)

lemma sched_wf_reset_slice:
  assumes "sched_wf S k"
  shows "sched_wf S (z_reset_time_slice t k)"
  using sched_wfD(12,13) [OF assms] by (intro sched_wf_frame [OF assms]) (simp_all add: reset_slice_linked)

section \<open>The steps that operations are made of\<close>

lemma not_queued_ex: "sched_wf S k \<Longrightarrow> t \<in> S \<Longrightarrow> \<not> queued k t"
  using sched_wfD(4) by blast

lemma pended_not_ready: "sched_wf S k \<Longrightarrow> z_is_thread_ready t k \<Longrightarrow> pended_on (threads k t) = None"
  using sched_wfD(10) [of S k t] by (cases "pended_on (threads k t)") (auto simp: ready_iff state_flags)

lemma queue_thread_simps [simp]:
  "waitqs (queue_thread t k) = waitqs k" "current_thread (queue_thread t k) = current_thread k"
  "cache (queue_thread t k) = cache k" "in_isr (queue_thread t k) = in_isr k"
  "irq_unlocked (queue_thread t k) = irq_unlocked k" "timeout_list (queue_thread t k) = timeout_list k"
  "timeouts (queue_thread t k) = timeouts k" "clk_elapsed (queue_thread t k) = clk_elapsed k"
  "curr_tick (queue_thread t k) = curr_tick k" "announce_remaining (queue_thread t k) = announce_remaining k"
  "mem (queue_thread t k) = mem k" "cells (queue_thread t k) = cells k"
  "slice_ticks (queue_thread t k) = slice_ticks k" "slice_max_prio (queue_thread t k) = slice_max_prio k"
  "slice_expired (queue_thread t k) = slice_expired k"
  "threads (queue_thread t k) u = (if u = t then z_set_thread_states THREAD_QUEUED (threads k t) else threads k u)"
  by (auto simp: queue_thread_def runq_add_def)

lemma dequeue_thread_simps [simp]:
  "waitqs (dequeue_thread t k) = waitqs k" "current_thread (dequeue_thread t k) = current_thread k"
  "cache (dequeue_thread t k) = cache k" "in_isr (dequeue_thread t k) = in_isr k"
  "irq_unlocked (dequeue_thread t k) = irq_unlocked k" "timeout_list (dequeue_thread t k) = timeout_list k"
  "timeouts (dequeue_thread t k) = timeouts k" "clk_elapsed (dequeue_thread t k) = clk_elapsed k"
  "curr_tick (dequeue_thread t k) = curr_tick k" "announce_remaining (dequeue_thread t k) = announce_remaining k"
  "mem (dequeue_thread t k) = mem k" "cells (dequeue_thread t k) = cells k"
  "slice_ticks (dequeue_thread t k) = slice_ticks k" "slice_max_prio (dequeue_thread t k) = slice_max_prio k"
  "slice_expired (dequeue_thread t k) = slice_expired k"
  "runq (dequeue_thread t k) = remove1 t (runq k)"
  "threads (dequeue_thread t k) u = (if u = t then z_reset_thread_states THREAD_QUEUED (threads k t) else threads k u)"
  by (auto simp: dequeue_thread_def runq_remove_def z_priq_dumb_remove_def)

lemma states_simps [simp]:
  "bit (thread_state (z_set_thread_states THREAD_QUEUED th)) i \<longleftrightarrow> bit (thread_state th) i \<or> i = 7"
  "bit (thread_state (z_reset_thread_states THREAD_QUEUED th)) i \<longleftrightarrow> bit (thread_state th) i \<and> i \<noteq> 7"
  "bit (thread_state (z_set_thread_states THREAD_DEAD th)) i \<longleftrightarrow> bit (thread_state th) i \<or> i = 3"
  "bit (thread_state (z_reset_thread_states THREAD_ABORTING th)) i \<longleftrightarrow> bit (thread_state th) i \<and> i \<noteq> 5"
  by (auto simp: z_set_thread_states_def z_reset_thread_states_def flag_defs bit_simps dest: bit_imp_le_length)

lemma states_flags [simp]:
  "z_is_thread_queued (z_set_thread_states THREAD_QUEUED th)"
  "\<not> z_is_thread_queued (z_reset_thread_states THREAD_QUEUED th)"
  "z_is_thread_prevented_from_running (z_set_thread_states THREAD_QUEUED th) = z_is_thread_prevented_from_running th"
  "z_is_thread_prevented_from_running (z_reset_thread_states THREAD_QUEUED th) = z_is_thread_prevented_from_running th"
  "z_is_thread_pending (z_set_thread_states THREAD_QUEUED th) = z_is_thread_pending th"
  "z_is_thread_pending (z_reset_thread_states THREAD_QUEUED th) = z_is_thread_pending th"
  by (auto simp: state_flags)

lemma states_frame [simp]:
  "prio (z_set_thread_states s th) = prio th" "pended_on (z_set_thread_states s th) = pended_on th"
  "sched_locked (z_set_thread_states s th) = sched_locked th"
  "swap_retval (z_set_thread_states s th) = swap_retval th" "swap_data (z_set_thread_states s th) = swap_data th"
  "prio (z_reset_thread_states s th) = prio th" "pended_on (z_reset_thread_states s th) = pended_on th"
  "sched_locked (z_reset_thread_states s th) = sched_locked th"
  "swap_retval (z_reset_thread_states s th) = swap_retval th" "swap_data (z_reset_thread_states s th) = swap_data th"
  by (auto simp: z_set_thread_states_def z_reset_thread_states_def)

lemma queue_linked [simp]:
  "to_linked u (queue_thread t k) = to_linked u k" "to_linked u (dequeue_thread t k) = to_linked u k"
  "timeout_wf (queue_thread t k) = timeout_wf k" "timeout_wf (dequeue_thread t k) = timeout_wf k"
  "deadline (queue_thread t k) u = deadline k u" "deadline (dequeue_thread t k) u = deadline k u"
  by (auto simp: to_linked_def timeout_wf_def deadline_def)

lemma runq_queue: "runq (queue_thread t k) = z_priq_dumb_add (threads k) t (runq k)"
  by (auto simp: queue_thread_def runq_add_def intro: dumb_add_cong)

lemma sched_wf_queue:
  assumes w: "sched_wf S k" and t: "t \<in> S" "z_is_thread_ready t k"
  shows "sched_wf (S - {t}) (queue_thread t k)"
proof -
  note D = sched_wfD [OF w]
  have nq: "\<not> queued k t" "t \<notin> set (runq k)" using not_queued_ex [OF w t(1)] D(3) by auto
  have np: "pended_on (threads k t) = None" using pended_not_ready [OF w t(2)] .
  have rd: "z_is_thread_ready u (queue_thread t k) = z_is_thread_ready u k" for u
    by (auto simp: ready_iff state_flags)
  have qd: "queued (queue_thread t k) u \<longleftrightarrow> queued k u \<or> u = t" for u by (auto simp: state_flags)
  have ti: "t \<noteq> z_idle_thread" using D(6) t(1) by auto
  show ?thesis
  proof (rule sched_wfI)
    show "distinct (runq (queue_thread t k))" using D(1) nq by (simp add: runq_queue)
    have "sorted_wrt (\<lambda>a b. prio (threads k a) \<le> prio (threads k b)) (runq (queue_thread t k))"
      unfolding runq_queue by (rule sorted_dumb_add [OF D(2)])
    then show "sorted_wrt (\<lambda>a b. prio (threads (queue_thread t k) a) \<le> prio (threads (queue_thread t k) b)) (runq (queue_thread t k))"
      by (rule sorted_wrt_mono_rel [rotated]) auto
    show "u \<in> set (runq (queue_thread t k)) \<longleftrightarrow> queued (queue_thread t k) u" for u
      using D(3) [of u] by (auto simp: runq_queue)
    show "z_is_thread_ready u (queue_thread t k) \<and> u \<noteq> z_idle_thread \<and> u \<notin> S - {t}" if "queued (queue_thread t k) u" for u
      using that t(2) D(4) [of u] ti unfolding qd rd by auto
    show "queued (queue_thread t k) u" if "z_is_thread_ready u (queue_thread t k)" "u \<noteq> z_idle_thread" "u \<notin> S - {t}" for u
      using that D(5) [of u] unfolding qd rd by auto
    show "z_idle_thread \<notin> S - {t}" "z_is_thread_ready z_idle_thread (queue_thread t k)" using D(6,7) by (auto simp: rd)
    show "sched_locked (threads (queue_thread t k) z_idle_thread) = 0 \<and> 0 \<le> prio (threads (queue_thread t k) z_idle_thread)"
      using D(15) ti by auto
    show "distinct (waitqs (queue_thread t k) q)" for q using D(8) by simp
    show "u \<in> set (waitqs (queue_thread t k) q) \<longleftrightarrow> pended_on (threads (queue_thread t k) u) = Some q" for q u
      using D(9) [of u q] by auto
    show "z_is_thread_pending (threads (queue_thread t k) u)" if "pended_on (threads (queue_thread t k) u) \<noteq> None" for u
      using that D(10) [of u] by (auto split: if_splits)
    show "-128 \<le> prio (threads (queue_thread t k) u) \<and> prio (threads (queue_thread t k) u) \<le> 127" for u
      using D(11) [of u] by auto
    show "timeout_wf (queue_thread t k)" "0 \<le> clk_elapsed (queue_thread t k)" using D(12,13) by auto
    show "\<not> fault (queue_thread t k)" using D(14) nq np by (simp add: queue_thread_def runq_add_def)
  qed
qed

lemma sched_wf_dequeue:
  assumes w: "sched_wf S k" and t: "queued k t"
  shows "sched_wf (insert t S) (dequeue_thread t k)"
proof -
  note D = sched_wfD [OF w]
  have rd: "z_is_thread_ready u (dequeue_thread t k) = z_is_thread_ready u k" for u
    by (auto simp: ready_iff state_flags)
  have qd: "queued (dequeue_thread t k) u \<longleftrightarrow> queued k u \<and> u \<noteq> t" for u by (auto simp: state_flags)
  have ti: "t \<noteq> z_idle_thread" using D(4) t by blast
  show ?thesis
  proof (rule sched_wfI)
    show "distinct (runq (dequeue_thread t k))" using D(1) by simp
    have "sorted_wrt (\<lambda>a b. prio (threads k a) \<le> prio (threads k b)) (runq (dequeue_thread t k))"
      using D(2) by (simp add: sorted_wrt_remove1)
    then show "sorted_wrt (\<lambda>a b. prio (threads (dequeue_thread t k) a) \<le> prio (threads (dequeue_thread t k) b)) (runq (dequeue_thread t k))"
      by (rule sorted_wrt_mono_rel [rotated]) auto
    show "u \<in> set (runq (dequeue_thread t k)) \<longleftrightarrow> queued (dequeue_thread t k) u" for u
      using D(1) D(3) [of u] by auto
    show "z_is_thread_ready u (dequeue_thread t k) \<and> u \<noteq> z_idle_thread \<and> u \<notin> insert t S" if "queued (dequeue_thread t k) u" for u
      using that D(4) [of u] unfolding qd rd by auto
    show "queued (dequeue_thread t k) u" if "z_is_thread_ready u (dequeue_thread t k)" "u \<noteq> z_idle_thread" "u \<notin> insert t S" for u
      using that D(5) [of u] unfolding qd rd by auto
    show "z_idle_thread \<notin> insert t S" "z_is_thread_ready z_idle_thread (dequeue_thread t k)" using D(6,7) ti by (auto simp: rd)
    show "sched_locked (threads (dequeue_thread t k) z_idle_thread) = 0 \<and> 0 \<le> prio (threads (dequeue_thread t k) z_idle_thread)"
      using D(15) ti by auto
    show "distinct (waitqs (dequeue_thread t k) q)" for q using D(8) by simp
    show "u \<in> set (waitqs (dequeue_thread t k) q) \<longleftrightarrow> pended_on (threads (dequeue_thread t k) u) = Some q" for q u
      using D(9) [of u q] by auto
    show "z_is_thread_pending (threads (dequeue_thread t k) u)" if "pended_on (threads (dequeue_thread t k) u) \<noteq> None" for u
      using that D(10) [of u] by (auto split: if_splits)
    show "-128 \<le> prio (threads (dequeue_thread t k) u) \<and> prio (threads (dequeue_thread t k) u) \<le> 127" for u
      using D(11) [of u] by auto
    show "timeout_wf (dequeue_thread t k)" "0 \<le> clk_elapsed (dequeue_thread t k)" using D(12,13) by auto
    show "\<not> fault (dequeue_thread t k)" using D(14) D(3) t by (simp add: dequeue_thread_def runq_remove_def)
  qed
qed

text \<open>A thread in transit may be changed freely, as long as it stays off the run queue.\<close>

lemma sched_wf_upd:
  assumes w: "sched_wf S k" and t: "t \<in> S"
    and f: "\<not> bit (thread_state (f (threads k t))) 7" "pended_on (f (threads k t)) = pended_on (threads k t)"
      "pended_on (threads k t) \<noteq> None \<Longrightarrow> bit (thread_state (f (threads k t))) 1"
      "-128 \<le> prio (f (threads k t)) \<and> prio (f (threads k t)) \<le> 127"
  shows "sched_wf S (upd_thread t f k)"
proof -
  note D = sched_wfD [OF w]
  have nq: "\<not> queued k t" "t \<notin> set (runq k)" using not_queued_ex [OF w t] D(3) by auto
  have ti: "t \<noteq> z_idle_thread" using D(6) t by auto
  have rd: "z_is_thread_ready u (upd_thread t f k) = z_is_thread_ready u k" if "u \<noteq> t" for u
    using that by (auto simp: ready_iff state_flags)
  have qd: "queued (upd_thread t f k) u \<longleftrightarrow> queued k u" for u using nq f(1) by (auto simp: state_flags)
  show ?thesis
  proof (rule sched_wfI)
    show "distinct (runq (upd_thread t f k))" using D(1) by simp
    show "sorted_wrt (\<lambda>a b. prio (threads (upd_thread t f k) a) \<le> prio (threads (upd_thread t f k) b)) (runq (upd_thread t f k))"
      using D(2) nq(2) by (auto intro: sorted_wrt_mono_rel [rotated])
    show "u \<in> set (runq (upd_thread t f k)) \<longleftrightarrow> queued (upd_thread t f k) u" for u
      using D(3) [of u] unfolding qd by simp
    show "z_is_thread_ready u (upd_thread t f k) \<and> u \<noteq> z_idle_thread \<and> u \<notin> S" if "queued (upd_thread t f k) u" for u
      using that nq(1) D(4) [of u] rd [of u] by (metis qd)
    show "queued (upd_thread t f k) u" if "z_is_thread_ready u (upd_thread t f k)" "u \<noteq> z_idle_thread" "u \<notin> S" for u
      using that D(5) [of u] rd [of u] t by (metis qd)
    show "z_idle_thread \<notin> S" "z_is_thread_ready z_idle_thread (upd_thread t f k)" using D(6,7) ti rd by auto
    show "sched_locked (threads (upd_thread t f k) z_idle_thread) = 0 \<and> 0 \<le> prio (threads (upd_thread t f k) z_idle_thread)"
      using D(15) ti by auto
    show "distinct (waitqs (upd_thread t f k) q)" for q using D(8) by simp
    show "u \<in> set (waitqs (upd_thread t f k) q) \<longleftrightarrow> pended_on (threads (upd_thread t f k) u) = Some q" for q u
      using D(9) [of u q] f(2) by auto
    show "z_is_thread_pending (threads (upd_thread t f k) u)" if "pended_on (threads (upd_thread t f k) u) \<noteq> None" for u
      using that D(10) [of u] f(2,3) by (auto simp: state_flags split: if_splits)
    show "-128 \<le> prio (threads (upd_thread t f k) u) \<and> prio (threads (upd_thread t f k) u) \<le> 127" for u
      using D(11) [of u] f(4) by auto
    show "timeout_wf (upd_thread t f k)" "0 \<le> clk_elapsed (upd_thread t f k)" "\<not> fault (upd_thread t f k)"
      using D(12,13,14) by auto
  qed
qed

lemma sched_wf_reindex:
  assumes "sched_wf S k" "\<forall>t. queued k t \<longrightarrow> z_is_thread_ready t k \<and> t \<noteq> z_idle_thread \<and> t \<notin> S'"
    "\<forall>t. z_is_thread_ready t k \<and> t \<noteq> z_idle_thread \<and> t \<notin> S' \<longrightarrow> queued k t" "z_idle_thread \<notin> S'"
  shows "sched_wf S' k"
  using assms unfolding sched_wf_def by (elim conjE) (intro conjI, assumption+)

lemma sched_wf_release:
  assumes w: "sched_wf S k" and t: "\<not> z_is_thread_ready t k"
  shows "sched_wf (S - {t}) k"
proof (rule sched_wf_reindex [OF w])
  show "\<forall>u. queued k u \<longrightarrow> z_is_thread_ready u k \<and> u \<noteq> z_idle_thread \<and> u \<notin> S - {t}"
    using sched_wfD(4) [OF w] by blast
  show "\<forall>u. z_is_thread_ready u k \<and> u \<noteq> z_idle_thread \<and> u \<notin> S - {t} \<longrightarrow> queued k u"
    using t sched_wfD(5) [OF w] by blast
  show "z_idle_thread \<notin> S - {t}" using sched_wfD(6) [OF w] by blast
qed

lemma sched_wf_grow:
  assumes w: "sched_wf S k" and t: "\<not> queued k t" "t \<noteq> z_idle_thread"
  shows "sched_wf (insert t S) k"
proof (rule sched_wf_reindex [OF w])
  show "\<forall>u. queued k u \<longrightarrow> z_is_thread_ready u k \<and> u \<noteq> z_idle_thread \<and> u \<notin> insert t S"
    using t(1) sched_wfD(4) [OF w] by blast
  show "\<forall>u. z_is_thread_ready u k \<and> u \<noteq> z_idle_thread \<and> u \<notin> insert t S \<longrightarrow> queued k u"
    using sched_wfD(5) [OF w] by blast
  show "z_idle_thread \<notin> insert t S" using t(2) sched_wfD(6) [OF w] by blast
qed

text \<open>Changing a thread's timeout, while it is in transit.\<close>

lemma sched_wf_timeout:
  assumes w: "sched_wf S k" and t: "t \<in> S"
    and same: "runq k' = runq k" "waitqs k' = waitqs k" "threads k' = threads k"
      "clk_elapsed k' = clk_elapsed k" "fault k' = fault k" "timeout_wf k'"
      "\<And>u. u \<noteq> t \<Longrightarrow> to_linked (ThreadTO u) k' = to_linked (ThreadTO u) k"
  shows "sched_wf S k'"
proof -
  note D = sched_wfD [OF w]
  have rd: "z_is_thread_ready u k' = z_is_thread_ready u k" if "u \<noteq> t" for u
    using same(3,7) that by (simp add: ready_iff)
  have nq: "\<not> queued k t" using not_queued_ex [OF w t] .
  have ti: "t \<noteq> z_idle_thread" using D(6) t by auto
  show ?thesis
  proof (rule sched_wfI)
    show "z_is_thread_ready u k' \<and> u \<noteq> z_idle_thread \<and> u \<notin> S" if "queued k' u" for u
      using that nq D(4) [of u] rd [of u] same(3) by metis
    show "queued k' u" if "z_is_thread_ready u k'" "u \<noteq> z_idle_thread" "u \<notin> S" for u
      using that t D(5) [of u] rd [of u] same(3) by metis
    show "z_is_thread_ready z_idle_thread k'" using D(7) rd [of z_idle_thread] ti by blast
    show "z_is_thread_pending (threads k' u)" if "pended_on (threads k' u) \<noteq> None" for u
      using that unfolding same by (rule D(10))
  qed (unfold same(1-5), (rule D(1,2,3,6,15,8,9,11,13,14) same(6))+)
qed

lemma sched_wf_abort_thread_timeout:
  assumes "sched_wf S k" "t \<in> S"
  shows "sched_wf S (snd (z_abort_timeout (ThreadTO t) k))"
  using sched_wfD(12) [OF assms(1)] by (intro sched_wf_timeout [OF assms]) simp_all

lemma sched_wf_add_thread_timeout:
  assumes "sched_wf S k" "t \<in> S" "\<not> to_linked (ThreadTO t) k"
  shows "sched_wf S (z_add_timeout (ThreadTO t) fn n k)"
  using sched_wfD(12,13) [OF assms(1)] assms(3)
  by (intro sched_wf_timeout [OF assms(1,2)]) (simp_all add: wf_add_timeout fault_add_timeout)

text \<open>Onto and off a wait queue.\<close>

lemma sched_wf_waitq_add:
  fixes q :: wq
  assumes w: "sched_wf S k" and t: "t \<in> S" "pended_on (threads k t) = None" "z_is_thread_pending (threads k t)"
  defines "k' \<equiv> waitq_add q t (upd_thread t (\<lambda>th. th\<lparr>pended_on := Some q\<rparr>) k)"
  shows "sched_wf S k'"
proof -
  note D = sched_wfD [OF w]
  have nq: "\<not> queued k t" "t \<notin> set (runq k)" using not_queued_ex [OF w t(1)] D(3) by auto
  have ti: "t \<noteq> z_idle_thread" using D(6) t by auto
  have k': "runq k' = runq k" "clk_elapsed k' = clk_elapsed k" "timeout_wf k' = timeout_wf k"
    "\<And>u. to_linked u k' = to_linked u k"
    "\<And>u. threads k' u = (if u = t then (threads k t)\<lparr>pended_on := Some q\<rparr> else threads k u)"
    "\<And>p. set (waitqs k' p) = (if p = q then insert t (set (waitqs k q)) else set (waitqs k p))"
    by (auto simp: k'_def waitq_add_def)
  have nw: "t \<notin> set (waitqs k p)" for p using D(9) [of t p] t(2) by simp
  have rd: "z_is_thread_ready u k' = z_is_thread_ready u k" for u
    by (auto simp: ready_iff state_flags k')
  have qd: "queued k' u = queued k u" for u by (auto simp: state_flags k')
  show ?thesis
  proof (rule sched_wfI)
    show "sorted_wrt (\<lambda>a b. prio (threads k' a) \<le> prio (threads k' b)) (runq k')"
      using D(2) unfolding k'(1) by (rule sorted_wrt_mono_rel [rotated]) (auto simp: k')
    show "distinct (waitqs k' p)" for p using D(8) nw by (auto simp: k'_def waitq_add_def)
    show "u \<in> set (waitqs k' p) \<longleftrightarrow> pended_on (threads k' u) = Some p" for p u
      using D(9) [of u p] nw [of p] by (auto simp: k')
    show "z_is_thread_pending (threads k' u)" if "pended_on (threads k' u) \<noteq> None" for u
      using that D(10) [of u] t(3) by (auto simp: k' state_flags split: if_splits)
    show "-128 \<le> prio (threads k' u) \<and> prio (threads k' u) \<le> 127" for u using D(11) [of u] by (auto simp: k')
    show "sched_locked (threads k' z_idle_thread) = 0 \<and> 0 \<le> prio (threads k' z_idle_thread)"
      using D(15) ti by (auto simp: k')
    show "\<not> fault k'" using D(14) nw nq(2) by (simp add: k'_def waitq_add_def)
    show "u \<in> set (runq k') \<longleftrightarrow> queued k' u" for u unfolding k'(1) qd by (rule D(3))
    show "z_is_thread_ready u k' \<and> u \<noteq> z_idle_thread \<and> u \<notin> S" if "queued k' u" for u
      using that D(4) [of u] unfolding qd rd by blast
    show "queued k' u" if "z_is_thread_ready u k'" "u \<noteq> z_idle_thread" "u \<notin> S" for u
      using that D(5) [of u] unfolding qd rd by blast
  qed (use D(1,6,7,12,13) in \<open>simp_all add: k' rd\<close>)
qed

lemma sched_wf_unpend:
  assumes w: "sched_wf S k" and t: "pended_on (threads k t) = Some q"
  defines "k' \<equiv> unpend_thread_no_timeout t k"
  shows "sched_wf (insert t S) k'"
proof -
  note D = sched_wfD [OF w]
  have pend: "z_is_thread_pending (threads k t)" using D(10) [of t] t by simp
  then have "\<not> z_is_thread_ready t k" by (auto simp: ready_iff state_flags)
  then have nq: "\<not> queued k t" and ti: "t \<noteq> z_idle_thread" using D(4) [of t] D(7) by auto
  have k': "runq k' = runq k" "clk_elapsed k' = clk_elapsed k" "timeout_wf k' = timeout_wf k"
    "\<And>u. to_linked u k' = to_linked u k"
    "\<And>u. threads k' u = (if u = t then (z_mark_thread_as_not_pending (threads k t))\<lparr>pended_on := None\<rparr> else threads k u)"
    "\<And>p. waitqs k' p = (if p = q then remove1 t (waitqs k q) else waitqs k p)"
    using t by (auto simp: k'_def unpend_thread_no_timeout_def waitq_remove_def z_priq_dumb_remove_def)
  have rd: "z_is_thread_ready u k' = z_is_thread_ready u k" if "u \<noteq> t" for u
    using that by (auto simp: ready_iff k')
  have qd: "queued k' u = queued k u" for u by (auto simp: state_flags k')
  show ?thesis
  proof (rule sched_wfI)
    show "sorted_wrt (\<lambda>a b. prio (threads k' a) \<le> prio (threads k' b)) (runq k')"
      using D(2) unfolding k'(1) by (rule sorted_wrt_mono_rel [rotated]) (auto simp: k')
    show "distinct (waitqs k' p)" for p using D(8) by (auto simp: k')
    show "u \<in> set (waitqs k' p) \<longleftrightarrow> pended_on (threads k' u) = Some p" for p u
      using D(9) [of u p] D(8) [of q] t by (auto simp: k')
    show "z_is_thread_pending (threads k' u)" if "pended_on (threads k' u) \<noteq> None" for u
      using that D(10) [of u] by (auto simp: k' split: if_splits)
    show "-128 \<le> prio (threads k' u) \<and> prio (threads k' u) \<le> 127" for u using D(11) [of u] by (auto simp: k')
    show "sched_locked (threads k' z_idle_thread) = 0 \<and> 0 \<le> prio (threads k' z_idle_thread)"
      using D(15) ti by (auto simp: k')
    show "\<not> fault k'" using D(14) D(9) [of t q] t by (simp add: k'_def unpend_thread_no_timeout_def waitq_remove_def)
    show "u \<in> set (runq k') \<longleftrightarrow> queued k' u" for u unfolding k'(1) qd by (rule D(3))
    show "z_is_thread_ready u k' \<and> u \<noteq> z_idle_thread \<and> u \<notin> insert t S" if "queued k' u" for u
      using that nq D(4) [of u] rd [of u] unfolding qd by blast
    show "queued k' u" if "z_is_thread_ready u k'" "u \<noteq> z_idle_thread" "u \<notin> insert t S" for u
      using that D(5) [of u] rd [of u] unfolding qd by blast
    show "z_idle_thread \<notin> insert t S" "z_is_thread_ready z_idle_thread k'" using D(6,7) ti rd by auto
  qed (use D(1,12,13) in \<open>simp_all add: k'\<close>)
qed

section \<open>Choosing the next thread\<close>

lemma update_cache_simps [simp]:
  "threads (update_cache p k) = threads k" "runq (update_cache p k) = runq k"
  "waitqs (update_cache p k) = waitqs k" "current_thread (update_cache p k) = current_thread k"
  "in_isr (update_cache p k) = in_isr k" "irq_unlocked (update_cache p k) = irq_unlocked k"
  "mem (update_cache p k) = mem k" "cells (update_cache p k) = cells k"
  "slice_ticks (update_cache p k) = slice_ticks k" "slice_max_prio (update_cache p k) = slice_max_prio k"
  by (auto simp: update_cache_def Let_def)

lemma update_cache_linked:
  assumes "timeout_wf k"
  shows "to_linked (ThreadTO t) (update_cache p k) = to_linked (ThreadTO t) k"
  using assms by (auto simp: update_cache_def Let_def reset_slice_linked)

lemma sched_wf_upds [simp]:
  "sched_wf S (k\<lparr>cache := c\<rparr>) = sched_wf S k" "sched_wf S (k\<lparr>current_thread := c\<rparr>) = sched_wf S k"
  "sched_wf S (k\<lparr>irq_unlocked := b\<rparr>) = sched_wf S k" "sched_wf S (k\<lparr>in_isr := b\<rparr>) = sched_wf S k"
  "sched_wf S (k\<lparr>slice_ticks := i\<rparr>) = sched_wf S k" "sched_wf S (k\<lparr>slice_max_prio := i\<rparr>) = sched_wf S k"
  "sched_wf S (k\<lparr>slice_expired := b\<rparr>) = sched_wf S k"
  "sched_wf S (k\<lparr>mem := m\<rparr>) = sched_wf S k" "sched_wf S (k\<lparr>cells := m'\<rparr>) = sched_wf S k"
  by (simp_all add: sched_wf_def ready_iff)

lemma sched_wf_update_cache: "sched_wf S k \<Longrightarrow> sched_wf S (update_cache p k)"
  by (auto simp: update_cache_def Let_def intro: sched_wf_reset_slice)

lemma next_up_mem: "next_up k \<in> set (runq k) \<or> next_up k = z_idle_thread \<and> runq k = []"
  by (cases "runq k") (auto simp: next_up_def runq_best_def z_priq_dumb_best_def)

lemma idle_is_preempt: "sched_wf S k \<Longrightarrow> is_preempt (threads k z_idle_thread)"
  using sched_wfD(11,15) [of S k] by (simp add: is_preempt_iff)

lemma cache_update_cache:
  assumes "sched_wf S k" "p \<or> current_thread k \<notin> S \<and> \<not> to_linked (ThreadTO (current_thread k)) k"
  shows "cache_ok (update_cache p k)"
proof (cases "should_preempt (next_up k) p k")
  case True
  then have "cache (update_cache p k) = next_up k" by (simp add: update_cache_def Let_def)
  then show ?thesis by (simp add: cache_ok_def next_up_frame [of "update_cache p k" k])
next
  case False
  let ?c = "current_thread k"
  have c: "cache (update_cache p k) = ?c" using False by (simp add: update_cache_def Let_def)
  have np: "\<not> p" "\<not> prevented k ?c" "\<not> is_preempt (threads k ?c)"
    using False by (auto simp: should_preempt_def split: if_splits)
  then have "?c \<noteq> z_idle_thread" using idle_is_preempt [OF assms(1)] by metis
  moreover have "z_is_thread_ready ?c k" using assms(2) np by (simp add: ready_iff)
  ultimately have "?c \<in> set (runq k)" using sched_wfD(3,5) [OF assms(1), of ?c] assms(2) np(1) by blast
  with c np show ?thesis by (simp add: cache_ok_def)
qed

lemma cache_mem:
  "cache_ok k \<Longrightarrow> cache k \<in> set (runq k) \<or> cache k = z_idle_thread"
  using next_up_mem [of k] by (auto simp: cache_ok_def)

section \<open>Preservation, operation by operation\<close>

lemma quiet_frame:
  "quiet k \<Longrightarrow> threads k' = threads k \<Longrightarrow> quiet k'"
  by (simp add: quiet_def)

lemma quiet_upd:
  assumes "quiet k" "\<And>th. no_wake_on_timeout (f th) \<Longrightarrow> no_wake_on_timeout th"
    "\<And>th. bit (thread_state (f th)) 5 \<Longrightarrow> bit (thread_state th) 5"
  shows "quiet (upd_thread t f k)"
  using assms by (auto simp: quiet_def)

lemma marks_no_wake [simp]:
  "no_wake_on_timeout (z_mark_thread_as_suspended th) = no_wake_on_timeout th"
  "no_wake_on_timeout (z_mark_thread_as_not_suspended th) = no_wake_on_timeout th"
  "no_wake_on_timeout (z_mark_thread_as_started th) = no_wake_on_timeout th"
  "no_wake_on_timeout (z_mark_thread_as_pending th) = no_wake_on_timeout th"
  "no_wake_on_timeout (z_mark_thread_as_not_pending th) = no_wake_on_timeout th"
  "no_wake_on_timeout (z_set_thread_states s th) = no_wake_on_timeout th"
  "no_wake_on_timeout (z_reset_thread_states s th) = no_wake_on_timeout th"
  by (auto simp: z_mark_thread_as_suspended_def z_mark_thread_as_not_suspended_def z_mark_thread_as_started_def
      z_mark_thread_as_pending_def z_mark_thread_as_not_pending_def z_set_thread_states_def z_reset_thread_states_def)

lemma quiet_queue [simp]:
  "quiet k \<Longrightarrow> quiet (queue_thread t k)" "quiet k \<Longrightarrow> quiet (dequeue_thread t k)"
  by (auto simp: quiet_def)

lemma kinv_exD:
  assumes "kinv_ex S k"
  shows "sched_wf S k" "cache_ok k" "\<not> to_linked (ThreadTO (current_thread k)) k" "quiet k"
  using assms by (auto simp: kinv_ex_def)

text \<open>Readying a thread in transit puts it where it belongs.\<close>

lemma kinv_ready_thread:
  assumes i: "kinv_ex S k" and t: "t \<in> S" "current_thread k \<notin> S - {t}"
  shows "kinv_ex (S - {t}) (ready_thread t k)"
proof (cases "z_is_thread_ready t k")
  case True
  note D = kinv_exD [OF i]
  note w = sched_wf_queue [OF D(1) t(1) True]
  have nq: "\<not> queued k t" using not_queued_ex [OF D(1) t(1)] .
  have "cache_ok (update_cache False (queue_thread t k))"
    using D(3) t(2) by (intro cache_update_cache [OF w]) simp
  moreover have "\<not> to_linked (ThreadTO (current_thread k)) (update_cache False (queue_thread t k))"
    using D(3) sched_wfD(12) [OF w] by (simp add: update_cache_linked)
  moreover have "quiet (update_cache False (queue_thread t k))"
    using D(4) by (rule quiet_frame [OF quiet_queue(1)]) simp
  ultimately show ?thesis
    using True nq sched_wf_update_cache [OF w, of False] by (simp add: ready_thread_def kinv_ex_def)
next
  case False
  then show ?thesis
    using kinv_exD [OF i] sched_wf_release [of S k t] by (simp add: ready_thread_def kinv_ex_def)
qed

lemma ready_thread_noop: "sched_wf S k \<Longrightarrow> t \<notin> S \<Longrightarrow> t \<noteq> z_idle_thread \<Longrightarrow> ready_thread t k = k"
  using sched_wfD(5) by (fastforce simp: ready_thread_def)

lemma kinv_grow:
  "kinv_ex S k \<Longrightarrow> \<not> queued k t \<Longrightarrow> t \<noteq> z_idle_thread \<Longrightarrow> kinv_ex (insert t S) k"
  by (auto simp: kinv_ex_def intro: sched_wf_grow)

lemma kinv_release: "kinv_ex S k \<Longrightarrow> \<not> z_is_thread_ready t k \<Longrightarrow> kinv_ex (S - {t}) k"
  by (auto simp: kinv_ex_def intro: sched_wf_release)

lemma kinv_upd:
  assumes "kinv_ex S k" "t \<in> S"
    "\<And>th. bit (thread_state (f th)) 7 \<Longrightarrow> bit (thread_state th) 7" "\<And>th. pended_on (f th) = pended_on th"
    "\<And>th. bit (thread_state th) 1 \<Longrightarrow> bit (thread_state (f th)) 1"
    "\<And>th. prio (f th) = prio th" "\<And>th. sched_locked (f th) = sched_locked th"
    "\<And>th. no_wake_on_timeout (f th) \<Longrightarrow> no_wake_on_timeout th"
    "\<And>th. bit (thread_state (f th)) 5 \<Longrightarrow> bit (thread_state th) 5"
  shows "kinv_ex S (upd_thread t f k)"
proof -
  note D = kinv_exD [OF assms(1)]
  have "\<not> bit (thread_state (threads k t)) 7" using not_queued_ex [OF D(1) assms(2)] by (simp add: state_flags)
  moreover have "pended_on (threads k t) \<noteq> None \<Longrightarrow> bit (thread_state (threads k t)) 1"
    using sched_wfD(10) [OF D(1), of t] unfolding state_flags .
  ultimately have "sched_wf S (upd_thread t f k)"
    using sched_wfD(11) [OF D(1), of t] assms(3-6) by (intro sched_wf_upd [OF D(1) assms(2)]) auto
  moreover have "cache_ok (upd_thread t f k)" using assms(6,7) by (intro cache_ok_frame [OF D(2)]) auto
  ultimately show ?thesis using D(3) quiet_upd [OF D(4), of f t] assms(8,9) by (simp add: kinv_ex_def)
qed

text \<open>Fields of a thread that the invariant does not mention, as an instance of any thread.\<close>

lemma kinv_upd_other:
  assumes "kinv_ex S k"
    "\<And>th. thread_state (f th) = thread_state th" "\<And>th. pended_on (f th) = pended_on th"
    "\<And>th. prio (f th) = prio th" "\<And>th. sched_locked (f th) = sched_locked th"
    "\<And>th. no_wake_on_timeout (f th) \<Longrightarrow> no_wake_on_timeout th"
  shows "kinv_ex S (upd_thread t f k)"
proof -
  note D = kinv_exD [OF assms(1)]
  have "sched_wf S (upd_thread t f k)"
    using assms(2-5) sched_wfD(12) [OF D(1)] by (intro sched_wf_frame [OF D(1)]) auto
  moreover have "cache_ok (upd_thread t f k)" using assms by (intro cache_ok_frame [OF D(2)]) auto
  ultimately show ?thesis using D(3) quiet_upd [OF D(4), of f t] assms by (simp add: kinv_ex_def)
qed

lemma kinv_upds [simp]:
  "kinv_ex S (k\<lparr>irq_unlocked := b\<rparr>) = kinv_ex S k" "kinv_ex S (k\<lparr>in_isr := b\<rparr>) = kinv_ex S k"
  "kinv_ex S (k\<lparr>mem := m\<rparr>) = kinv_ex S k" "kinv_ex S (k\<lparr>cells := m'\<rparr>) = kinv_ex S k"
  "kinv_ex S (k\<lparr>slice_expired := b\<rparr>) = kinv_ex S k"
  by (auto simp: kinv_ex_def quiet_def cache_ok_def next_up_def runq_best_def)

lemma kinv_reset_slice: "kinv_ex S k \<Longrightarrow> kinv_ex S (z_reset_time_slice t k)"
  using sched_wfD(12) [of S k]
  by (auto simp: kinv_ex_def sched_wf_reset_slice reset_slice_linked quiet_def cache_ok_def
      next_up_def runq_best_def)

lemma kinv_abort_timeout:
  assumes "kinv_ex S k" "t \<in> S"
  shows "kinv_ex S (snd (z_abort_timeout (ThreadTO t) k))"
  using assms sched_wfD(12) [of S k]
  by (auto simp: kinv_ex_def sched_wf_abort_thread_timeout quiet_def cache_ok_def next_up_def runq_best_def)

lemma abort_unlinked: "\<not> to_linked t k \<Longrightarrow> snd (z_abort_timeout t k) = k"
  by (simp add: z_abort_timeout_def)

lemma unpend_simps [simp]:
  "runq (unpend_thread_no_timeout t k) = runq k" "current_thread (unpend_thread_no_timeout t k) = current_thread k"
  "cache (unpend_thread_no_timeout t k) = cache k" "in_isr (unpend_thread_no_timeout t k) = in_isr k"
  "irq_unlocked (unpend_thread_no_timeout t k) = irq_unlocked k"
  "mem (unpend_thread_no_timeout t k) = mem k" "cells (unpend_thread_no_timeout t k) = cells k"
  "to_linked u (unpend_thread_no_timeout t k) = to_linked u k"
  "timeout_wf (unpend_thread_no_timeout t k) = timeout_wf k"
  "prio (threads (unpend_thread_no_timeout t k) v) = prio (threads k v)"
  "sched_locked (threads (unpend_thread_no_timeout t k) v) = sched_locked (threads k v)"
  "no_wake_on_timeout (threads (unpend_thread_no_timeout t k) v) = no_wake_on_timeout (threads k v)"
  by (auto simp: unpend_thread_no_timeout_def waitq_remove_def split: option.splits)

lemma kinv_unpend:
  assumes "kinv_ex S k" "pended_on (threads k t) = Some q"
  shows "kinv_ex (insert t S) (unpend_thread_no_timeout t k)"
proof -
  note D = kinv_exD [OF assms(1)]
  have "cache_ok (unpend_thread_no_timeout t k)" by (intro cache_ok_frame [OF D(2)]) simp_all
  moreover have "quiet (unpend_thread_no_timeout t k)"
    using D(4) assms(2) by (auto simp: quiet_def unpend_thread_no_timeout_def waitq_remove_def)
  ultimately show ?thesis using D(3) sched_wf_unpend [OF D(1) assms(2)] by (simp add: kinv_ex_def)
qed

section \<open>Context switches\<close>

lemma ready_not_linked: "z_is_thread_ready t k \<Longrightarrow> \<not> to_linked (ThreadTO t) k"
  by (simp add: ready_iff)

lemma running_not_linked:
  "sched_wf S k \<Longrightarrow> t \<in> set (runq k) \<or> t = z_idle_thread \<Longrightarrow> \<not> to_linked (ThreadTO t) k"
  using sched_wfD(3,4,7) by (metis ready_not_linked)

lemma kinv_do_swap:
  assumes w: "sched_wf {} k" and c: "cache_ok k" and q: "quiet k"
  shows "kinv (do_swap key k)"
proof (cases "cache k = current_thread k")
  case True
  let ?k = "upd_thread (current_thread k) (\<lambda>th. th\<lparr>swap_retval := - EAGAIN\<rparr>) k"
  have "\<not> to_linked (ThreadTO (current_thread k)) k"
    using running_not_linked [OF w cache_mem [OF c]] True by simp
  then have "kinv k" using assms by (simp add: kinv_ex_def)
  then have "kinv ?k" by (rule kinv_upd_other) simp_all
  with True show ?thesis by (simp add: do_swap_def Let_def z_swap_next_thread_def)
next
  case False
  let ?o = "current_thread k" and ?n = "cache k"
  let ?k2 = "upd_thread ?o (\<lambda>th. th\<lparr>swap_key := key\<rparr>) (upd_thread ?o (\<lambda>th. th\<lparr>swap_retval := - EAGAIN\<rparr>) k)"
  have w2: "sched_wf {} ?k2"
    using sched_wfD(12) [OF w] by (intro sched_wf_frame [OF w]) simp_all
  have n: "?n = next_up k" using c False by (auto simp: cache_ok_def)
  have "\<not> to_linked (ThreadTO ?n) k" using running_not_linked [OF w cache_mem [OF c]] .
  then have "kinv (?k2\<lparr>current_thread := ?n\<rparr>)"
    using w2 n q by (simp add: kinv_ex_def cache_ok_def next_up_def runq_best_def quiet_def)
  then have "kinv (z_reset_time_slice ?n (?k2\<lparr>current_thread := ?n\<rparr>))" by (rule kinv_reset_slice)
  with False show ?thesis by (simp add: do_swap_def Let_def z_swap_next_thread_def)
qed

lemma kinv_swap [inv_intro]: "kinv k \<Longrightarrow> kinv (z_swap key k)"
  by (simp add: z_swap_def kinv_do_swap kinv_exD)

lemma kinv_reschedule [inv_intro]:
  "kinv k \<Longrightarrow> kinv (z_reschedule key k)" "kinv k \<Longrightarrow> kinv (z_reschedule_irqlock key k)"
  "kinv k \<Longrightarrow> kinv (z_reschedule_unlocked k)"
  by (simp_all add: z_reschedule_def z_reschedule_irqlock_def z_reschedule_unlocked_def z_swap_def
      z_swap_irqlock_def kinv_do_swap kinv_exD k_spin_unlock_def k_spin_lock_def)

lemma kinv_switch_handle [inv_intro]:
  assumes "kinv k"
  shows "kinv (z_get_next_switch_handle k)"
proof -
  let ?k = "upd_thread (current_thread k) (\<lambda>th. th\<lparr>swap_key := True\<rparr>) k"
  have i: "kinv ?k" using assms by (rule kinv_upd_other) simp_all
  note D = kinv_exD [OF i]
  have "\<not> to_linked (ThreadTO (cache ?k)) ?k" using running_not_linked [OF D(1) cache_mem [OF D(2)]] .
  moreover have "cache_ok (?k\<lparr>current_thread := cache ?k\<rparr>)"
    using D(2) by (auto simp: cache_ok_def next_up_def runq_best_def)
  ultimately have "kinv (?k\<lparr>current_thread := cache ?k\<rparr>)" using D by (simp add: kinv_ex_def quiet_def)
  then show ?thesis by (simp add: z_get_next_switch_handle_def Let_def)
qed

end
