(* ===== verification/Sched_Ops.thy ===== *)
theory Sched_Ops
  imports Sched_Inv
begin

text \<open>
  Every operation of the scheduler keeps the invariant of the theory \<open>Sched_Inv\<close>: a
  thread that starts, stops, waits, is woken by another thread or by its
  timeout, changes its priority, yields, sleeps, ends or is created. The loops
  that empty a wait queue share one locale.
\<close>

section \<open>Threads that start, stop and wait\<close>

definition base_inv :: "tid set \<Rightarrow> 'a kernel_scheme \<Rightarrow> bool" where
  "base_inv S k \<longleftrightarrow> sched_wf S k \<and> \<not> to_linked (ThreadTO (current_thread k)) k \<and> quiet k"

lemma kinv_base: "kinv_ex S k \<Longrightarrow> base_inv S k"
  by (simp add: base_inv_def kinv_ex_def)

lemma base_update_cache:
  assumes "base_inv S k" "p \<or> current_thread k \<notin> S"
  shows "kinv_ex S (update_cache p k)"
proof -
  have w: "sched_wf S k" and l: "\<not> to_linked (ThreadTO (current_thread k)) k" and q: "quiet k"
    using assms(1) by (auto simp: base_inv_def)
  show ?thesis
    using sched_wf_update_cache [OF w, of p] cache_update_cache [OF w, of p] assms(2) l q sched_wfD(12) [OF w]
    by (auto simp: kinv_ex_def update_cache_linked quiet_def)
qed

lemma kinv_ready_one [inv_intro]: "kinv_ex {t} k \<Longrightarrow> kinv (ready_thread t k)"
  using kinv_ready_thread [of "{t}" k t] by simp

lemma kinv_transit: "kinv k \<Longrightarrow> \<not> queued k t \<Longrightarrow> t \<noteq> z_idle_thread \<Longrightarrow> kinv_ex {t} k"
  using kinv_grow [of "{}" k t] by simp

lemma kinv_land: "kinv_ex {t} k \<Longrightarrow> \<not> z_is_thread_ready t k \<Longrightarrow> kinv k"
  using kinv_release [of "{t}" k t] by simp

lemma prevented_not_queued: "sched_wf S k \<Longrightarrow> prevented k t \<Longrightarrow> \<not> queued k t"
  using sched_wfD(4) [of S k t] by (auto simp: ready_iff)

lemma linked_not_queued: "sched_wf S k \<Longrightarrow> to_linked (ThreadTO t) k \<Longrightarrow> \<not> queued k t"
  using sched_wfD(4) [of S k t] by (auto simp: ready_iff)

lemma kinv_spin [simp]:
  "kinv_ex S (snd (k_spin_lock k)) = kinv_ex S k" "kinv_ex S (k_spin_unlock key k) = kinv_ex S k"
  by (simp_all add: k_spin_lock_def k_spin_unlock_def)

lemma kinv_sched_start [inv_intro]:
  assumes "kinv k" "t \<noteq> z_idle_thread"
  shows "kinv (z_sched_start t k)"
proof (cases "z_has_thread_started (threads k t)")
  case True
  with assms show ?thesis by (simp add: z_sched_start_def k_spin_lock_def k_spin_unlock_def)
next
  case False
  then have "\<not> queued k t" using prevented_not_queued [OF kinv_exD(1) [OF assms(1)], of t] by (simp add: state_flags)
  with assms have "kinv_ex {t} (k\<lparr>irq_unlocked := False\<rparr>)" by (simp add: kinv_transit)
  then have "kinv_ex {t} (upd_thread t z_mark_thread_as_started (k\<lparr>irq_unlocked := False\<rparr>))"
    by (rule kinv_upd) simp_all
  then have "kinv (ready_thread t (upd_thread t z_mark_thread_as_started (k\<lparr>irq_unlocked := False\<rparr>)))"
    by (rule kinv_ready_one)
  with False show ?thesis by (simp add: z_sched_start_def k_spin_lock_def kinv_reschedule)
qed

lemma kinv_resume [inv_intro]:
  assumes "kinv k" "t \<noteq> z_idle_thread"
  shows "kinv (k_thread_resume t k)"
proof (cases "z_is_thread_suspended (threads k t)")
  case False
  with assms show ?thesis by (simp add: k_thread_resume_def k_spin_lock_def k_spin_unlock_def)
next
  case True
  then have "\<not> queued k t" using prevented_not_queued [OF kinv_exD(1) [OF assms(1)], of t] by (simp add: state_flags)
  with assms have "kinv_ex {t} (k\<lparr>irq_unlocked := False\<rparr>)" by (simp add: kinv_transit)
  then have "kinv_ex {t} (upd_thread t z_mark_thread_as_not_suspended (k\<lparr>irq_unlocked := False\<rparr>))"
    by (rule kinv_upd) simp_all
  then have "kinv (ready_thread t (upd_thread t z_mark_thread_as_not_suspended (k\<lparr>irq_unlocked := False\<rparr>)))"
    by (rule kinv_ready_one)
  with True show ?thesis by (simp add: k_thread_resume_def k_spin_lock_def kinv_reschedule)
qed

text \<open>Taking a thread off the run queue, whether it is on it or not.\<close>

lemma base_dequeue:
  assumes "base_inv {} k" "t \<noteq> z_idle_thread"
  shows "base_inv {t} (if queued k t then dequeue_thread t k else k)"
  using assms sched_wf_dequeue [of "{}" k t] sched_wf_grow [of "{}" k t] by (auto simp: base_inv_def)

lemma base_upd:
  assumes "base_inv S k" "t \<in> S"
    "\<And>th. bit (thread_state (f th)) 7 \<Longrightarrow> bit (thread_state th) 7" "\<And>th. pended_on (f th) = pended_on th"
    "\<And>th. bit (thread_state th) 1 \<Longrightarrow> bit (thread_state (f th)) 1"
    "\<And>th. -128 \<le> prio th \<and> prio th \<le> 127 \<Longrightarrow> -128 \<le> prio (f th) \<and> prio (f th) \<le> 127"
    "\<And>th. no_wake_on_timeout (f th) \<Longrightarrow> no_wake_on_timeout th"
    "\<And>th. bit (thread_state (f th)) 5 \<Longrightarrow> bit (thread_state th) 5"
  shows "base_inv S (upd_thread t f k)"
proof -
  have w: "sched_wf S k" and l: "\<not> to_linked (ThreadTO (current_thread k)) k" and q: "quiet k"
    using assms(1) by (auto simp: base_inv_def)
  have "\<not> bit (thread_state (threads k t)) 7" using not_queued_ex [OF w assms(2)] by (simp add: state_flags)
  moreover have "pended_on (threads k t) \<noteq> None \<Longrightarrow> bit (thread_state (threads k t)) 1"
    using sched_wfD(10) [OF w, of t] unfolding state_flags .
  ultimately have "sched_wf S (upd_thread t f k)"
    using assms(3-6) sched_wfD(11) [OF w, of t] by (intro sched_wf_upd [OF w assms(2)]) auto
  then show ?thesis using l quiet_upd [OF q, of f t] assms(7,8) by (simp add: base_inv_def)
qed

lemma base_land: "base_inv {t} k \<Longrightarrow> \<not> z_is_thread_ready t k \<Longrightarrow> base_inv {} k"
  using sched_wf_release [of "{t}" k t] by (simp add: base_inv_def)

lemma kinv_maybe_reschedule: "kinv k \<Longrightarrow> kinv (if b then z_reschedule_unlocked k else k)"
  by (simp add: kinv_reschedule)

lemma kinv_suspend [inv_intro]:
  assumes "kinv k" "t \<noteq> z_idle_thread"
  shows "kinv (k_thread_suspend t k)"
proof -
  let ?k1 = "snd (z_abort_timeout (ThreadTO t) k)"
  let ?k2 = "if queued ?k1 t then dequeue_thread t ?k1 else ?k1"
  let ?k3 = "upd_thread t z_mark_thread_as_suspended ?k2"
  note D = kinv_exD [OF assms(1)]
  have "base_inv {t} ?k2"
  proof (cases "queued k t")
    case True
    then have "\<not> to_linked (ThreadTO t) k" using linked_not_queued [OF D(1)] by blast
    then show ?thesis using base_dequeue [OF kinv_base [OF assms(1)] assms(2)] True by (simp add: abort_unlinked)
  next
    case False
    then have "kinv_ex {t} ?k1" using assms by (intro kinv_abort_timeout kinv_transit) simp_all
    with False show ?thesis by (simp add: kinv_base)
  qed
  then have "base_inv {t} ?k3" by (rule base_upd) simp_all
  then have "base_inv {} ?k3" by (rule base_land) (simp add: ready_iff state_flags)
  then have "kinv (update_cache (t = current_thread ?k3) ?k3)" by (rule base_update_cache) simp
  then show ?thesis
    unfolding k_thread_suspend_def z_abort_thread_timeout_def Let_def by (rule kinv_maybe_reschedule)
qed

section \<open>Blocking the current thread\<close>

text \<open>A thread that runs in thread context and is not the idle thread.\<close>

definition runs :: "'a kernel_scheme \<Rightarrow> bool" where
  "runs k \<longleftrightarrow> current_thread k \<in> set (runq k)"

lemma unready_current:
  assumes "kinv k" "runs k"
  defines "c \<equiv> current_thread k"
  shows "kinv_ex {c} (unready_thread c k)" "cache (unready_thread c k) = next_up (dequeue_thread c k)"
    "next_up (dequeue_thread c k) \<noteq> c"
proof -
  note w = kinv_exD(1) [OF assms(1)]
  have q: "queued k c" using assms(2) sched_wfD(3) [OF w] by (simp add: runs_def c_def)
  then have u: "unready_thread c k = update_cache True (dequeue_thread c k)"
    by (simp add: unready_thread_def c_def)
  have ci: "c \<noteq> z_idle_thread" using sched_wfD(4) [OF w q] by blast
  have "base_inv {c} (dequeue_thread c k)" using base_dequeue [OF kinv_base [OF assms(1)] ci] q by simp
  then show "kinv_ex {c} (unready_thread c k)" unfolding u by (rule base_update_cache) simp
  show "cache (unready_thread c k) = next_up (dequeue_thread c k)"
    unfolding u by (simp add: update_cache_def should_preempt_def Let_def)
  show "next_up (dequeue_thread c k) \<noteq> c"
    using next_up_mem [of "dequeue_thread c k"] sched_wfD(1) [OF w] ci by auto
qed

lemma unready_simps:
  "waitqs (unready_thread t k) = waitqs k" "current_thread (unready_thread t k) = current_thread k"
  "pended_on (threads (unready_thread t k) u) = pended_on (threads k u)"
  "prio (threads (unready_thread t k) u) = prio (threads k u)"
  "sched_locked (threads (unready_thread t k) u) = sched_locked (threads k u)"
  "no_wake_on_timeout (threads (unready_thread t k) u) = no_wake_on_timeout (threads k u)"
  "irq_unlocked (unready_thread t k) = irq_unlocked k" "in_isr (unready_thread t k) = in_isr k"
  "mem (unready_thread t k) = mem k" "cells (unready_thread t k) = cells k"
  by (auto simp: unready_thread_def Let_def)

lemma unready_linked:
  "timeout_wf k \<Longrightarrow> to_linked (ThreadTO u) (unready_thread t k) = to_linked (ThreadTO u) k"
  by (auto simp: unready_thread_def Let_def update_cache_linked)

lemma cache_ok_upd_off:
  "t \<notin> set (runq k) \<Longrightarrow> cache_ok (upd_thread t f k) = cache_ok k"
  by (auto simp: cache_ok_def next_up_def runq_best_def)

text \<open>The state after \<open>pend_locked\<close> on the current thread, before the switch.\<close>

definition pended :: "wq option \<Rightarrow> 'a kernel_scheme \<Rightarrow> 'a kernel_scheme \<Rightarrow> bool" where
  "pended q k k' \<longleftrightarrow> sched_wf {} k' \<and> cache_ok k' \<and> quiet k' \<and> current_thread k' = current_thread k \<and>
     cache k' \<noteq> current_thread k \<and> z_is_thread_pending (threads k' (current_thread k)) \<and>
     pended_on (threads k' (current_thread k)) = q"

lemma waitq_add_simps [simp]:
  "threads (waitq_add q t k) = threads k" "runq (waitq_add q t k) = runq k"
  "current_thread (waitq_add q t k) = current_thread k" "cache (waitq_add q t k) = cache k"
  "in_isr (waitq_add q t k) = in_isr k" "irq_unlocked (waitq_add q t k) = irq_unlocked k"
  "mem (waitq_add q t k) = mem k" "cells (waitq_add q t k) = cells k"
  "to_linked u (waitq_add q t k) = to_linked u k" "timeout_wf (waitq_add q t k) = timeout_wf k"
  by (auto simp: waitq_add_def)

lemma next_up_congs [simp]:
  "next_up (k\<lparr>cache := c\<rparr>) = next_up k" "next_up (k\<lparr>current_thread := c\<rparr>) = next_up k"
  "next_up (k\<lparr>irq_unlocked := b\<rparr>) = next_up k" "next_up (upd_thread t f k) = next_up k"
  "next_up (waitq_add q t k) = next_up k" "next_up (z_add_timeout to fn n k) = next_up k"
  by (simp_all add: next_up_def runq_best_def)

lemma runs_not_pended: "kinv k \<Longrightarrow> runs k \<Longrightarrow> pended_on (threads k (current_thread k)) = None"
  using pended_not_ready sched_wfD(3,4) kinv_exD(1) unfolding runs_def by metis

lemma pend_current:
  assumes i: "kinv k" and r: "runs k"
  shows "pended wait_q k (pend_locked (current_thread k) wait_q timeout k)"
proof -
  let ?c = "current_thread k"
  let ?k1 = "unready_thread ?c k" and ?m = "upd_thread ?c z_mark_thread_as_pending (unready_thread ?c k)"
  let ?k2 = "add_to_waitq_locked ?c wait_q k" and ?k3 = "pend_locked ?c wait_q timeout k"
  note u = unready_current [OF i r] and np = runs_not_pended [OF i r]
  note twf = sched_wfD(12) [OF kinv_exD(1) [OF i]]
  have m: "kinv_ex {?c} ?m" using u(1) by (rule kinv_upd) simp_all
  have k2: "kinv_ex {?c} ?k2 \<and> cache ?k2 = cache ?k1 \<and> current_thread ?k2 = ?c \<and>
     z_is_thread_pending (threads ?k2 ?c) \<and>
     pended_on (threads ?k2 ?c) = wait_q"
  proof (cases wait_q)
    case None
    with m np show ?thesis by (simp add: add_to_waitq_locked_def unready_simps state_flags)
  next
    case (Some q)
    let ?w = "waitq_add q ?c (upd_thread ?c (\<lambda>th. th\<lparr>pended_on := Some q\<rparr>) ?m)"
    have "sched_wf {?c} ?w"
      using np kinv_exD(1) [OF m] by (intro sched_wf_waitq_add) (simp_all add: unready_simps state_flags)
    moreover have "cache_ok ?w" by (rule cache_ok_frame [OF kinv_exD(2) [OF m]]) simp_all
    moreover have "quiet ?w"
      by (rule quiet_frame [OF quiet_upd [OF kinv_exD(4) [OF m], of "\<lambda>th. th\<lparr>pended_on := Some q\<rparr>" ?c]]) simp_all
    ultimately have "kinv_ex {?c} ?w" using kinv_exD(3) [OF m] by (simp add: kinv_ex_def)
    with Some show ?thesis by (simp add: add_to_waitq_locked_def unready_simps state_flags)
  qed
  have nl: "\<not> to_linked (ThreadTO ?c) ?k2" using kinv_exD(3) k2 by metis
  have w3: "sched_wf {?c} ?k3"
    using k2 nl kinv_exD(1) [of "{?c}" ?k2]
    by (auto simp: pend_locked_def add_thread_timeout_def z_add_thread_timeout_def intro!: sched_wf_add_thread_timeout)
  have th: "threads ?k3 = threads ?k2" "cache ?k3 = cache ?k2" "current_thread ?k3 = current_thread ?k2" "runq ?k3 = runq ?k2"
    by (auto simp: pend_locked_def add_thread_timeout_def z_add_thread_timeout_def)
  have "\<not> z_is_thread_ready ?c ?k3" using k2 by (simp add: ready_iff th state_flags)
  from sched_wf_release [OF w3 this] have "sched_wf {} ?k3" by simp
  moreover have "cache_ok ?k3" using k2 kinv_exD(2) [of "{?c}" ?k2] by (auto intro: cache_ok_frame simp: th)
  moreover have "quiet ?k3" using k2 kinv_exD(4) [of "{?c}" ?k2] by (auto intro: quiet_frame simp: th)
  moreover have "cache ?k3 \<noteq> ?c" using k2 u(2,3) by (simp add: th)
  ultimately show ?thesis using k2 by (simp add: pended_def th)
qed

lemma pended_swap:
  assumes "pended q k k'"
  shows "kinv (z_swap key k')" "current_thread (z_swap key k') \<noteq> current_thread k"
    "current_thread (z_swap key k') = next_up k'"
    "pended_on (threads (z_swap key k') (current_thread k)) = q"
    "z_is_thread_pending (threads (z_swap key k') (current_thread k))"
    "swap_retval (threads (z_swap key k') (current_thread k)) = - EAGAIN"
    "swap_key (threads (z_swap key k') (current_thread k)) = key"
proof -
  note p = assms [unfolded pended_def]
  show "kinv (z_swap key k')" using p by (simp add: z_swap_def kinv_do_swap)
  have "cache k' = next_up k'" using p by (auto simp: cache_ok_def)
  with p show "current_thread (z_swap key k') \<noteq> current_thread k"
    "current_thread (z_swap key k') = next_up k'"
    "pended_on (threads (z_swap key k') (current_thread k)) = q"
    "z_is_thread_pending (threads (z_swap key k') (current_thread k))"
    "swap_retval (threads (z_swap key k') (current_thread k)) = - EAGAIN"
    "swap_key (threads (z_swap key k') (current_thread k)) = key"
    by (simp_all add: z_swap_def do_swap_def z_swap_next_thread_def Let_def state_flags)
qed

lemma kinv_pend_curr [inv_intro]:
  assumes "kinv k" "runs k"
  shows "kinv (z_pend_curr key wait_q timeout k)"
    "current_thread (z_pend_curr key wait_q timeout k) \<noteq> current_thread k"
proof -
  let ?k = "k\<lparr>irq_unlocked := False\<rparr>"
  have "kinv ?k" "runs ?k" using assms by (simp_all add: runs_def)
  from pended_swap(1,2) [OF pend_current [OF this]] show "kinv (z_pend_curr key wait_q timeout k)"
    "current_thread (z_pend_curr key wait_q timeout k) \<noteq> current_thread k"
    by (simp_all add: z_pend_curr_def k_spin_lock_def)
qed

section \<open>Waking\<close>

lemma waitq_head_Some: "z_waitq_head q k = Some t \<longleftrightarrow> (\<exists>ts. waitqs k q = t # ts)"
  by (auto simp: z_waitq_head_def z_priq_dumb_best_def split: list.splits)

lemma waitq_head_None: "z_waitq_head q k = None \<longleftrightarrow> waitqs k q = []"
  by (auto simp: z_waitq_head_def z_priq_dumb_best_def split: list.splits)

lemma head_pended: "sched_wf S k \<Longrightarrow> waitqs k q = t # ts \<Longrightarrow> pended_on (threads k t) = Some q"
  using sched_wfD(9) [of S k t q] by simp

lemma unpend_waitqs:
  "pended_on (threads k t) = Some q \<Longrightarrow>
     waitqs (unpend_thread_no_timeout t k) = (waitqs k)(q := remove1 t (waitqs k q))"
  by (simp add: unpend_thread_no_timeout_def waitq_remove_def z_priq_dumb_remove_def)

lemma unpend_threads:
  "pended_on (threads k t) = Some q \<Longrightarrow> threads (unpend_thread_no_timeout t k) u =
     (if u = t then (z_mark_thread_as_not_pending (threads k t))\<lparr>pended_on := None\<rparr> else threads k u)"
  by (simp add: unpend_thread_no_timeout_def waitq_remove_def)

text \<open>Taking the first thread off a wait queue leaves it in transit, with no timeout.\<close>

lemma kinv_unpend_first:
  assumes i: "kinv k" and q: "waitqs k q = t # ts"
  defines "k' \<equiv> snd (z_unpend_first_thread q k)"
  shows "fst (z_unpend_first_thread q k) = Some t" "kinv_ex {t} k'"
    "waitqs k' = (waitqs k)(q := ts)" "runq k' = runq k" "current_thread k' = current_thread k" "cache k' = cache k"
    "\<not> to_linked (ThreadTO t) k'" "in_isr k' = in_isr k" "irq_unlocked k' = irq_unlocked k"
    "mem k' = mem k" "cells k' = cells k"
    "\<And>u. threads k' u = (if u = t then (z_mark_thread_as_not_pending (threads k t))\<lparr>pended_on := None\<rparr> else threads k u)"
proof -
  note w = kinv_exD(1) [OF i]
  have p: "pended_on (threads k t) = Some q" using head_pended [OF w q] .
  have h: "z_waitq_head q k = Some t" using q by (simp add: waitq_head_Some)
  have k': "k' = snd (z_abort_timeout (ThreadTO t) (unpend_thread_no_timeout t k))"
    using h by (simp add: k'_def z_unpend_first_thread_def z_abort_thread_timeout_def)
  show "fst (z_unpend_first_thread q k) = Some t" using h by (simp add: z_unpend_first_thread_def)
  show "kinv_ex {t} k'" unfolding k' by (rule kinv_abort_timeout [OF kinv_unpend [OF i p]]) simp
  show "waitqs k' = (waitqs k)(q := ts)" using q by (simp add: k' unpend_waitqs [OF p])
  show "\<not> to_linked (ThreadTO t) k'" using sched_wfD(12) [OF w] by (simp add: k')
  show "\<And>u. threads k' u = (if u = t then (z_mark_thread_as_not_pending (threads k t))\<lparr>pended_on := None\<rparr> else threads k u)"
    by (simp add: k' unpend_threads [OF p])
qed (simp_all add: k'_def z_unpend_first_thread_def z_abort_thread_timeout_def split: option.splits)

lemma unpend_first_none: "waitqs k q = [] \<Longrightarrow> z_unpend_first_thread q k = (None, k)"
  by (simp add: z_unpend_first_thread_def z_waitq_head_def z_priq_dumb_best_def)

lemma ready_thread_simps [simp]:
  "waitqs (ready_thread t k) = waitqs k" "current_thread (ready_thread t k) = current_thread k"
  "in_isr (ready_thread t k) = in_isr k" "irq_unlocked (ready_thread t k) = irq_unlocked k"
  "mem (ready_thread t k) = mem k" "cells (ready_thread t k) = cells k"
  "pended_on (threads (ready_thread t k) u) = pended_on (threads k u)"
  "prio (threads (ready_thread t k) u) = prio (threads k u)"
  "sched_locked (threads (ready_thread t k) u) = sched_locked (threads k u)"
  "swap_retval (threads (ready_thread t k) u) = swap_retval (threads k u)"
  "swap_data (threads (ready_thread t k) u) = swap_data (threads k u)"
  by (auto simp: ready_thread_def)

lemma kinv_return_value [simp]:
  "kinv_ex S k \<Longrightarrow> kinv_ex S (arch_thread_return_value_set t v k)"
  "kinv_ex S k \<Longrightarrow> kinv_ex S (z_thread_return_value_set_with_data t v d k)"
  unfolding z_thread_return_value_set_with_data_def arch_thread_return_value_set_def
  by (intro kinv_upd_other; simp)+

lemma kinv_ready_one_thread [inv_intro]: "kinv k \<Longrightarrow> kinv (ready_one_thread q k)"
proof (cases "waitqs k q")
  case Nil
  then show "kinv k \<Longrightarrow> kinv (ready_one_thread q k)" by (simp add: ready_one_thread_def unpend_first_none)
next
  case (Cons t ts)
  assume i: "kinv k"
  obtain k' where k': "z_unpend_first_thread q k = (Some t, k')" "kinv_ex {t} k'"
    using kinv_unpend_first(1,2) [OF i Cons] by (metis prod.collapse)
  then show ?thesis by (simp add: ready_one_thread_def z_ready_thread_def kinv_ready_one)
qed

lemma kinv_sched_wake [inv_intro]:
  assumes i: "kinv k"
  shows "kinv (snd (z_sched_wake q v d k))"
proof (cases "waitqs k q")
  case Nil
  with i show ?thesis by (simp add: z_sched_wake_def z_waitq_head_def z_priq_dumb_best_def)
next
  case (Cons t ts)
  let ?k = "z_thread_return_value_set_with_data t v d k"
  have i': "kinv ?k" using i by simp
  have "pended_on (threads ?k t) = Some q"
    using head_pended [OF kinv_exD(1) [OF i] Cons]
    by (simp add: z_thread_return_value_set_with_data_def arch_thread_return_value_set_def)
  from kinv_abort_timeout [OF kinv_unpend [OF i' this], of t]
  have "kinv (ready_thread t (snd (z_abort_timeout (ThreadTO t) (unpend_thread_no_timeout t ?k))))"
    by (intro kinv_ready_one) simp
  with Cons show ?thesis
    by (simp add: z_sched_wake_def z_waitq_head_def z_priq_dumb_best_def z_abort_thread_timeout_def)
qed

text \<open>
  A loop over a wait queue: each round takes the head off the queue and keeps
  an invariant. Then the loop empties the queue, more fuel than the length of
  the queue changes nothing, and every thread that waited gets what the round
  for it establishes, if later rounds do not undo it.
\<close>

locale waitq_loop =
  fixes body :: "tid \<Rightarrow> 'a kernel_scheme \<Rightarrow> 'a kernel_scheme"
    and q :: wq
    and I :: "'a kernel_scheme \<Rightarrow> bool"
    and R :: "tid \<Rightarrow> 'a kernel_scheme \<Rightarrow> bool"
  assumes body_inv: "I k \<Longrightarrow> waitqs k q = t # ts \<Longrightarrow> I (body t k)"
    and body_tl: "I k \<Longrightarrow> waitqs k q = t # ts \<Longrightarrow> waitqs (body t k) q = ts"
    and body_result: "I k \<Longrightarrow> waitqs k q = t # ts \<Longrightarrow> R t (body t k)"
    and body_keep: "I k \<Longrightarrow> waitqs k q = t # ts \<Longrightarrow> u \<noteq> t \<Longrightarrow> R u k \<Longrightarrow> R u (body t k)"
begin

lemma drain_spec:
  "I k \<Longrightarrow> length (waitqs k q) \<le> n \<Longrightarrow> distinct (waitqs k q) \<Longrightarrow>
     I (drain body n q k) \<and> waitqs (drain body n q k) q = [] \<and>
     (\<forall>t. t \<in> set (waitqs k q) \<or> R t k \<and> t \<notin> set (waitqs k q) \<longrightarrow> R t (drain body n q k))"
proof (induction n arbitrary: k)
  case (Suc n)
  show ?case
  proof (cases "waitqs k q")
    case Nil
    with Suc.prems show ?thesis by (simp add: z_waitq_head_def z_priq_dumb_best_def)
  next
    case (Cons t ts)
    note b = body_inv [OF Suc.prems(1) Cons] body_tl [OF Suc.prems(1) Cons] body_result [OF Suc.prems(1) Cons]
    have "drain body (Suc n) q k = drain body n q (body t k)"
      using Cons by (simp add: z_waitq_head_def z_priq_dumb_best_def)
    with Suc.IH [OF b(1)] Suc.prems Cons b body_keep [OF Suc.prems(1) Cons] show ?thesis by auto
  qed
qed simp

lemma drain_fuel:
  "I k \<Longrightarrow> length (waitqs k q) \<le> n \<Longrightarrow> drain body n q k = drain body (length (waitqs k q)) q k"
proof (induction n arbitrary: k)
  case (Suc n)
  show ?case
  proof (cases "waitqs k q")
    case (Cons t ts)
    with Suc.IH [OF body_inv [OF Suc.prems(1) Cons]] body_tl [OF Suc.prems(1) Cons] Suc.prems
    show ?thesis by (simp add: z_waitq_head_def z_priq_dumb_best_def)
  qed (simp add: z_waitq_head_def z_priq_dumb_best_def)
qed simp

end

text \<open>Waking all threads that wait: \<open>z_unpend_all\<close>, and \<open>unpend_all\<close> for the joiners of a thread.\<close>

lemma base_unpend:
  assumes "base_inv S k" "pended_on (threads k t) = Some q"
  shows "base_inv (insert t S) (unpend_thread_no_timeout t k)"
proof -
  have "quiet (unpend_thread_no_timeout t k)"
    using assms by (auto simp: base_inv_def quiet_def unpend_threads [OF assms(2)])
  with assms show ?thesis by (auto simp: base_inv_def sched_wf_unpend)
qed

lemma base_abort_timeout:
  "base_inv S k \<Longrightarrow> t \<in> S \<Longrightarrow> base_inv S (snd (z_abort_timeout (ThreadTO t) k))"
  using sched_wfD(12) [of S k] by (auto simp: base_inv_def sched_wf_abort_thread_timeout quiet_def)

lemma base_return_value:
  assumes "base_inv S k"
  shows "base_inv S (arch_thread_return_value_set t v k)"
proof -
  have w: "sched_wf S k" using assms by (simp add: base_inv_def)
  have "sched_wf S (arch_thread_return_value_set t v k)"
    using sched_wfD(12) [OF w] unfolding arch_thread_return_value_set_def by (intro sched_wf_frame [OF w]) simp_all
  with assms show ?thesis by (auto simp: base_inv_def quiet_def arch_thread_return_value_set_def)
qed

lemma base_ready_thread:
  assumes "base_inv {t} k"
  shows "base_inv {} (ready_thread t k)"
proof (cases "z_is_thread_ready t k")
  case True
  have w: "sched_wf {t} k" and l: "\<not> to_linked (ThreadTO (current_thread k)) k" and q: "quiet k"
    using assms by (auto simp: base_inv_def)
  have "base_inv {} (queue_thread t k)" using sched_wf_queue [OF w _ True] l q by (simp add: base_inv_def)
  then have "kinv (update_cache False (queue_thread t k))" by (rule base_update_cache) simp
  then show ?thesis using True not_queued_ex [OF w, of t] by (simp add: ready_thread_def kinv_base)
next
  case False
  with assms show ?thesis by (simp add: ready_thread_def base_land)
qed

lemma base_wake_head:
  fixes v :: int
  assumes "base_inv {} k" "waitqs k q = t # ts"
  defines "k' \<equiv> ready_thread t (arch_thread_return_value_set t v
     (snd (z_abort_timeout (ThreadTO t) (unpend_thread_no_timeout t k))))"
  shows "base_inv {} k'" "waitqs k' q = ts" "swap_retval (threads k' t) = v" "pended_on (threads k' t) = None"
    "\<And>u. u \<noteq> t \<Longrightarrow> swap_retval (threads k' u) = swap_retval (threads k u)"
    "\<And>u. u \<noteq> t \<Longrightarrow> pended_on (threads k' u) = pended_on (threads k u)"
proof -
  have w: "sched_wf {} k" using assms(1) by (simp add: base_inv_def)
  have p: "pended_on (threads k t) = Some q" using head_pended [OF w assms(2)] .
  show "base_inv {} k'" unfolding k'_def
    by (intro base_ready_thread base_return_value base_abort_timeout base_unpend [OF assms(1) p]) simp
  show "waitqs k' q = ts" "swap_retval (threads k' t) = v" "pended_on (threads k' t) = None"
    "\<And>u. u \<noteq> t \<Longrightarrow> swap_retval (threads k' u) = swap_retval (threads k u)"
    "\<And>u. u \<noteq> t \<Longrightarrow> pended_on (threads k' u) = pended_on (threads k u)"
    using assms(2) by (simp_all add: k'_def arch_thread_return_value_set_def unpend_waitqs [OF p] unpend_threads [OF p])
qed

interpretation joiners: waitq_loop
    "\<lambda>thread k. ready_thread thread (arch_thread_return_value_set thread 0
       (snd (z_abort_thread_timeout thread (unpend_thread_no_timeout thread k))))"
    q "\<lambda>k. base_inv {} k" "\<lambda>t k. swap_retval (threads k t) = 0 \<and> pended_on (threads k t) = None" for q
  unfolding z_abort_thread_timeout_def
  by unfold_locales (blast intro: base_wake_head(1), blast intro: base_wake_head(2),
      blast intro: base_wake_head(3,4), metis base_wake_head(5,6))

lemma kinv_ready_head:
  assumes i: "kinv k" and q: "waitqs k q = t # ts"
  defines "k' \<equiv> z_ready_thread t (z_unpend_thread t k)"
  shows "kinv k'" "waitqs k' q = ts" "pended_on (threads k' t) = None"
    "\<And>u. u \<noteq> t \<Longrightarrow> pended_on (threads k' u) = pended_on (threads k u)"
proof -
  have p: "pended_on (threads k t) = Some q" using head_pended [OF kinv_exD(1) [OF i] q] .
  have k': "k' = ready_thread t (snd (z_abort_timeout (ThreadTO t) (unpend_thread_no_timeout t k)))"
    using p by (simp add: k'_def z_ready_thread_def z_unpend_thread_def z_unpend_thread_no_timeout_def z_abort_thread_timeout_def)
  show "kinv k'" unfolding k' by (intro kinv_ready_one kinv_abort_timeout kinv_unpend [OF i p]) simp
  show "waitqs k' q = ts" "pended_on (threads k' t) = None"
    "\<And>u. u \<noteq> t \<Longrightarrow> pended_on (threads k' u) = pended_on (threads k u)"
    using q by (simp_all add: k' unpend_waitqs [OF p] unpend_threads [OF p])
qed

interpretation unpend_loop: waitq_loop "\<lambda>thread k. z_ready_thread thread (z_unpend_thread thread k)"
    q kinv "\<lambda>t k. pended_on (threads k t) = None" for q
  by unfold_locales (blast intro: kinv_ready_head(1), blast intro: kinv_ready_head(2),
      blast intro: kinv_ready_head(3), metis kinv_ready_head(4))

lemma unpend_all_spec:
  assumes "base_inv {} k"
  shows "base_inv {} (unpend_all q k)" "waitqs (unpend_all q k) q = []"
    "t \<in> set (waitqs k q) \<Longrightarrow> swap_retval (threads (unpend_all q k) t) = 0 \<and> pended_on (threads (unpend_all q k) t) = None"
proof -
  have "distinct (waitqs k q)" using assms sched_wfD(8) by (auto simp: base_inv_def)
  from joiners.drain_spec [OF assms order_refl this]
  show "base_inv {} (unpend_all q k)" "waitqs (unpend_all q k) q = []"
    "t \<in> set (waitqs k q) \<Longrightarrow> swap_retval (threads (unpend_all q k) t) = 0 \<and> pended_on (threads (unpend_all q k) t) = None"
    by (auto simp: unpend_all_def)
qed

lemma kinv_unpend_all [inv_intro]:
  assumes "kinv k"
  shows "kinv (snd (z_unpend_all q k))" "waitqs (snd (z_unpend_all q k)) q = []"
proof -
  have "distinct (waitqs k q)" using sched_wfD(8) [OF kinv_exD(1) [OF assms]] .
  from unpend_loop.drain_spec [OF assms order_refl this] show "kinv (snd (z_unpend_all q k))" "waitqs (snd (z_unpend_all q k)) q = []"
    by (auto simp: z_unpend_all_def)
qed

section \<open>Wake-up from the timeout queue\<close>

lemma kinv_wake_thread:
  assumes i: "kinv_ex {t} k \<or> kinv k \<and> t \<noteq> z_idle_thread \<and> \<not> queued k t"
  shows "kinv (z_sched_wake_thread t b k)"
proof -
  have i: "kinv_ex {t} k" using assms kinv_transit by blast
  let ?k1 = "upd_thread t (\<lambda>th. th\<lparr>no_wake_on_timeout := False\<rparr>) k"
  have qt: "\<not> no_wake_on_timeout (threads k t)" "\<not> bit (thread_state (threads k t)) 5"
    using kinv_exD(4) [OF i] by (auto simp: quiet_def)
  have k1: "kinv_ex {t} ?k1" using i by (rule kinv_upd) simp_all
  show ?thesis
  proof (cases "bit (thread_state (threads k t)) 3")
    case True
    then have "kinv ?k1" using k1 by (intro kinv_land [OF k1]) (simp add: ready_iff state_flags)
    with True qt show ?thesis by (simp add: z_sched_wake_thread_def Let_def flag_defs)
  next
    case False
    let ?k2 = "if pended_on (threads ?k1 t) \<noteq> None then unpend_thread_no_timeout t ?k1 else ?k1"
    have "kinv_ex {t} ?k2" using k1 kinv_unpend [OF k1, of t] by auto
    then have "kinv_ex {t} (upd_thread t z_mark_thread_as_started ?k2)" by (rule kinv_upd) simp_all
    moreover from this have "kinv_ex {t} (upd_thread t z_mark_thread_as_not_suspended (upd_thread t z_mark_thread_as_started ?k2))"
      by (rule kinv_upd) simp_all
    ultimately have "kinv (ready_thread t (if b then upd_thread t z_mark_thread_as_not_suspended (upd_thread t z_mark_thread_as_started ?k2)
         else upd_thread t z_mark_thread_as_started ?k2))"
      by (intro kinv_ready_one) (simp split: if_split)
    moreover have "z_sched_wake_thread t b k = ready_thread t
        (if b then upd_thread t z_mark_thread_as_not_suspended (upd_thread t z_mark_thread_as_started ?k2)
         else upd_thread t z_mark_thread_as_started ?k2)"
      using False qt unfolding z_sched_wake_thread_def Let_def by (simp add: flag_defs)
    ultimately show ?thesis by (simp only:)
  qed
qed

section \<open>Priorities and the scheduler lock\<close>

lemma int8_range: "-128 \<le> int8 p \<and> int8 p \<le> 127"
proof -
  have "- (2 ^ 7) \<le> sint (word_of_int p :: u8)" "sint (word_of_int p :: u8) < 2 ^ 7"
    using sint_greater_eq [of "word_of_int p :: u8"] sint_less [of "word_of_int p :: u8"] by simp_all
  then show ?thesis by (simp add: int8_def)
qed

lemma kinv_set_prio [inv_intro]:
  assumes i: "kinv k" and t: "t \<noteq> z_idle_thread"
  shows "kinv (snd (z_set_prio t p k))"
proof -
  let ?f = "\<lambda>th :: k_thread. th\<lparr>prio := int8 p\<rparr>"
  note D = kinv_exD [OF i]
  show ?thesis
  proof (cases "z_is_thread_ready t k")
    case True
    then have q: "queued k t" using sched_wfD(5) [OF D(1)] t by blast
    have "base_inv {t} (dequeue_thread t k)" using base_dequeue [OF kinv_base [OF i] t] q by simp
    then have b: "base_inv {t} (upd_thread t ?f (dequeue_thread t k))"
      by (rule base_upd) (simp_all add: int8_range)
    have "z_is_thread_ready t (upd_thread t ?f (dequeue_thread t k))"
      using True by (simp add: ready_iff state_flags)
    then have "base_inv {} (queue_thread t (upd_thread t ?f (dequeue_thread t k)))"
      using b sched_wf_queue [of "{t}" "upd_thread t ?f (dequeue_thread t k)" t] by (simp add: base_inv_def)
    then have "kinv (update_cache True (queue_thread t (upd_thread t ?f (dequeue_thread t k))))"
      by (rule base_update_cache) simp
    with True show ?thesis by (simp add: z_set_prio_def Let_def)
  next
    case False
    then have q: "\<not> queued k t" using sched_wfD(4) [OF D(1)] by blast
    have "base_inv {t} (upd_thread t ?f k)"
      by (rule base_upd [OF kinv_base [OF kinv_transit [OF i q t]]]) (simp_all add: int8_range)
    moreover have "\<not> z_is_thread_ready t (upd_thread t ?f k)" using False by (simp add: ready_iff state_flags)
    ultimately have "base_inv {} (upd_thread t ?f k)" by (rule base_land)
    moreover have "cache_ok (upd_thread t ?f k)"
      using D(2) q sched_wfD(3) [OF D(1)] by (simp add: cache_ok_upd_off)
    ultimately show ?thesis using False by (simp add: z_set_prio_def Let_def kinv_ex_def base_inv_def)
  qed
qed

lemma kinv_priority_set [inv_intro]:
  "kinv k \<Longrightarrow> t \<noteq> z_idle_thread \<Longrightarrow> kinv (k_thread_priority_set t p k)"
  using kinv_set_prio [of k t p]
  by (auto simp: k_thread_priority_set_def z_thread_priority_set_def kinv_reschedule split: prod.splits)

lemma runs_not_idle: "kinv k \<Longrightarrow> runs k \<Longrightarrow> current_thread k \<noteq> z_idle_thread"
  using sched_wfD(3,4) kinv_exD(1) unfolding runs_def by metis

lemma sched_wf_sched_locked:
  assumes "sched_wf S k" "t \<noteq> z_idle_thread"
  shows "sched_wf S (upd_thread t (\<lambda>th. th\<lparr>sched_locked := g th\<rparr>) k)"
  using assms sched_wfD(12) [OF assms(1)] by (intro sched_wf_frame [OF assms(1)]) auto

lemma kinv_sched_lock [inv_intro]:
  assumes "kinv k" "runs k" "sched_locked (threads k (current_thread k)) \<noteq> 1"
  shows "kinv (k_sched_lock k)"
proof -
  let ?c = "current_thread k"
  note D = kinv_exD [OF assms(1)]
  have "\<not> is_preempt ((threads k ?c)\<lparr>sched_locked := sched_locked (threads k ?c) - 1\<rparr>)"
    using assms(3) sched_wfD(11) [OF D(1), of ?c] by (simp add: is_preempt_iff)
  then have "cache_ok (k_sched_lock k)"
    using D(2) by (auto simp: cache_ok_def k_sched_lock_def next_up_def runq_best_def)
  with D sched_wf_sched_locked [OF D(1) runs_not_idle [OF assms(1,2)]] show ?thesis
    by (auto simp: k_sched_lock_def kinv_ex_def quiet_def)
qed

lemma kinv_sched_unlock [inv_intro]:
  assumes "kinv k" "runs k"
  shows "kinv (k_sched_unlock k)"
proof -
  let ?k = "upd_thread (current_thread k) (\<lambda>th. th\<lparr>sched_locked := sched_locked th + 1\<rparr>) k"
  have "base_inv {} ?k"
    using kinv_exD [OF assms(1)] sched_wf_sched_locked [OF kinv_exD(1) [OF assms(1)] runs_not_idle [OF assms]]
    by (auto simp: base_inv_def quiet_def)
  then have "kinv (update_cache False ?k)" by (rule base_update_cache) simp
  then show ?thesis by (simp add: k_sched_unlock_def kinv_reschedule)
qed

section \<open>Yield, sleep and wakeup\<close>

lemma kinv_requeue:
  assumes "kinv k" "queued k t"
  shows "base_inv {} (queue_thread t (dequeue_thread t k))"
proof -
  note w = kinv_exD(1) [OF assms(1)]
  have t: "t \<noteq> z_idle_thread" "z_is_thread_ready t k" using sched_wfD(4) [OF w assms(2)] by auto
  have b: "base_inv {t} (dequeue_thread t k)" using base_dequeue [OF kinv_base [OF assms(1)] t(1)] assms(2) by simp
  have "z_is_thread_ready t (dequeue_thread t k)" using t(2) by (simp add: ready_iff)
  with b sched_wf_queue [of "{t}" "dequeue_thread t k" t] show ?thesis by (simp add: base_inv_def)
qed

lemma kinv_yield [inv_intro]:
  assumes "kinv k" "runs k"
  shows "kinv (k_yield k)"
proof -
  let ?k = "k\<lparr>irq_unlocked := False\<rparr>"
  have "kinv ?k" "queued ?k (current_thread ?k)"
    using assms sched_wfD(3) [OF kinv_exD(1) [OF assms(1)]] by (simp_all add: runs_def)
  from base_update_cache [OF kinv_requeue [OF this], of True]
  show ?thesis by (simp add: k_yield_def k_spin_lock_def Let_def kinv_swap)
qed

lemma kinv_tick_sleep [inv_intro]:
  assumes "kinv k" "runs k"
  shows "kinv (snd (z_tick_sleep n k))"
proof (cases "n = 0")
  case True
  with assms show ?thesis by (simp add: z_tick_sleep_def kinv_yield)
next
  case False
  let ?k = "k\<lparr>irq_unlocked := False\<rparr>" and ?c = "current_thread k"
  let ?k3 = "z_add_timeout (ThreadTO ?c) Z_thread_timeout n (unready_thread ?c ?k)"
  let ?k4 = "upd_thread ?c z_mark_thread_as_suspended ?k3"
  have i: "kinv ?k" "runs ?k" using assms by (simp_all add: runs_def)
  note u = kinv_exD [OF unready_current(1) [OF i]]
  have c: "current_thread (unready_thread ?c ?k) = ?c" by (simp add: unready_simps)
  have w3: "sched_wf {?c} ?k3" using u(1,3) c by (intro sched_wf_add_thread_timeout) simp_all
  have nb: "\<not> bit (thread_state (threads ?k3 ?c)) 7" using not_queued_ex [OF w3] by (simp add: state_flags)
  have "pended_on (threads ?k3 ?c) \<noteq> None \<Longrightarrow> bit (thread_state (threads ?k3 ?c)) 1"
    using sched_wfD(10) [OF w3, of ?c] unfolding state_flags .
  then have "sched_wf {?c} ?k4"
    using nb sched_wfD(11) [OF w3, of ?c] by (intro sched_wf_upd [OF w3]) auto
  then have "sched_wf ({?c} - {?c}) ?k4" by (rule sched_wf_release) (simp add: ready_iff state_flags)
  moreover have "cache_ok ?k4"
    using u(2) c by (intro cache_ok_frame [OF u(2)]) auto
  moreover have "quiet ?k4" using u(4) by (auto simp: quiet_def)
  ultimately show ?thesis
    using False by (simp add: z_tick_sleep_def k_spin_lock_def z_add_thread_timeout_def z_swap_def kinv_do_swap Let_def)
qed

lemma kinv_sleep [inv_intro]:
  assumes "kinv k" "runs k"
  shows "kinv (snd (k_sleep c n k))" "kinv (snd (k_usleep c us k))"
  using kinv_tick_sleep [OF assms, of n] kinv_tick_sleep [OF assms, of "usleep_ticks c us"]
    kinv_suspend [OF assms(1) runs_not_idle [OF assms]]
  by (auto simp: k_sleep_def k_usleep_def split: prod.splits outcome.splits)

lemma kinv_wakeup [inv_intro]:
  assumes i: "kinv k" and t: "t \<noteq> z_idle_thread"
  shows "kinv (k_wakeup t k)"
proof -
  note D = kinv_exD [OF i]
  let ?k1 = "snd (z_abort_timeout (ThreadTO t) k)"
  let ?k2 = "ready_thread t (upd_thread t z_mark_thread_as_not_suspended ?k1)"
  have woken: "kinv (if \<not> in_isr ?k2 then z_reschedule_unlocked ?k2 else ?k2)" if "\<not> queued k t"
  proof (rule kinv_maybe_reschedule)
    have "kinv_ex {t} ?k1" using kinv_transit [OF i that t] by (rule kinv_abort_timeout) simp
    then have "kinv_ex {t} (upd_thread t z_mark_thread_as_not_suspended ?k1)" by (rule kinv_upd) simp_all
    then show "kinv ?k2" by (rule kinv_ready_one)
  qed
  consider (pend) "z_is_thread_pending (threads k t)"
    | (linked) "\<not> z_is_thread_pending (threads k t)" "to_linked (ThreadTO t) k"
    | (susp) "\<not> z_is_thread_pending (threads k t)" "\<not> to_linked (ThreadTO t) k" "thread_state (threads k t) = THREAD_SUSPENDED"
    | (none) "\<not> z_is_thread_pending (threads k t)" "\<not> to_linked (ThreadTO t) k" "thread_state (threads k t) \<noteq> THREAD_SUSPENDED"
    by blast
  then show ?thesis
  proof cases
    case pend
    with i show ?thesis by (simp add: k_wakeup_def)
  next
    case linked
    then have "\<not> queued k t" using linked_not_queued [OF D(1)] by blast
    moreover have "z_abort_thread_timeout t k = (0, ?k1)"
      using linked by (simp add: z_abort_thread_timeout_def z_abort_timeout_def)
    ultimately show ?thesis using linked woken by (simp add: k_wakeup_def z_ready_thread_def Let_def)
  next
    case susp
    then have "\<not> queued k t" by (simp add: state_flags flag_defs)
    moreover have "z_abort_thread_timeout t k = (- EINVAL, ?k1)"
      using susp by (simp add: z_abort_thread_timeout_def z_abort_timeout_def)
    ultimately show ?thesis using susp woken by (simp add: k_wakeup_def z_ready_thread_def Let_def)
  next
    case none
    with i show ?thesis
      by (simp add: k_wakeup_def z_abort_thread_timeout_def z_abort_timeout_def Let_def errno_defs)
  qed
qed

section \<open>The end of a thread\<close>

definition mark_dead :: "k_thread \<Rightarrow> k_thread" where
  "mark_dead = z_reset_thread_states THREAD_ABORTING o z_set_thread_states THREAD_DEAD"

lemma mark_dead_bits [simp]:
  "bit (thread_state (mark_dead th)) i \<longleftrightarrow> (bit (thread_state th) i \<or> i = 3) \<and> i \<noteq> 5"
  "prio (mark_dead th) = prio th" "pended_on (mark_dead th) = pended_on th"
  "sched_locked (mark_dead th) = sched_locked th" "no_wake_on_timeout (mark_dead th) = no_wake_on_timeout th"
  by (auto simp: mark_dead_def)

lemma mark_dead_queued: "z_is_thread_queued (mark_dead th) = z_is_thread_queued th"
  by (simp add: state_flags)

lemma dequeue_mark_dead: "dequeue_thread t (upd_thread t mark_dead k) = upd_thread t mark_dead (dequeue_thread t k)"
proof -
  have "z_reset_thread_states THREAD_QUEUED (mark_dead th) = mark_dead (z_reset_thread_states THREAD_QUEUED th)" for th
    by (simp add: mark_dead_def z_reset_thread_states_def z_set_thread_states_def)
      (rule arg_cong [of _ _ "\<lambda>s. th\<lparr>thread_state := s\<rparr>"], rule bit_eqI, auto simp: bit_simps flag_defs)
  then show ?thesis by (simp add: dequeue_thread_def runq_remove_def upd_thread_def)
qed

text \<open>\<open>end_thread\<close> up to the joiners: the thread is off every queue and dead.\<close>

lemma end_thread_detach:
  assumes i: "kinv k" and t: "t \<noteq> z_idle_thread"
  defines "k1 \<equiv> upd_thread t mark_dead k"
  defines "k2 \<equiv> if queued k1 t then dequeue_thread t k1 else k1"
  defines "k3 \<equiv> if pended_on (threads k2 t) \<noteq> None then unpend_thread_no_timeout t k2 else k2"
  defines "k4 \<equiv> snd (z_abort_timeout (ThreadTO t) k3)"
  shows "base_inv {} k4" "bit (thread_state (threads k4 t)) 3" "current_thread k4 = current_thread k"
    "\<And>q. waitqs k4 q = remove1 t (waitqs k q)" "in_isr k4 = in_isr k" "irq_unlocked k4 = irq_unlocked k"
proof -
  note w = kinv_exD(1) [OF i]
  have k2: "k2 = upd_thread t mark_dead (if queued k t then dequeue_thread t k else k)"
    by (simp add: k2_def k1_def mark_dead_queued dequeue_mark_dead)
  have b2: "base_inv {t} k2" unfolding k2
    by (rule base_upd [OF base_dequeue [OF kinv_base [OF i] t]]) simp_all
  have d2: "bit (thread_state (threads k2 t)) 3" "pended_on (threads k2 t) = pended_on (threads k t)"
    "waitqs k2 = waitqs k" "current_thread k2 = current_thread k" "in_isr k2 = in_isr k" "irq_unlocked k2 = irq_unlocked k"
    by (auto simp: k2)
  have b3: "base_inv {t} k3" using b2 base_unpend [OF b2, of t] by (auto simp: k3_def)
  have d3: "bit (thread_state (threads k3 t)) 3"
    using d2(1) by (auto simp: k3_def unpend_thread_no_timeout_def waitq_remove_def)
  have "base_inv {t} k4" unfolding k4_def using b3 by (rule base_abort_timeout) simp
  then show "base_inv {} k4" by (rule base_land) (use d3 in \<open>simp add: ready_iff state_flags k4_def\<close>)
  show "bit (thread_state (threads k4 t)) 3" using d3 by (simp add: k4_def)
  show "current_thread k4 = current_thread k" "in_isr k4 = in_isr k" "irq_unlocked k4 = irq_unlocked k"
    using d2 by (simp_all add: k4_def k3_def)
  show "waitqs k4 q = remove1 t (waitqs k q)" for q
  proof (cases "pended_on (threads k t)")
    case None
    then have "t \<notin> set (waitqs k q)" using sched_wfD(9) [OF w, of t q] by simp
    with None d2 show ?thesis by (simp add: k4_def k3_def remove1_idem)
  next
    case (Some p)
    have "q \<noteq> p \<Longrightarrow> t \<notin> set (waitqs k q)" using Some sched_wfD(9) [OF w, of t q] by simp
    with Some d2 unpend_waitqs [of k2 t p] show ?thesis by (auto simp: k4_def k3_def remove1_idem)
  qed
qed

lemma end_thread_unfold:
  assumes "\<not> bit (thread_state (threads k t)) 3"
  shows "end_thread t k =
     update_cache True (unpend_all (JoinQ t) (snd (z_abort_timeout (ThreadTO t)
       (let k1 = upd_thread t mark_dead k;
            k2 = if queued k1 t then dequeue_thread t k1 else k1
        in if pended_on (threads k2 t) \<noteq> None then unpend_thread_no_timeout t k2 else k2))))"
  using assms unfolding end_thread_def Let_def mark_dead_def z_abort_thread_timeout_def by (simp add: flag_defs)

lemma kinv_end_thread [inv_intro]:
  assumes "kinv k" "t \<noteq> z_idle_thread"
  shows "kinv (end_thread t k)"
proof (cases "bit (thread_state (threads k t)) 3")
  case True
  with assms show ?thesis by (simp add: end_thread_def flag_defs)
next
  case False
  note b = end_thread_detach(1) [OF assms]
  show ?thesis unfolding end_thread_unfold [OF False] Let_def
    by (rule base_update_cache [OF unpend_all_spec(1) [OF b]]) simp
qed

lemma kinv_thread_abort [inv_intro]:
  assumes "kinv k" "t \<noteq> z_idle_thread" "user_options (threads k t) AND K_ESSENTIAL = 0"
  shows "kinv (z_thread_abort t k)"
proof -
  have "kinv (end_thread t (k\<lparr>irq_unlocked := False\<rparr>))" using assms by (intro kinv_end_thread) simp_all
  with assms show ?thesis
    by (auto simp: z_thread_abort_def k_spin_lock_def Let_def kinv_swap k_spin_unlock_def)
qed

lemma kinv_thread_join [inv_intro]:
  assumes "kinv k" "runs k"
  shows "kinv (snd (k_thread_join t n k))"
proof -
  let ?k = "k\<lparr>irq_unlocked := False\<rparr>"
  have "kinv ?k" "runs ?k" using assms by (simp_all add: runs_def)
  from pended_swap(1) [OF pend_current [OF this]]
  have "kinv (z_swap (irq_unlocked k) (pend_locked (current_thread k) (Some (JoinQ t)) n ?k))" by simp
  with assms show ?thesis
    by (simp add: k_thread_join_def k_spin_lock_def k_spin_unlock_def pend_locked_def Let_def)
qed

section \<open>Creation, time slices and timeouts\<close>

lemma kinv_thread_create [inv_intro]:
  assumes i: "kinv k" and t: "t \<noteq> z_idle_thread" "t \<noteq> current_thread k" "prevented k t"
    "pended_on (threads k t) = None" "\<not> to_linked (ThreadTO t) k" "waitqs k (JoinQ t) = []"
  shows "kinv (k_thread_create t p opts delay k)"
proof -
  let ?f = "\<lambda>th. (z_init_thread_base p THREAD_PRESTART opts th)\<lparr>swap_key := True, no_wake_on_timeout := False\<rparr>"
  note D = kinv_exD [OF i]
  have nq: "\<not> queued k t" using prevented_not_queued [OF D(1) t(3)] .
  have w: "sched_wf {t} k" using sched_wf_grow [OF D(1) nq t(1)] by simp
  have fid: "waitqs k = (waitqs k)(JoinQ t := [])" using t(6) by auto
  have s: "z_setup_new_thread t p opts k = upd_thread t ?f k"
    using t(5) D(1) fid sched_wfD(14) [OF D(1)] unfolding z_setup_new_thread_def
    by (intro arg_cong [of _ _ "upd_thread t ?f"]) (simp add: fid [symmetric])
  have bits: "bit (thread_state (z_init_thread_base p THREAD_PRESTART opts th)) j \<longleftrightarrow> j = 2" for th j
    by (auto simp: z_init_thread_base_def flag_defs)
  have "sched_wf {t} (upd_thread t ?f k)"
    using t(4) by (intro sched_wf_upd [OF w]) (simp_all add: bits, simp_all add: z_init_thread_base_def int8_range)
  moreover have "\<not> z_is_thread_ready t (upd_thread t ?f k)" by (simp add: ready_iff state_flags bits)
  ultimately have w1: "sched_wf {} (upd_thread t ?f k)" using sched_wf_release [of "{t}" _ t] by fastforce
  have "t \<notin> set (runq k)" using nq sched_wfD(3) [OF D(1)] by simp
  then have "cache_ok (upd_thread t ?f k)" using D(2) by (simp add: cache_ok_upd_off)
  moreover have "quiet (upd_thread t ?f k)" using D(4) bits by (auto simp: quiet_def z_init_thread_base_def)
  ultimately have i1: "kinv (upd_thread t ?f k)" using w1 D(3) by (simp add: kinv_ex_def)
  have add: "kinv (z_add_timeout (ThreadTO t) Z_thread_timeout delay (upd_thread t ?f k))"
  proof -
    have nr: "\<not> z_is_thread_ready t (upd_thread t ?f k)" by (simp add: ready_iff state_flags bits)
    have nq1: "\<not> queued (upd_thread t ?f k) t" by (simp add: state_flags bits)
    note j = kinv_exD [OF kinv_transit [OF i1 nq1 t(1)]]
    have "sched_wf {t} (z_add_timeout (ThreadTO t) Z_thread_timeout delay (upd_thread t ?f k))"
      using j(1) t(5) by (intro sched_wf_add_thread_timeout) simp_all
    moreover have "\<not> z_is_thread_ready t (z_add_timeout (ThreadTO t) Z_thread_timeout delay (upd_thread t ?f k))"
      using nr by (simp add: ready_iff state_flags bits)
    ultimately have "sched_wf ({t} - {t}) (z_add_timeout (ThreadTO t) Z_thread_timeout delay (upd_thread t ?f k))"
      by (rule sched_wf_release)
    moreover have "cache_ok (z_add_timeout (ThreadTO t) Z_thread_timeout delay (upd_thread t ?f k))"
      by (rule cache_ok_frame [OF j(2)]) simp_all
    moreover have "quiet (z_add_timeout (ThreadTO t) Z_thread_timeout delay (upd_thread t ?f k))"
      by (rule quiet_frame [OF j(4)]) simp
    ultimately show ?thesis using j(3) t(2,5) sched_wfD(12) [OF j(1)] by (simp add: kinv_ex_def)
  qed
  show ?thesis
    using i1 add kinv_sched_start [OF i1 t(1)] unfolding k_thread_create_def schedule_new_thread_def
    by (simp add: s z_add_thread_timeout_def k_thread_start_def Let_def)
qed

lemma kinv_time_slice [inv_intro]:
  assumes "kinv k"
  shows "kinv (z_time_slice k)"
proof (cases "slice_expired k \<and> sliceable (current_thread k) k")
  case False
  with assms show ?thesis by (auto simp: z_time_slice_def Let_def)
next
  case True
  let ?c = "current_thread k"
  note D = kinv_exD [OF assms]
  have s: "\<not> prevented k ?c" "?c \<noteq> z_idle_thread"
    using True by (auto simp: sliceable_def z_is_idle_thread_object_def)
  then have q: "queued k ?c" using sched_wfD(5) [OF D(1), of ?c] D(3) by (simp add: ready_iff)
  have "kinv (update_cache True (queue_thread ?c (dequeue_thread ?c k)))"
    using base_update_cache [OF kinv_requeue [OF assms q], of True] by simp
  then have "kinv (z_reset_time_slice ?c (update_cache True (queue_thread ?c (dequeue_thread ?c k))))"
    by (rule kinv_reset_slice)
  with True s q show ?thesis by (simp add: z_time_slice_def move_thread_to_end_of_prio_q_def Let_def)
qed

text \<open>A timeout that fires leaves the queue; if it is a thread's, that thread is in transit.\<close>

lemma fire_kernel [simp]:
  "threads (fire t k) = threads k" "runq (fire t k) = runq k" "waitqs (fire t k) = waitqs k"
  "current_thread (fire t k) = current_thread k" "cache (fire t k) = cache k" "in_isr (fire t k) = in_isr k"
  "irq_unlocked (fire t k) = irq_unlocked k" "mem (fire t k) = mem k" "cells (fire t k) = cells k"
  "slice_ticks (fire t k) = slice_ticks k" "slice_max_prio (fire t k) = slice_max_prio k"
  "slice_expired (fire t k) = slice_expired k"
  by (auto simp: fire_def remove_timeout_def Let_def)

lemma fire_linked:
  assumes "timeout_wf k" "first k = Some t"
  shows "to_linked u (fire t k) \<longleftrightarrow> to_linked u k \<and> u \<noteq> t"
proof -
  from assms(2) obtain ts where l: "timeout_list k = t # ts" by (auto simp: first_Some)
  with fire_simps(1) [OF l assms(1)] assms(1) show ?thesis by (auto simp: to_linked_def timeout_wf_def)
qed

lemma kinv_fire:
  assumes i: "kinv k" and f: "first k = Some t"
  shows "case t of ThreadTO u \<Rightarrow> kinv_ex {u} (fire t k) | _ \<Rightarrow> kinv (fire t k)"
proof -
  note D = kinv_exD [OF i]
  note twf = sched_wfD(12) [OF D(1)]
  from f obtain ts where l: "timeout_list k = t # ts" by (auto simp: first_Some)
  note fs = fire_simps [OF l twf] and fl = fire_linked [OF twf f] and fw = wf_fire [OF l twf]
  have c: "cache_ok (fire t k)" by (rule cache_ok_frame [OF D(2)]) simp_all
  have q: "quiet (fire t k)" by (rule quiet_frame [OF D(4)]) simp
  have nl: "\<not> to_linked (ThreadTO (current_thread (fire t k))) (fire t k)" using D(3) by (simp add: fl)
  show ?thesis
  proof (cases t)
    case (ThreadTO u)
    then have lk: "to_linked (ThreadTO u) k" using l by (simp add: to_linked_def)
    have "\<not> queued k u" using linked_not_queued [OF D(1) lk] .
    moreover have "u \<noteq> z_idle_thread" using sched_wfD(7) [OF D(1)] lk by (auto simp: ready_iff)
    ultimately have w: "sched_wf {u} k" using sched_wf_grow [OF D(1)] by simp
    have "sched_wf {u} (fire t k)"
      using fs(4,5) fw fl ThreadTO by (intro sched_wf_timeout [OF w, of u]) simp_all
    with c q nl ThreadTO show ?thesis by (simp add: kinv_ex_def)
  next
    case SliceTO
    then have "sched_wf {} (fire t k)" using fs(4,5) fw fl by (intro sched_wf_frame [OF D(1)]) simp_all
    with c q nl SliceTO show ?thesis by (simp add: kinv_ex_def)
  next
    case (TimerTO n)
    then have "sched_wf {} (fire t k)" using fs(4,5) fw fl by (intro sched_wf_frame [OF D(1)]) simp_all
    with c q nl TimerTO show ?thesis by (simp add: kinv_ex_def)
  qed
qed

lemma kinv_thread_timeout: "kinv_ex {t} k \<Longrightarrow> kinv (z_thread_timeout t k)"
  by (simp add: z_thread_timeout_def kinv_wake_thread)

end
