(* ===== verification/Boot.thy ===== *)
theory Boot
  imports Sched_Ops
begin

text \<open>
  The way from reset to the main thread, from \<^verbatim>\<open>kernel/init.c\<close> and the dummy thread of
  \<^verbatim>\<open>kernel/include/kswap.h\<close>: the state in which the scheduler starts satisfies its
  invariant.
\<close>

section \<open>Initialisation\<close>

definition z_main_thread :: tid where "z_main_thread = 1"
definition z_dummy_thread :: tid where "z_dummy_thread = 2"

text \<open>
  An object that holds no thread yet is represented by a dead thread: no
  kernel call is made on it before \<open>z_setup_new_thread\<close> fills it in.
\<close>

definition no_thread :: k_thread where
  "no_thread = \<lparr>pended_on = None, user_options = 0, thread_state = THREAD_DEAD, prio = 0, sched_locked = 0,
     swap_data = 0, swap_retval = 0, swap_key = False, next_event_link = None, events = 0, event_options = 0,
     no_wake_on_timeout = False\<rparr>"

definition kernel_reset :: kernel where
  "kernel_reset = \<lparr>timeouts = (\<lambda>_. \<lparr>to_fn = Z_thread_timeout, dticks = 0\<rparr>), timeout_list = [],
     curr_tick = 0, announce_remaining = 0, clk_elapsed = 0, clk_next = 0, fault = False,
     threads = (\<lambda>_. no_thread), current_thread = 0, cache = 0, runq = [], waitqs = (\<lambda>_. []),
     in_isr = False, irq_unlocked = False, slice_ticks = 0, slice_max_prio = 0, slice_expired = False,
     mem = (\<lambda>_. 0), cells = (\<lambda>_. 0)\<rparr>"

definition z_dummy_thread_init :: "tid \<Rightarrow> 'a kernel_scheme \<Rightarrow> 'a kernel_scheme" where
  "z_dummy_thread_init dummy k =
     (upd_thread dummy (\<lambda>th. th\<lparr>thread_state := THREAD_DUMMY, user_options := K_ESSENTIAL\<rparr>) k)
       \<lparr>current_thread := dummy\<rparr>"

definition init_ready_q :: "'a kernel_scheme \<Rightarrow> 'a kernel_scheme" where
  "init_ready_q k = k\<lparr>runq := []\<rparr>"

definition z_sched_init :: "'a kernel_scheme \<Rightarrow> 'a kernel_scheme" where
  "z_sched_init k = init_ready_q k"

definition init_idle_thread :: "'a kernel_scheme \<Rightarrow> 'a kernel_scheme" where
  "init_idle_thread k =
     upd_thread z_idle_thread z_mark_thread_as_started
       (z_setup_new_thread z_idle_thread K_IDLE_PRIO K_ESSENTIAL k)"

definition z_init_cpu :: "'a kernel_scheme \<Rightarrow> 'a kernel_scheme" where
  "z_init_cpu k = init_idle_thread k"

definition prepare_multithreading :: "int \<Rightarrow> 'a kernel_scheme \<Rightarrow> 'a kernel_scheme" where
  "prepare_multithreading main_prio k =
     (let k1 = (z_sched_init k)\<lparr>cache := z_main_thread\<rparr>;
          k2 = upd_thread z_main_thread z_mark_thread_as_started
                 (z_setup_new_thread z_main_thread main_prio K_ESSENTIAL k1);
          k3 = z_ready_thread z_main_thread k2
      in z_init_cpu k3)"

definition z_swap_unlocked :: "'a kernel_scheme \<Rightarrow> 'a kernel_scheme" where
  "z_swap_unlocked k = (let (key, k1) = k_spin_lock k in do_swap key k1)"

definition switch_to_main_thread :: "'a kernel_scheme \<Rightarrow> 'a kernel_scheme" where
  "switch_to_main_thread k = z_swap_unlocked k"

definition kernel_boot :: "int \<Rightarrow> kernel" where
  "kernel_boot main_prio =
     switch_to_main_thread (prepare_multithreading main_prio (z_dummy_thread_init z_dummy_thread kernel_reset))"

section \<open>The first state\<close>

text \<open>Readying the main thread makes it the next one, since the dummy thread cannot run.\<close>

definition boot_main :: "int \<Rightarrow> kernel" where
  "boot_main p = upd_thread z_main_thread z_mark_thread_as_started
     (z_setup_new_thread z_main_thread p K_ESSENTIAL
       ((z_sched_init (z_dummy_thread_init z_dummy_thread kernel_reset))\<lparr>cache := z_main_thread\<rparr>))"

lemmas tid_defs = z_main_thread_def z_dummy_thread_def z_idle_thread_def

lemma boot_main_fields:
  "timeout_list (boot_main p) = []" "runq (boot_main p) = []" "waitqs (boot_main p) = (\<lambda>_. [])"
  "current_thread (boot_main p) = z_dummy_thread" "clk_elapsed (boot_main p) = 0" "\<not> fault (boot_main p)"
  "\<not> in_isr (boot_main p)" "\<not> irq_unlocked (boot_main p)" "slice_ticks (boot_main p) = 0"
  "curr_tick (boot_main p) = 0" "announce_remaining (boot_main p) = 0"
  "pended_on (threads (boot_main p) t) = None" "\<not> no_wake_on_timeout (threads (boot_main p) t)"
  "sched_locked (threads (boot_main p) t) = 0"
  "swap_key (threads (boot_main p) t) \<longleftrightarrow> t = z_main_thread"
  "prio (threads (boot_main p) t) = (if t = z_main_thread then int8 p else 0)"
  "bit (thread_state (threads (boot_main p) t)) i \<longleftrightarrow>
     (if t = z_main_thread then False else if t = z_dummy_thread then i = 0 else i = 3)"
  by (auto simp: boot_main_def z_setup_new_thread_def z_sched_init_def init_ready_q_def z_dummy_thread_init_def
      kernel_reset_def z_init_thread_base_def no_thread_def tid_defs to_linked_def flag_defs
      z_mark_thread_as_started_def bit_simps)

lemma boot_reset_slice:
  "slice_ticks k = 0 \<Longrightarrow> timeout_list k = [] \<Longrightarrow> z_reset_time_slice t k = k\<lparr>slice_expired := False\<rparr>"
  by (simp add: z_reset_time_slice_def sliceable_def slice_time_def z_abort_timeout_def to_linked_def)

lemma boot_ready:
  "z_ready_thread z_main_thread (boot_main p) =
     (queue_thread z_main_thread (boot_main p))\<lparr>slice_expired := False, cache := z_main_thread\<rparr>"
proof -
  let ?k = "queue_thread z_main_thread (boot_main p)"
  have "\<not> queued (boot_main p) z_main_thread" "z_is_thread_ready z_main_thread (boot_main p)"
    by (simp_all add: ready_iff state_flags boot_main_fields to_linked_def)
  moreover have n: "next_up ?k = z_main_thread"
    by (simp add: next_up_def runq_best_def runq_queue boot_main_fields z_priq_dumb_best_def)
  moreover have "should_preempt z_main_thread False ?k"
    by (simp add: should_preempt_def boot_main_fields state_flags tid_defs)
  moreover have "z_reset_time_slice z_main_thread ?k = ?k\<lparr>slice_expired := False\<rparr>"
    by (rule boot_reset_slice) (simp_all add: boot_main_fields)
  ultimately show ?thesis
    by (simp add: z_ready_thread_def ready_thread_def update_cache_def Let_def boot_main_fields tid_defs)
qed

lemma kernel_boot_unfold:
  "kernel_boot p = do_swap False ((init_idle_thread
     ((queue_thread z_main_thread (boot_main p))\<lparr>slice_expired := False, cache := z_main_thread\<rparr>))
       \<lparr>irq_unlocked := False\<rparr>)"
proof -
  have "prepare_multithreading p (z_dummy_thread_init z_dummy_thread kernel_reset) =
      init_idle_thread (z_ready_thread z_main_thread (boot_main p))"
    by (simp add: prepare_multithreading_def boot_main_def Let_def z_init_cpu_def)
  moreover have "\<not> irq_unlocked (init_idle_thread k)" if "\<not> irq_unlocked k" for k :: kernel
    using that by (simp add: init_idle_thread_def z_setup_new_thread_def upd_thread_def)
  ultimately show ?thesis
    by (simp add: kernel_boot_def switch_to_main_thread_def z_swap_unlocked_def k_spin_lock_def boot_ready boot_main_fields)
qed

lemma kernel_boot_fields:
  "timeout_list (kernel_boot p) = []" "runq (kernel_boot p) = [z_main_thread]"
  "waitqs (kernel_boot p) q = []" "current_thread (kernel_boot p) = z_main_thread"
  "cache (kernel_boot p) = z_main_thread" "clk_elapsed (kernel_boot p) = 0" "\<not> fault (kernel_boot p)"
  "\<not> in_isr (kernel_boot p)" "irq_unlocked (kernel_boot p)" "slice_ticks (kernel_boot p) = 0"
  "curr_tick (kernel_boot p) = 0" "announce_remaining (kernel_boot p) = 0"
  "pended_on (threads (kernel_boot p) t) = None" "\<not> no_wake_on_timeout (threads (kernel_boot p) t)"
  "sched_locked (threads (kernel_boot p) t) = 0"
  "prio (threads (kernel_boot p) t) = (if t = z_main_thread then int8 p else if t = z_idle_thread then 15 else 0)"
  "bit (thread_state (threads (kernel_boot p) t)) i \<longleftrightarrow>
     (if t = z_main_thread then i = 7 else if t = z_idle_thread then False
      else if t = z_dummy_thread then i = 0 else i = 3)"
  unfolding kernel_boot_unfold
  by (auto simp: do_swap_def init_idle_thread_def z_setup_new_thread_def z_swap_next_thread_def Let_def
      boot_main_fields boot_reset_slice runq_queue queue_thread_def runq_add_def z_init_thread_base_def tid_defs
      to_linked_def K_IDLE_PRIO_def K_LOWEST_THREAD_PRIO_def int8_id flag_defs z_mark_thread_as_started_def bit_simps
      z_set_thread_states_def)

lemma kinv_boot: "kinv (kernel_boot p)"
proof -
  let ?k = "kernel_boot p"
  have rd: "z_is_thread_ready t ?k \<longleftrightarrow> t = z_main_thread \<or> t = z_idle_thread" for t
    by (auto simp: ready_iff state_flags kernel_boot_fields to_linked_def tid_defs)
  have qd: "queued ?k t \<longleftrightarrow> t = z_main_thread" for t by (auto simp: state_flags kernel_boot_fields tid_defs)
  have "sched_wf {} ?k"
    by (rule sched_wfI) (auto simp: kernel_boot_fields rd qd tid_defs timeout_wf_def int8_range [THEN conjunct1] int8_range [THEN conjunct2])
  moreover have "cache_ok ?k" by (simp add: cache_ok_def next_up_def runq_best_def kernel_boot_fields z_priq_dumb_best_def)
  moreover have "quiet ?k" by (auto simp: quiet_def kernel_boot_fields)
  ultimately show ?thesis by (simp add: kinv_ex_def kernel_boot_fields to_linked_def)
qed

lemma runs_boot: "runs (kernel_boot p)"
  by (simp add: runs_def kernel_boot_fields)

end
