(* ===== verification/Sched_Props.thy ===== *)
theory Sched_Props
  imports Boot
begin

text \<open>
  What the scheduler guarantees: who runs after a scheduling point, where a
  blocked thread waits and who is woken first, rotation among threads of equal
  priority, what the scheduler lock protects, and what happens to a thread and
  its joiners when it ends. The last section has the behaviours that differ
  from what the documentation of the calls says.
\<close>

section \<open>Who runs\<close>

definition runs_best :: "'a kernel_scheme \<Rightarrow> bool" where
  "runs_best k \<longleftrightarrow> (\<forall>t. z_is_thread_ready t k \<and> t \<noteq> z_idle_thread \<longrightarrow>
     current_thread k \<noteq> z_idle_thread \<and> prio (threads k (current_thread k)) \<le> prio (threads k t))"

lemma next_up_best:
  assumes "sched_wf S k" "queued k t"
  shows "next_up k \<in> set (runq k)" "prio (threads k (next_up k)) \<le> prio (threads k t)"
proof -
  have t: "t \<in> set (runq k)" using sched_wfD(3) [OF assms(1)] assms(2) by blast
  then obtain u us where r: "runq k = u # us" by (cases "runq k") auto
  have n: "next_up k = u" using r by (simp add: next_up_def runq_best_def z_priq_dumb_best_def)
  show "next_up k \<in> set (runq k)" using n r by simp
  show "prio (threads k (next_up k)) \<le> prio (threads k t)"
    using sched_wfD(2) [OF assms(1)] r t n by auto
qed

lemma runs_best_next_up:
  assumes "sched_wf {} k" "current_thread k = next_up k"
  shows "runs_best k"
  unfolding runs_best_def
proof (intro allI impI)
  fix t assume t: "z_is_thread_ready t k \<and> t \<noteq> z_idle_thread"
  then have q: "queued k t" using sched_wfD(5) [OF assms(1)] by blast
  note nb = next_up_best [OF assms(1) q]
  have "next_up k \<noteq> z_idle_thread" using nb(1) sched_wfD(3,4) [OF assms(1)] by metis
  with nb assms(2) show "current_thread k \<noteq> z_idle_thread \<and> prio (threads k (current_thread k)) \<le> prio (threads k t)"
    by simp
qed

lemma cache_runs:
  assumes "kinv k" "cache k = current_thread k"
  shows "runs_best k \<or> runs k \<and> \<not> is_preempt (threads k (current_thread k))"
  using assms runs_best_next_up [OF kinv_exD(1) [OF assms(1)]] kinv_exD(2) [OF assms(1)]
  by (auto simp: cache_ok_def runs_def)

lemma do_swap_current: "current_thread (do_swap key k) = cache k" "cache (do_swap key k) = cache k"
  by (auto simp: do_swap_def z_swap_next_thread_def Let_def)

text \<open>
  C3. At every scheduling point (\<open>z_reschedule\<close> outside interrupts, and the return from
  an interrupt) the thread that runs next has the highest priority of all ready
  threads, or it is the one that ran before and is not preemptible. The
  invariant of the scheduler still holds.
\<close>

theorem schedule_point:
  assumes "kinv k" "k' = z_reschedule True k \<and> \<not> in_isr k \<or> k' = z_get_next_switch_handle k"
  shows "kinv k' \<and> (runs_best k' \<or> current_thread k' = current_thread k \<and> runs k' \<and>
     \<not> is_preempt (threads k' (current_thread k')))"
proof -
  have r: "current_thread (z_reschedule True k) = cache k \<and> cache (z_reschedule True k) = cache k \<and>
      runq (z_reschedule True k) = runq k" if "\<not> in_isr k"
    using that by (simp add: z_reschedule_def resched_def need_swap_def z_swap_def do_swap_def z_swap_next_thread_def
        k_spin_unlock_def Let_def)
  have s: "current_thread (z_get_next_switch_handle k) = cache k \<and> cache (z_get_next_switch_handle k) = cache k \<and>
      runq (z_get_next_switch_handle k) = runq k"
    by (simp add: z_get_next_switch_handle_def Let_def)
  have c: "current_thread k' = cache k" "cache k' = cache k" "runq k' = runq k"
    using assms(2) r s by metis+
  have i: "kinv k'" using assms(2) kinv_reschedule(1) [OF assms(1)] kinv_switch_handle [OF assms(1)] by metis
  have "runs_best k' \<or> current_thread k' = current_thread k \<and> runs k' \<and> \<not> is_preempt (threads k' (current_thread k'))"
  proof (cases "current_thread k' = current_thread k")
    case True
    with cache_runs [OF i] c show ?thesis by simp
  next
    case False
    then have "current_thread k' = next_up k'"
      using c kinv_exD(2) [OF assms(1)] next_up_frame [OF c(3)] by (auto simp: cache_ok_def)
    with runs_best_next_up [OF kinv_exD(1) [OF i]] show ?thesis by simp
  qed
  with i show ?thesis by (rule conjI)
qed

text \<open>A state with three ready threads besides the main thread: 3 and 4 at priority 5, 5 at priority 7.\<close>

definition busy :: kernel where
  "busy = k_thread_create 5 7 0 K_NO_WAIT (k_thread_create 4 5 0 K_NO_WAIT
     (k_thread_create 3 5 0 K_NO_WAIT (kernel_boot 0)))"

lemma create_ok:
  assumes "kinv k" "current_thread k = z_main_thread" "t > 2" "bit (thread_state (threads k t)) 3"
    "pended_on (threads k t) = None" "timeout_list k = []" "waitqs k (JoinQ t) = []"
  shows "kinv (k_thread_create t p opts n k)"
  using assms by (intro kinv_thread_create) (simp_all add: tid_defs state_flags to_linked_def)

lemma busy_kinv: "kinv busy"
  unfolding busy_def
proof (intro create_ok kinv_boot)
qed (code_simp)+

theorem schedule_point_witness: "runs_best (z_reschedule True busy)"
proof -
  have "\<not> in_isr busy" by code_simp
  moreover have "is_preempt (threads (z_reschedule True busy) (current_thread (z_reschedule True busy)))"
    by code_simp
  ultimately show ?thesis using schedule_point [OF busy_kinv, of "z_reschedule True busy"] by blast
qed

section \<open>Waiting\<close>

definition waitq_sorted :: "wq \<Rightarrow> 'a kernel_scheme \<Rightarrow> bool" where
  "waitq_sorted q k \<longleftrightarrow> sorted_wrt (\<lambda>a b. prio (threads k a) \<le> prio (threads k b)) (waitqs k q)"

lemma deadline_reset_slice:
  assumes "timeout_wf k" "to_linked (ThreadTO t) k"
  shows "deadline (z_reset_time_slice u k) (ThreadTO t) = deadline k (ThreadTO t)"
proof -
  let ?k = "(snd (z_abort_timeout SliceTO k))\<lparr>slice_expired := False\<rparr>"
  have k: "timeout_wf ?k" "to_linked (ThreadTO t) ?k" "\<not> to_linked SliceTO ?k"
    "deadline ?k (ThreadTO t) = deadline k (ThreadTO t)"
    using assms by (simp_all add: deadline_abort)
  have "deadline (z_add_timeout SliceTO Slice_timeout n ?k) (ThreadTO t) = deadline ?k (ThreadTO t)" for n
  proof (cases "n = K_FOREVER")
    case True
    then show ?thesis by (simp add: z_add_timeout_def)
  next
    case False
    then show ?thesis by (rule deadline_add_timeout(1) [OF k(1,3) _ k(2)])
  qed
  then show ?thesis using k(4) unfolding z_reset_time_slice_def Let_def by simp
qed

lemma deadline_update_cache:
  "timeout_wf k \<Longrightarrow> to_linked (ThreadTO t) k \<Longrightarrow> deadline (update_cache p k) (ThreadTO t) = deadline k (ThreadTO t)"
  by (auto simp: update_cache_def Let_def deadline_reset_slice)

lemma deadline_do_swap:
  "timeout_wf k \<Longrightarrow> to_linked (ThreadTO t) k \<Longrightarrow> deadline (do_swap key k) (ThreadTO t) = deadline k (ThreadTO t)"
  by (auto simp: do_swap_def Let_def deadline_reset_slice)

lemma elapsed_frame [simp]:
  "elapsed (z_reset_time_slice t k) = elapsed k" "curr_tick (z_reset_time_slice t k) = curr_tick k"
  "announce_remaining (z_reset_time_slice t k) = announce_remaining k"
  by (simp_all add: elapsed_def z_reset_time_slice_def Let_def)

lemma tick_get_unready: "sys_clock_tick_get (unready_thread t k) = sys_clock_tick_get k"
  by (simp add: sys_clock_tick_get_def elapsed_def unready_thread_def update_cache_def Let_def z_reset_time_slice_def)

lemma do_swap_fields:
  "waitqs (do_swap key k) = waitqs k" "runq (do_swap key k) = runq k"
  "prio (threads (do_swap key k) t) = prio (threads k t)"
  "pended_on (threads (do_swap key k) t) = pended_on (threads k t)"
  by (auto simp: do_swap_def Let_def)

lemma linked_do_swap:
  "timeout_wf k \<Longrightarrow> to_linked (ThreadTO t) (do_swap key k) = to_linked (ThreadTO t) k"
  by (auto simp: do_swap_def Let_def reset_slice_linked)

text \<open>What \<open>pend_locked\<close> does to the queues.\<close>

lemma pend_locked_fields:
  fixes q :: wq and timeout :: ticks
  assumes "kinv k" "runs k"
  defines "c \<equiv> current_thread k" and "k' \<equiv> pend_locked (current_thread k) (Some q) timeout k"
  shows "waitqs k' = (waitqs k)(q := z_priq_dumb_add (threads k) c (waitqs k q))"
    "prio (threads k' t) = prio (threads k t)"
    "to_linked (ThreadTO c) k' \<longleftrightarrow> timeout \<noteq> K_FOREVER"
    "timeout \<noteq> K_FOREVER \<Longrightarrow> Z_TICK_ABS timeout < 0 \<Longrightarrow>
       deadline k' (ThreadTO c) = sys_clock_tick_get k + timeout + 1"
    "runq k' = remove1 c (runq k)"
proof -
  let ?u = "unready_thread c k"
  let ?w = "waitq_add q c (upd_thread c (\<lambda>th. th\<lparr>pended_on := Some q\<rparr>) (upd_thread c z_mark_thread_as_pending ?u))"
  note D = kinv_exD [OF assms(1)]
  have q: "queued k c" using assms(2) sched_wfD(3) [OF D(1)] by (simp add: runs_def c_def)
  have wf: "timeout_wf ?u" "\<not> to_linked (ThreadTO c) ?u"
    using sched_wfD(12) [OF kinv_exD(1) [OF unready_current(1) [OF assms(1,2)]]] D(3) sched_wfD(12) [OF D(1)]
    by (simp_all add: c_def unready_linked)
  have k': "k' = (if timeout \<noteq> K_FOREVER then z_add_timeout (ThreadTO c) Z_thread_timeout timeout ?w else ?w)"
    by (simp add: k'_def c_def pend_locked_def add_thread_timeout_def z_add_thread_timeout_def add_to_waitq_locked_def)
  have add: "z_priq_dumb_add (threads ?w) c (waitqs k q) = z_priq_dumb_add (threads k) c (waitqs k q)"
    by (rule dumb_add_cong) (simp add: unready_simps)
  have ww: "waitqs ?w = (waitqs k)(q := z_priq_dumb_add (threads ?w) c (waitqs k q))"
    by (simp add: waitq_add_def unready_simps)
  show "waitqs k' = (waitqs k)(q := z_priq_dumb_add (threads k) c (waitqs k q))"
    using ww unfolding add by (simp add: k')
  show "prio (threads k' t) = prio (threads k t)" by (simp add: k' unready_simps)
  show "to_linked (ThreadTO c) k' \<longleftrightarrow> timeout \<noteq> K_FOREVER" using wf by (simp add: k')
  show "runq k' = remove1 c (runq k)" using q by (simp add: k' unready_thread_def Let_def)
  have "sys_clock_tick_get ?w = sys_clock_tick_get ?u"
    by (simp add: sys_clock_tick_get_def elapsed_def waitq_add_def)
  then have tg: "sys_clock_tick_get ?w = sys_clock_tick_get k" by (simp add: tick_get_unready)
  show "deadline k' (ThreadTO c) = sys_clock_tick_get k + timeout + 1" if "timeout \<noteq> K_FOREVER" "Z_TICK_ABS timeout < 0"
    using that wf deadline_add_timeout(2) [of ?w "ThreadTO c" timeout Z_thread_timeout] tg
    by (simp add: k' new_dticks_def sys_clock_tick_get_def)
qed

text \<open>
  C5. A thread that blocks (\<open>z_pend_curr\<close>) is switched out at once, never returning by
  itself, and the thread that runs instead has the highest priority of all ready
  threads. The blocked thread waits behind the threads of the same or a higher
  priority, its timeout, if any, expires the given number of full ticks from now,
  and the error it returns unless a waker sets another value is \<open>-EAGAIN\<close>.
\<close>

theorem pend_curr_blocks:
  assumes "kinv k" "runs k" "k' = z_pend_curr key (Some q) timeout k"
  defines "c \<equiv> current_thread k"
  shows "kinv k' \<and> current_thread k' \<noteq> c \<and> runs_best k' \<and>
     waitqs k' = (waitqs k)(q := takeWhile (\<lambda>t. prio (threads k t) \<le> prio (threads k c)) (waitqs k q) @ c #
        dropWhile (\<lambda>t. prio (threads k t) \<le> prio (threads k c)) (waitqs k q)) \<and>
     swap_retval (threads k' c) = - EAGAIN \<and>
     (to_linked (ThreadTO c) k' \<longleftrightarrow> timeout \<noteq> K_FOREVER) \<and>
     (0 \<le> timeout \<longrightarrow> deadline k' (ThreadTO c) = sys_clock_tick_get k + timeout + 1) \<and>
     (waitq_sorted q k \<longrightarrow> waitq_sorted q k')"
proof -
  let ?k = "k\<lparr>irq_unlocked := False\<rparr>"
  let ?p = "pend_locked (current_thread ?k) (Some q) timeout ?k"
  have i: "kinv ?k" "runs ?k" using assms(1,2) by (simp_all add: runs_def)
  have k': "k' = do_swap key ?p" using assms(3) by (simp add: z_pend_curr_def k_spin_lock_def z_swap_def)
  note p = pend_current [OF i, of "Some q" timeout] and f = pend_locked_fields [OF i, where q = q and timeout = timeout]
  note s = pended_swap [OF p, of key, unfolded z_swap_def, folded k']
  have pw: "sched_wf {} ?p" "timeout_wf ?p" using p sched_wfD(12) [of "{}" ?p] by (auto simp: pended_def)
  have w: "waitqs k' = (waitqs k)(q := z_priq_dumb_add (threads k) c (waitqs k q))"
    using f(1) unfolding k' do_swap_fields by (simp add: c_def)
  have pr: "prio (threads k' t) = prio (threads k t)" for t
    unfolding k' do_swap_fields using f(2) [of t] by simp
  have "runs_best k'"
    using s(1,3) next_up_frame [of k' ?p] kinv_exD(1) [OF s(1)] by (intro runs_best_next_up) (simp_all add: k' do_swap_fields)
  moreover have "to_linked (ThreadTO c) k' \<longleftrightarrow> timeout \<noteq> K_FOREVER"
    using f(3) pw(2) by (simp add: k' linked_do_swap c_def)
  moreover have "deadline k' (ThreadTO c) = sys_clock_tick_get k + timeout + 1" if "0 \<le> timeout"
    using that f(3,4) pw(2) by (simp add: k' deadline_do_swap c_def timeout_consts sys_clock_tick_get_def elapsed_def)
  moreover have "waitq_sorted q k'" if "waitq_sorted q k"
    using sorted_dumb_add [of "threads k" "waitqs k q" c] that by (simp add: waitq_sorted_def w pr)
  ultimately show ?thesis using s(1,2,6) w by (simp add: c_def dumb_add_split)
qed

theorem pend_curr_blocks_witness:
  "let k' = z_pend_curr True (Some (WQ 0)) 9 busy in
     kinv k' \<and> current_thread k' = 3 \<and> runs_best k' \<and> waitqs k' (WQ 0) = [1] \<and> deadline k' (ThreadTO 1) = 10"
proof -
  have "runs busy" by (simp add: runs_def) code_simp
  note t = pend_curr_blocks [OF busy_kinv this refl, of True "WQ 0" 9]
  have "current_thread busy = 1" "current_thread (z_pend_curr True (Some (WQ 0)) 9 busy) = 3"
    "waitqs busy (WQ 0) = []" "sys_clock_tick_get busy = 0" by code_simp+
  with t show ?thesis by simp
qed

text \<open>
  C6. Waking one thread of a wait queue that is in priority order (\<open>z_sched_wake\<close>) wakes
  one of the highest priority, the one that has waited longest among these. It
  gets the return value and the data of the waker, its timeout is cancelled, and
  it is ready unless it is suspended as well; the others keep waiting in order.
\<close>

theorem wake_first:
  assumes "kinv k" "waitq_sorted q k" "waitqs k q = t # ts" "z_sched_wake q v d k = (b, k')"
  shows "b \<and> kinv k' \<and> (\<forall>u \<in> set ts. prio (threads k t) \<le> prio (threads k u)) \<and>
     waitqs k' = (waitqs k)(q := ts) \<and> swap_retval (threads k' t) = v \<and> swap_data (threads k' t) = d \<and>
     \<not> to_linked (ThreadTO t) k' \<and> current_thread k' = current_thread k \<and>
     (thread_state (threads k t) = THREAD_PENDING \<longrightarrow> t \<in> set (runq k'))"
proof -
  let ?v = "z_thread_return_value_set_with_data t v d k"
  let ?u = "unpend_thread_no_timeout t ?v" and ?a = "snd (z_abort_timeout (ThreadTO t) (unpend_thread_no_timeout t (z_thread_return_value_set_with_data t v d k)))"
  note D = kinv_exD [OF assms(1)]
  have th: "threads ?v u = (if u = t then (threads k t)\<lparr>swap_retval := v, swap_data := d\<rparr> else threads k u)" for u
    by (simp add: z_thread_return_value_set_with_data_def arch_thread_return_value_set_def)
  have wv: "waitqs ?v = waitqs k" by (simp add: z_thread_return_value_set_with_data_def arch_thread_return_value_set_def)
  have p: "pended_on (threads ?v t) = Some q" using head_pended [OF D(1) assms(3)] by (simp add: th)
  have k': "b" "k' = ready_thread t ?a"
    using assms(3,4) by (auto simp: z_sched_wake_def z_waitq_head_def z_priq_dumb_best_def z_abort_thread_timeout_def)
  have i: "kinv k'" using kinv_sched_wake [OF assms(1), of q v d] assms(4) by simp
  have twf: "timeout_wf ?u" using sched_wfD(12) [OF D(1)]
    by (simp add: z_thread_return_value_set_with_data_def arch_thread_return_value_set_def)
  have na: "\<not> to_linked (ThreadTO t) ?a" using twf by simp
  have ina: "kinv_ex {t} ?a" using assms(1) p by (intro kinv_abort_timeout kinv_unpend) simp_all
  have "\<not> to_linked (ThreadTO t) k'"
    using na twf by (auto simp: k'(2) ready_thread_def update_cache_linked)
  moreover have "t \<in> set (runq k')" if st: "thread_state (threads k t) = THREAD_PENDING"
  proof -
    have "z_is_thread_ready t ?a"
      using na st by (simp add: ready_iff state_flags unpend_threads [OF p] th flag_defs)
    moreover have "\<not> queued ?a t" using not_queued_ex [OF kinv_exD(1) [OF ina]] by simp
    ultimately show ?thesis by (simp add: k'(2) ready_thread_def runq_queue)
  qed
  moreover have "waitqs k' = (waitqs k)(q := ts)"
    using assms(3) by (simp add: k'(2) unpend_waitqs [OF p] wv)
  moreover have "swap_retval (threads k' t) = v \<and> swap_data (threads k' t) = d"
    by (simp add: k'(2) unpend_threads [OF p] th z_mark_thread_as_not_pending_def)
  moreover have "current_thread k' = current_thread k"
    by (simp add: k'(2) z_thread_return_value_set_with_data_def arch_thread_return_value_set_def)
  ultimately show ?thesis using k'(1) i assms(2,3) by (simp add: waitq_sorted_def)
qed

theorem wake_first_witness:
  "let k = z_pend_curr True (Some (WQ 0)) 9 (z_pend_curr True (Some (WQ 0)) 9 busy) in
     fst (z_sched_wake (WQ 0) 7 8 k) \<and> waitqs k (WQ 0) = [1, 3] \<and>
     1 \<in> set (runq (snd (z_sched_wake (WQ 0) 7 8 k))) \<and> waitqs (snd (z_sched_wake (WQ 0) 7 8 k)) (WQ 0) = [3]"
proof -
  let ?k1 = "z_pend_curr True (Some (WQ 0)) 9 busy"
  let ?k = "z_pend_curr True (Some (WQ 0)) 9 ?k1"
  have r: "runs busy" "runs ?k1" by (simp_all add: runs_def) code_simp+
  have i: "kinv ?k" by (intro kinv_pend_curr busy_kinv r)
  have w: "waitqs ?k (WQ 0) = [1, 3]" "thread_state (threads ?k 1) = THREAD_PENDING" by code_simp+
  have s: "waitq_sorted (WQ 0) ?k" unfolding waitq_sorted_def by code_simp
  from wake_first [OF i s w(1), of 7 8 "fst (z_sched_wake (WQ 0) 7 8 ?k)" "snd (z_sched_wake (WQ 0) 7 8 ?k)"] w
  show ?thesis by simp
qed

section \<open>Rotation\<close>

lemma requeue_runq:
  "runq (queue_thread c (dequeue_thread c k)) =
     takeWhile (\<lambda>t. prio (threads k t) \<le> prio (threads k c)) (remove1 c (runq k)) @ c #
     dropWhile (\<lambda>t. prio (threads k t) \<le> prio (threads k c)) (remove1 c (runq k))"
proof -
  have "z_priq_dumb_add (threads (dequeue_thread c k)) c (remove1 c (runq k)) = z_priq_dumb_add (threads k) c (remove1 c (runq k))"
    by (rule dumb_add_cong) simp
  then show ?thesis by (simp add: runq_queue dumb_add_split)
qed

lemma update_cache_True: "cache (update_cache True k) = next_up k"
  by (simp add: update_cache_def should_preempt_def Let_def)

lemma next_up_hd: "runq k \<noteq> [] \<Longrightarrow> next_up k = hd (runq k)"
  by (cases "runq k") (auto simp: next_up_def runq_best_def z_priq_dumb_best_def)

text \<open>
  C8. \<open>k_yield\<close> moves the caller behind the other ready threads of its priority and ahead
  of those of lower priority, and the first ready thread runs: another one
  whenever any ready thread has the caller's priority or a higher one.
\<close>

theorem yield_rotates:
  assumes "kinv k" "runs k"
  defines "c \<equiv> current_thread k" and "others \<equiv> remove1 (current_thread k) (runq k)"
  shows "kinv (k_yield k) \<and>
     runq (k_yield k) = takeWhile (\<lambda>t. prio (threads k t) \<le> prio (threads k c)) others @ c #
        dropWhile (\<lambda>t. prio (threads k t) \<le> prio (threads k c)) others \<and>
     current_thread (k_yield k) = hd (runq (k_yield k)) \<and>
     ((\<exists>t \<in> set others. prio (threads k t) \<le> prio (threads k c)) \<longleftrightarrow> current_thread (k_yield k) \<noteq> c)"
proof -
  let ?k = "k\<lparr>irq_unlocked := False\<rparr>"
  let ?q = "queue_thread c (dequeue_thread c ?k)"
  let ?A = "takeWhile (\<lambda>t. prio (threads k t) \<le> prio (threads k c)) others"
  note w = kinv_exD(1) [OF assms(1)]
  have y: "k_yield k = do_swap (irq_unlocked k) (update_cache True ?q)"
    by (simp add: k_yield_def k_spin_lock_def Let_def z_swap_def c_def)
  have rq: "runq ?q = ?A @ c # dropWhile (\<lambda>t. prio (threads k t) \<le> prio (threads k c)) others"
    using requeue_runq [of c ?k] by (simp add: c_def others_def)
  have r: "runq (k_yield k) = runq ?q" by (simp add: y do_swap_fields)
  have cur: "current_thread (k_yield k) = hd (runq ?q)"
    by (simp add: y do_swap_current update_cache_True next_up_hd rq)
  have "distinct (runq k)" using sched_wfD(1) [OF w] .
  then have cA: "c \<notin> set ?A" by (auto simp: c_def others_def dest!: set_takeWhileD)
  have so: "sorted_wrt (\<lambda>a b. prio (threads k a) \<le> prio (threads k b)) others"
    using sched_wfD(2) [OF w] by (simp add: others_def sorted_wrt_remove1)
  have "(\<exists>t \<in> set others. prio (threads k t) \<le> prio (threads k c)) \<longleftrightarrow> ?A \<noteq> []"
    using so by (cases others) auto
  also have "\<dots> \<longleftrightarrow> hd (runq ?q) \<noteq> c" using cA by (cases ?A) (auto simp: rq)
  finally show ?thesis using kinv_yield [OF assms(1,2)] r rq cur by simp
qed

theorem yield_rotates_witness:
  "current_thread (k_yield (z_pend_curr True (Some (WQ 0)) K_FOREVER busy)) = 4 \<and>
   runq (k_yield (z_pend_curr True (Some (WQ 0)) K_FOREVER busy)) = [4, 3, 5]"
proof -
  let ?k = "z_pend_curr True (Some (WQ 0)) K_FOREVER busy"
  have "runs busy" "runs ?k" by (simp_all add: runs_def) code_simp+
  note t = yield_rotates [OF kinv_pend_curr(1) [OF busy_kinv this(1)] this(2)]
  have "current_thread ?k = 3" "runq ?k = [3, 4, 5]" "prio (threads ?k 3) = 5" "prio (threads ?k 4) = 5"
    "prio (threads ?k 5) = 7" by code_simp+
  with t show ?thesis by simp
qed

text \<open>
  C9. When the time slice of the running thread has expired, the next timer
  announcement (\<open>z_time_slice\<close>) moves it behind the ready threads of its priority, and
  the first of these runs next.
\<close>

theorem time_slice_rotates:
  assumes "kinv k" "slice_expired k" "sliceable (current_thread k) k"
  defines "c \<equiv> current_thread k" and "others \<equiv> remove1 (current_thread k) (runq k)"
  shows "kinv (z_time_slice k) \<and>
     runq (z_time_slice k) = takeWhile (\<lambda>t. prio (threads k t) \<le> prio (threads k c)) others @ c #
        dropWhile (\<lambda>t. prio (threads k t) \<le> prio (threads k c)) others \<and>
     cache (z_time_slice k) = hd (runq (z_time_slice k)) \<and> to_linked SliceTO (z_time_slice k)"
proof -
  note D = kinv_exD [OF assms(1)]
  have s: "\<not> prevented k c" "c \<noteq> z_idle_thread"
    using assms(3) by (auto simp: sliceable_def z_is_idle_thread_object_def c_def)
  then have q: "queued k c" using sched_wfD(5) [OF D(1), of c] D(3) by (simp add: ready_iff c_def)
  let ?q = "update_cache True (queue_thread c (dequeue_thread c k))"
  have z: "z_time_slice k = z_reset_time_slice c ?q"
    using assms(2,3) s(1) q by (simp add: z_time_slice_def move_thread_to_end_of_prio_q_def c_def Let_def)
  have twf: "timeout_wf ?q"
    using base_update_cache [OF kinv_requeue [OF assms(1) q], of True] sched_wfD(12) kinv_exD(1) by blast
  have st: "slice_ticks k \<noteq> 0" using assms(3) by (simp add: sliceable_def slice_time_def)
  have sl: "sliceable c ((snd (z_abort_timeout SliceTO ?q))\<lparr>slice_expired := False\<rparr>)"
    using assms(3) by (simp add: sliceable_def slice_time_def c_def is_preempt_def preempt_def state_flags)
  have "to_linked SliceTO (z_reset_time_slice c ?q)"
    using sl st twf by (simp add: z_reset_time_slice_def Let_def slice_time_def timeout_consts)
  then show ?thesis
    using kinv_time_slice [OF assms(1)] requeue_runq [of c k]
    by (simp add: z c_def others_def update_cache_True next_up_hd)
qed

text \<open>A state in which the slice of the running thread has expired.\<close>

definition sliced :: kernel where
  "sliced = slice_timeout (k_sched_time_slice_set rtc_config 1 0 (z_pend_curr True (Some (WQ 0)) K_FOREVER busy))"

theorem time_slice_rotates_witness:
  "runq (z_time_slice sliced) = [4, 3, 5] \<and> cache (z_time_slice sliced) = 4"
proof -
  have "runs busy" by (simp add: runs_def) code_simp
  from kinv_pend_curr(1) [OF busy_kinv this]
  have "kinv (z_pend_curr True (Some (WQ 0)) K_FOREVER busy)" .
  then have "kinv ((z_pend_curr True (Some (WQ 0)) K_FOREVER busy)\<lparr>slice_ticks := i, slice_max_prio := 0\<rparr>)" for i
    by (simp add: kinv_ex_def quiet_def cache_ok_def next_up_def runq_best_def)
  then have "kinv sliced" unfolding sliced_def k_sched_time_slice_set_def slice_timeout_def
    by (simp add: kinv_reset_slice)
  moreover have "slice_expired sliced" "sliceable (current_thread sliced) sliced" by code_simp+
  moreover have "current_thread sliced = 3" "runq sliced = [3, 4, 5]" "prio (threads sliced 3) = 5" "prio (threads sliced 4) = 5"
    "prio (threads sliced 5) = 7" by code_simp+
  ultimately show ?thesis using time_slice_rotates [of sliced] by simp
qed

section \<open>The scheduler lock and cooperative threads\<close>

lemma ready_keeps_cache:
  assumes "kinv_ex {t} k" "current_thread k \<noteq> t" "runs k" "cache k = current_thread k"
    "sched_locked (threads k (current_thread k)) \<noteq> 0 \<or> prio (threads k (current_thread k)) < 0"
  shows "cache (ready_thread t k) = current_thread k"
proof -
  let ?c = "current_thread k"
  note D = kinv_exD [OF assms(1)]
  have np: "\<not> is_preempt (threads k ?c)"
    using assms(5) sched_wfD(11) [OF D(1), of ?c] is_preempt_iff [of "threads k ?c"] by auto
  have "\<not> prevented k ?c" using assms(3) sched_wfD(3,4) [OF D(1), of ?c] by (auto simp: runs_def ready_iff)
  then have "\<not> should_preempt u False (queue_thread t k)" for u
    using np assms(2) by (simp add: should_preempt_def is_metairq_def)
  then show ?thesis using assms(4) by (simp add: ready_thread_def update_cache_def Let_def)
qed

lemma reschedule_stays: "cache k = current_thread k \<Longrightarrow> current_thread (z_reschedule key k) = current_thread k"
  by (simp add: z_reschedule_def need_swap_def k_spin_unlock_def)

lemma wake_keeps_cache:
  assumes "kinv k" "runs k" "cache k = current_thread k"
    "sched_locked (threads k (current_thread k)) \<noteq> 0 \<or> prio (threads k (current_thread k)) < 0"
  shows "cache (snd (z_sched_wake q v d k)) = current_thread k \<and> current_thread (snd (z_sched_wake q v d k)) = current_thread k"
proof (cases "waitqs k q")
  case Nil
  then show ?thesis using assms(3) by (simp add: z_sched_wake_def z_waitq_head_def z_priq_dumb_best_def)
next
  case (Cons u us)
  let ?v = "z_thread_return_value_set_with_data u v d k"
  let ?a = "snd (z_abort_timeout (ThreadTO u) (unpend_thread_no_timeout u ?v))"
  have pu: "pended_on (threads k u) = Some q" using head_pended [OF kinv_exD(1) [OF assms(1)] Cons] .
  have p: "pended_on (threads ?v u) = Some q"
    using pu by (simp add: z_thread_return_value_set_with_data_def arch_thread_return_value_set_def)
  have ne: "current_thread k \<noteq> u" using pu runs_not_pended [OF assms(1,2)] by auto
  have i: "kinv_ex {u} ?a" by (intro kinv_abort_timeout kinv_unpend [OF _ p] kinv_return_value assms(1)) simp
  have f: "current_thread ?a = current_thread k" "cache ?a = cache k" "runq ?a = runq k"
    "threads ?a (current_thread k) = threads k (current_thread k)"
    using ne unpend_threads [OF p, of "current_thread k"]
    by (simp_all add: z_thread_return_value_set_with_data_def arch_thread_return_value_set_def)
  have "cache (ready_thread u ?a) = current_thread k"
    using ready_keeps_cache [OF i, unfolded runs_def f] ne assms(2-4) by (simp add: runs_def)
  with Cons f(1) show ?thesis
    by (simp add: z_sched_wake_def z_waitq_head_def z_priq_dumb_best_def z_abort_thread_timeout_def)
qed

text \<open>
  C10. While the running thread is cooperative or has locked the scheduler, waking,
  starting or resuming another thread does not take the CPU from it, whatever
  the priorities: neither at once nor at the end of an interrupt.
\<close>

theorem nonpreemptible_keeps_cpu:
  assumes "kinv k" "runs k" "cache k = current_thread k" "t \<noteq> z_idle_thread"
    "sched_locked (threads k (current_thread k)) \<noteq> 0 \<or> prio (threads k (current_thread k)) < 0"
  shows "current_thread (z_reschedule key (snd (z_sched_wake q v d k))) = current_thread k \<and>
     current_thread (z_get_next_switch_handle (snd (z_sched_wake q v d k))) = current_thread k \<and>
     current_thread (k_thread_resume t k) = current_thread k \<and> current_thread (z_sched_start t k) = current_thread k"
proof -
  let ?c = "current_thread k" and ?k = "k\<lparr>irq_unlocked := False\<rparr>"
  note w = kinv_exD(1) [OF assms(1)]
  have c: "queued k ?c" "\<not> prevented k ?c"
    using assms(2) sched_wfD(3,4) [OF w, of ?c] by (auto simp: runs_def ready_iff)
  have rdy: "cache (ready_thread t (upd_thread t m ?k)) = ?c"
    if "prevented k t" "\<And>th. bit (thread_state (m th)) 7 \<Longrightarrow> bit (thread_state th) 7" "\<And>th. pended_on (m th) = pended_on th"
      "\<And>th. bit (thread_state th) 1 \<Longrightarrow> bit (thread_state (m th)) 1" "\<And>th. prio (m th) = prio th"
      "\<And>th. sched_locked (m th) = sched_locked th" "\<And>th. no_wake_on_timeout (m th) \<Longrightarrow> no_wake_on_timeout th"
      "\<And>th. bit (thread_state (m th)) 5 \<Longrightarrow> bit (thread_state th) 5" for m
  proof -
    have "kinv_ex {t} ?k" using kinv_transit [OF assms(1) prevented_not_queued [OF w that(1)] assms(4)] by simp
    then have i: "kinv_ex {t} (upd_thread t m ?k)" by (rule kinv_upd) (use that in auto)
    have "?c \<noteq> t" using c that(1) by auto
    then show ?thesis using ready_keeps_cache [OF i] assms(2,3,5) by (simp add: runs_def)
  qed
  have "current_thread (k_thread_resume t k) = ?c"
  proof (cases "z_is_thread_suspended (threads k t)")
    case True
    then have "cache (ready_thread t (upd_thread t z_mark_thread_as_not_suspended ?k)) = ?c"
      by (intro rdy) (simp_all add: state_flags)
    with True show ?thesis by (simp add: k_thread_resume_def k_spin_lock_def reschedule_stays)
  qed (simp add: k_thread_resume_def k_spin_lock_def k_spin_unlock_def)
  moreover have "current_thread (z_sched_start t k) = ?c"
  proof (cases "z_has_thread_started (threads k t)")
    case False
    then have "cache (ready_thread t (upd_thread t z_mark_thread_as_started ?k)) = ?c"
      by (intro rdy) (simp_all add: state_flags)
    with False show ?thesis by (simp add: z_sched_start_def k_spin_lock_def reschedule_stays)
  qed (simp add: z_sched_start_def k_spin_lock_def k_spin_unlock_def)
  ultimately show ?thesis using wake_keeps_cache [OF assms(1-3,5), of q v d] by (simp add: reschedule_stays z_get_next_switch_handle_def Let_def)
qed

theorem nonpreemptible_keeps_cpu_witness:
  "let k = k_sched_lock (z_pend_curr True (Some (WQ 0)) K_FOREVER busy) in
     current_thread k = 3 \<and> current_thread (z_reschedule True (snd (z_sched_wake (WQ 0) 0 0 k))) = 3"
proof -
  let ?p = "z_pend_curr True (Some (WQ 0)) K_FOREVER busy"
  let ?k = "k_sched_lock ?p"
  have r: "runs busy" "runs ?p" "runs ?k" by (simp_all only: runs_def) code_simp+
  have "sched_locked (threads ?p (current_thread ?p)) \<noteq> 1" by code_simp
  then have i: "kinv ?k" by (intro kinv_sched_lock kinv_pend_curr(1) busy_kinv r)
  have "cache ?k = current_thread ?k" "(3 :: tid) \<noteq> z_idle_thread" "sched_locked (threads ?k (current_thread ?k)) \<noteq> 0"
    "current_thread ?k = 3" by code_simp+
  with nonpreemptible_keeps_cpu [OF i r(3), of 3] show ?thesis by simp
qed

section \<open>The end of a thread\<close>

lemma ready_thread_other: "u \<noteq> t \<Longrightarrow> threads (ready_thread t k) u = threads k u"
  by (simp add: ready_thread_def queue_thread_def runq_add_def)

lemma ready_thread_linked: "timeout_wf k \<Longrightarrow> to_linked (ThreadTO u) (ready_thread t k) = to_linked (ThreadTO u) k"
  by (simp add: ready_thread_def update_cache_linked)

text \<open>What stays true of a thread that has ended while its joiners are woken.\<close>

definition gone :: "tid \<Rightarrow> 'a kernel_scheme \<Rightarrow> bool" where
  "gone t k \<longleftrightarrow> base_inv {} k \<and> bit (thread_state (threads k t)) 3 \<and> pended_on (threads k t) = None \<and>
     \<not> to_linked (ThreadTO t) k"

lemma gone_wake_head:
  assumes "gone t k" "waitqs k q = h # ts"
  shows "gone t (ready_thread h (arch_thread_return_value_set h v
     (snd (z_abort_timeout (ThreadTO h) (unpend_thread_no_timeout h k)))))"
proof -
  have b: "base_inv {} k" using assms(1) by (simp add: gone_def)
  then have w: "sched_wf {} k" by (simp add: base_inv_def)
  have p: "pended_on (threads k h) = Some q" using head_pended [OF w assms(2)] .
  then have "h \<noteq> t" using assms(1) by (auto simp: gone_def)
  with assms(1) base_wake_head(1) [OF b assms(2), of v] sched_wfD(12) [OF w] show ?thesis
    by (auto simp: gone_def ready_thread_other ready_thread_linked arch_thread_return_value_set_def unpend_threads [OF p])
qed

interpretation gone_joiners: waitq_loop
    "\<lambda>thread k. ready_thread thread (arch_thread_return_value_set thread 0
       (snd (z_abort_thread_timeout thread (unpend_thread_no_timeout thread k))))"
    q "gone t" "\<lambda>u k. swap_retval (threads k u) = 0 \<and> pended_on (threads k u) = None" for q t
  unfolding z_abort_thread_timeout_def
proof unfold_locales
  fix k h ts u
  let ?k = "ready_thread h (arch_thread_return_value_set h 0 (snd (z_abort_timeout (ThreadTO h) (unpend_thread_no_timeout h k))))"
  assume g: "gone t k" and q: "waitqs k q = h # ts"
  then have b: "base_inv {} k" by (simp add: gone_def)
  show "gone t ?k" using gone_wake_head [OF g q] .
  show "waitqs ?k q = ts" using base_wake_head(2) [OF b q] .
  show "swap_retval (threads ?k h) = 0 \<and> pended_on (threads ?k h) = None" using base_wake_head(3,4) [OF b q] by blast
  show "swap_retval (threads ?k u) = 0 \<and> pended_on (threads ?k u) = None"
    if "u \<noteq> h" "swap_retval (threads k u) = 0 \<and> pended_on (threads k u) = None"
    using that base_wake_head(5,6) [OF b q] by metis
qed

text \<open>A field that one round of a wait queue loop keeps is kept by the loop.\<close>

lemma drain_keep: "(\<And>t k. g (body t k) = g k) \<Longrightarrow> g (drain body n q k) = g k"
  by (induction n arbitrary: k) (auto split: option.splits)

lemma unpend_all_keep:
  "current_thread (unpend_all q k) = current_thread k" "in_isr (unpend_all q k) = in_isr k"
  unfolding unpend_all_def by (rule drain_keep; simp add: arch_thread_return_value_set_def z_abort_thread_timeout_def)+

lemma end_thread_gone:
  assumes i: "kinv k" and t: "t \<noteq> z_idle_thread" "\<not> bit (thread_state (threads k t)) 3"
  shows "kinv (end_thread t k)" "gone t (end_thread t k)" "cache (end_thread t k) = next_up (end_thread t k)"
    "current_thread (end_thread t k) = current_thread k" "in_isr (end_thread t k) = in_isr k"
    "waitqs (end_thread t k) (JoinQ t) = []"
    "\<And>u. u \<in> set (waitqs k (JoinQ t)) \<Longrightarrow> u \<noteq> t \<Longrightarrow>
       swap_retval (threads (end_thread t k) u) = 0 \<and> pended_on (threads (end_thread t k) u) = None"
proof -
  let ?k1 = "upd_thread t mark_dead k"
  let ?k2 = "if queued ?k1 t then dequeue_thread t ?k1 else ?k1"
  let ?k3 = "if pended_on (threads ?k2 t) \<noteq> None then unpend_thread_no_timeout t ?k2 else ?k2"
  let ?k4 = "snd (z_abort_timeout (ThreadTO t) ?k3)"
  note d = end_thread_detach [OF i t(1)]
  define k4 where "k4 = ?k4"
  note d = d [folded k4_def]
  have e: "end_thread t k = update_cache True (unpend_all (JoinQ t) k4)"
    using end_thread_unfold [OF t(2)] by (simp add: Let_def k4_def)
  have w4: "sched_wf {} k4" using d(1) by (simp add: base_inv_def)
  have p4: "pended_on (threads k4 t) = None"
  proof (rule ccontr)
    assume "pended_on (threads k4 t) \<noteq> None"
    then obtain q where "t \<in> set (waitqs k4 q)" using sched_wfD(9) [OF w4] by blast
    then show False using sched_wfD(8) [OF kinv_exD(1) [OF i]] unfolding d(4) by (simp add: remove1_distinct_set)
  qed
  have "timeout_wf ?k3" using sched_wfD(12) [OF kinv_exD(1) [OF i]] by simp
  then have "\<not> to_linked (ThreadTO t) k4" by (simp add: k4_def)
  then have "gone t k4" using d(1,2) p4 by (simp add: gone_def)
  note s = gone_joiners.drain_spec [OF this order_refl sched_wfD(8) [OF w4], of "JoinQ t", folded unpend_all_def]
  have g: "gone t (unpend_all (JoinQ t) k4)" using s by blast
  then have "kinv (end_thread t k)" unfolding e by (intro base_update_cache) (auto simp: gone_def)
  moreover from this show "kinv (end_thread t k)" .
  moreover have "timeout_wf (unpend_all (JoinQ t) k4)" using g sched_wfD(12) by (auto simp: gone_def base_inv_def)
  ultimately show "gone t (end_thread t k)" using g kinv_base by (auto simp: gone_def e update_cache_linked)
  show "waitqs (end_thread t k) (JoinQ t) = []" using s by (simp add: e)
  show "swap_retval (threads (end_thread t k) u) = 0 \<and> pended_on (threads (end_thread t k) u) = None"
    if "u \<in> set (waitqs k (JoinQ t))" "u \<noteq> t" for u
  proof -
    have "u \<in> set (waitqs k4 (JoinQ t))" using that unfolding d(4) by simp
    with s show ?thesis by (simp add: e)
  qed
  show "cache (end_thread t k) = next_up (end_thread t k)"
    using update_cache_True next_up_frame [of "end_thread t k" "unpend_all (JoinQ t) k4"] by (simp add: e)
  show "current_thread (end_thread t k) = current_thread k" "in_isr (end_thread t k) = in_isr k"
    using d(3,5) by (simp_all add: e unpend_all_keep)
qed
text \<open>
  C7. Aborting a thread that is not essential (\<open>z_thread_abort\<close>) makes it dead for good: it is
  on no run queue and no wait queue, has no timeout, and does not run again,
  not even when it aborts itself. Every thread that was joining it stops waiting and
  gets 0 as the result of \<open>k_thread_join\<close>. The scheduler's invariant holds.
\<close>

theorem abort_ends_thread:
  assumes "kinv k" "t \<noteq> z_idle_thread" "user_options (threads k t) AND K_ESSENTIAL = 0"
    "thread_state (threads k t) AND THREAD_DEAD = 0"
  defines "k' \<equiv> z_thread_abort t k"
  shows "kinv k' \<and> thread_state (threads k' t) AND THREAD_DEAD \<noteq> 0 \<and> t \<notin> set (runq k') \<and>
     (\<forall>q. t \<notin> set (waitqs k' q)) \<and> \<not> to_linked (ThreadTO t) k' \<and> waitqs k' (JoinQ t) = [] \<and>
     (\<forall>u \<in> set (waitqs k (JoinQ t)) - {t}. swap_retval (threads k' u) = 0 \<and> pended_on (threads k' u) = None) \<and>
     (\<not> in_isr k \<longrightarrow> t = current_thread k \<longrightarrow> current_thread k' \<noteq> t)"
proof -
  let ?k = "k\<lparr>irq_unlocked := False\<rparr>" and ?e = "end_thread t (k\<lparr>irq_unlocked := False\<rparr>)"
  have nd: "\<not> bit (thread_state (threads ?k t)) 3" using assms(4) by (simp add: flag_defs)
  note e = end_thread_gone [of ?k t, simplified, OF assms(1,2) nd [simplified]]
  have i: "kinv k'" unfolding k'_def using kinv_thread_abort [OF assms(1-3)] .
  have k': "k' = (if t = current_thread k \<and> \<not> in_isr k then do_swap (irq_unlocked k) ?e
      else ?e\<lparr>irq_unlocked := irq_unlocked k\<rparr>)"
    using assms(3,4) e(4,5) by (simp add: k'_def z_thread_abort_def k_spin_lock_def k_spin_unlock_def z_swap_def Let_def)
  have twf: "timeout_wf ?e" using sched_wfD(12) [OF kinv_exD(1) [OF e(1)]] .
  have th: "thread_state (threads k' u) = thread_state (threads ?e u)" "pended_on (threads k' u) = pended_on (threads ?e u)"
    "u \<noteq> t \<Longrightarrow> swap_retval (threads k' u) = swap_retval (threads ?e u)"
    "waitqs k' = waitqs ?e" "to_linked (ThreadTO u) k' = to_linked (ThreadTO u) ?e" for u
    using e(4) twf by (auto simp: k' do_swap_def Let_def reset_slice_linked)
  have g: "bit (thread_state (threads k' t)) 3" "pended_on (threads k' t) = None" "\<not> to_linked (ThreadTO t) k'"
    using e(2) by (simp_all add: gone_def th)
  note w = kinv_exD(1) [OF i]
  have rq: "t \<notin> set (runq k')" using g(1) sched_wfD(3,4) [OF w, of t] by (auto simp: ready_iff state_flags)
  have wq: "t \<notin> set (waitqs k' q)" for q using g(2) sched_wfD(9) [OF w, of t q] by simp
  have joiners: "swap_retval (threads k' u) = 0 \<and> pended_on (threads k' u) = None"
    if "u \<in> set (waitqs k (JoinQ t)) - {t}" for u
    using that e(7) [of u] th(2,3) [of u] by auto
  have "current_thread k' \<noteq> t" if "\<not> in_isr k" "t = current_thread k"
  proof -
    have "current_thread k' = next_up ?e" using that e(3) by (simp add: k' do_swap_current)
    moreover have "next_up ?e \<noteq> t"
      using next_up_mem [of ?e] assms(2) rq by (auto simp: k' do_swap_fields split: if_splits)
    ultimately show ?thesis by simp
  qed
  with i g rq wq joiners e(6) show ?thesis by (simp add: th(4) flag_defs)
qed

theorem abort_ends_thread_witness:
  "let k = snd (k_thread_join 3 K_FOREVER busy) in
     current_thread k = 3 \<and> current_thread (z_thread_abort 3 k) \<noteq> 3 \<and> swap_retval (threads (z_thread_abort 3 k) 1) = 0"
proof -
  let ?k = "snd (k_thread_join 3 K_FOREVER busy)"
  have "runs busy" by (simp add: runs_def) code_simp
  note i = kinv_thread_join [OF busy_kinv this, of 3 K_FOREVER]
  have "user_options (threads ?k 3) AND K_ESSENTIAL = 0" "thread_state (threads ?k 3) AND THREAD_DEAD = 0"
    "(3::tid) \<noteq> z_idle_thread" by code_simp+
  note t = abort_ends_thread [OF i this(3,1,2)]
  have "waitqs ?k (JoinQ 3) = [1]" "current_thread ?k = 3" "\<not> in_isr ?k" by code_simp+
  with t show ?thesis unfolding Let_def by simp
qed

section \<open>Behaviour that differs from the documentation\<close>

text \<open>
  C31. Aborting another thread, or setting the priority of a ready one, chooses the next
  thread as if the running one were preemptible: at the end of the next
  interrupt the ready thread of highest priority runs, even when the running
  thread is cooperative or holds the scheduler lock.
\<close>

theorem lock_overridden:
  assumes "kinv k" "t \<noteq> z_idle_thread" "t \<noteq> current_thread k" "user_options (threads k t) AND K_ESSENTIAL = 0"
    "thread_state (threads k t) AND THREAD_DEAD = 0"
  shows "runs_best (z_get_next_switch_handle (z_thread_abort t k)) \<and>
     (z_is_thread_ready t k \<longrightarrow> runs_best (z_get_next_switch_handle (snd (z_set_prio t p k))))"
proof -
  have best: "runs_best (z_get_next_switch_handle k1)" if "kinv k1" "cache k1 = next_up k1" for k1 :: "'a kernel_scheme"
  proof (rule runs_best_next_up)
    show "sched_wf {} (z_get_next_switch_handle k1)" using kinv_switch_handle [OF that(1)] kinv_exD(1) by blast
    show "current_thread (z_get_next_switch_handle k1) = next_up (z_get_next_switch_handle k1)"
      using that(2) next_up_frame [of "z_get_next_switch_handle k1" k1] by (simp add: z_get_next_switch_handle_def Let_def)
  qed
  have nd: "\<not> bit (thread_state (threads (k\<lparr>irq_unlocked := False\<rparr>) t)) 3" using assms(5) by (simp add: flag_defs)
  note e = end_thread_gone [of "k\<lparr>irq_unlocked := False\<rparr>" t, simplified, OF assms(1,2) nd [simplified]]
  have "z_thread_abort t k = (end_thread t (k\<lparr>irq_unlocked := False\<rparr>))\<lparr>irq_unlocked := irq_unlocked k\<rparr>"
    using assms(3-5) e(4,5) by (simp add: z_thread_abort_def k_spin_lock_def k_spin_unlock_def Let_def)
  then have "runs_best (z_get_next_switch_handle (z_thread_abort t k))"
    using best [OF kinv_thread_abort [OF assms(1,2,4)]] e(3) by simp
  moreover have "cache (snd (z_set_prio t p k)) = next_up (snd (z_set_prio t p k))" if "z_is_thread_ready t k"
    using that next_up_frame [of "snd (z_set_prio t p k)"] by (simp add: z_set_prio_def Let_def update_cache_True next_up_def runq_best_def)
  ultimately show ?thesis using best [OF kinv_set_prio [OF assms(1,2)]] by blast
qed

text \<open>The main thread holds the scheduler lock; thread 3 has a higher priority and thread 4 is to be aborted.\<close>

definition locked :: kernel where
  "locked = k_thread_create 4 9 0 K_NO_WAIT (k_thread_create 3 5 0 K_NO_WAIT (k_sched_lock (kernel_boot 7)))"

theorem lock_overridden_witness:
  "runs_best (z_get_next_switch_handle (z_thread_abort 4 locked)) \<and>
   current_thread (z_get_next_switch_handle locked) = 1 \<and>
   current_thread (z_get_next_switch_handle (z_thread_abort 4 locked)) = 3"
proof -
  have l: "kinv (k_sched_lock (kernel_boot 7))"
    by (intro kinv_sched_lock kinv_boot runs_boot) code_simp
  have i: "kinv locked" unfolding locked_def by (intro create_ok l; code_simp)
  have "(4::tid) \<noteq> z_idle_thread" "4 \<noteq> current_thread locked" "user_options (threads locked 4) AND K_ESSENTIAL = 0"
    "thread_state (threads locked 4) AND THREAD_DEAD = 0" by code_simp+
  note t = lock_overridden [OF i this, of 0]
  have "current_thread (z_get_next_switch_handle locked) = 1"
    "current_thread (z_get_next_switch_handle (z_thread_abort 4 locked)) = 3" by code_simp+
  with t show ?thesis by simp
qed
text \<open>
  C32. Changing the priority of a thread that waits does not move it in its wait
  queue. Raised above a thread ahead of it, it keeps its place behind that
  thread, and the queue is not in priority order any more.
\<close>

theorem set_prio_keeps_place:
  fixes p :: int
  assumes "kinv k" "waitqs k q = a @ t # b"
  defines "k' \<equiv> snd (z_set_prio t p k)"
  shows "waitqs k' = waitqs k \<and> prio (threads k' t) = int8 p \<and>
     ((\<exists>u \<in> set a. int8 p < prio (threads k u)) \<longrightarrow> \<not> waitq_sorted q k')"
proof -
  note w = kinv_exD(1) [OF assms(1)]
  have "pended_on (threads k t) = Some q" using assms(2) sched_wfD(9) [OF w, of t q] by simp
  then have s: "k' = upd_thread t (\<lambda>th. th\<lparr>prio := int8 p\<rparr>) k"
    using sched_wfD(10) [OF w, of t] by (simp add: k'_def z_set_prio_def ready_iff state_flags)
  have "\<not> waitq_sorted q k'" if u: "u \<in> set a" "int8 p < prio (threads k u)" for u
  proof -
    have "u \<noteq> t" using u(1) assms(2) sched_wfD(8) [OF w, of q] by auto
    with u assms(2) show ?thesis by (auto simp: waitq_sorted_def s sorted_wrt_append)
  qed
  with s show ?thesis by auto
qed

text \<open>Threads 3 and 5 wait on the same queue, in this order.\<close>

definition two_waiting :: kernel where
  "two_waiting = z_pend_curr True (Some (WQ 0)) K_FOREVER (z_pend_curr True (Some (WQ 1)) K_FOREVER
     (z_pend_curr True (Some (WQ 0)) 9 (z_pend_curr True (Some (WQ 1)) K_FOREVER busy)))"

lemma two_waiting_kinv: "kinv two_waiting"
  unfolding two_waiting_def
  by (intro kinv_pend_curr(1) busy_kinv; unfold runs_def; code_simp)

theorem set_prio_keeps_place_witness:
  "waitq_sorted (WQ 0) two_waiting \<and> \<not> waitq_sorted (WQ 0) (snd (z_set_prio 5 1 two_waiting))"
proof -
  have q: "waitqs two_waiting (WQ 0) = [3] @ 5 # []" by code_simp
  have "prio (threads two_waiting 3) = 5" "prio (threads two_waiting 5) = 7" "int8 1 = 1" by code_simp+
  moreover from this have "waitq_sorted (WQ 0) two_waiting" by (simp add: waitq_sorted_def q)
  ultimately show ?thesis using set_prio_keeps_place [OF two_waiting_kinv q, of 1] by simp
qed

text \<open>
  C33. Suspending a thread that waits for an object cancels its timeout but does not
  end its wait: after \<open>k_thread_resume\<close> it still waits in its place, now with no
  timeout, so that it does not return from the blocked call.
\<close>

theorem suspend_loses_timeout:
  assumes "kinv k" "t \<noteq> current_thread k" "pended_on (threads k t) = Some q"
  defines "k' \<equiv> k_thread_resume t (k_thread_suspend t k)"
  shows "kinv k' \<and> waitqs k' = waitqs k \<and> pended_on (threads k' t) = Some q \<and> z_is_thread_pending (threads k' t) \<and>
     \<not> to_linked (ThreadTO t) k' \<and> t \<notin> set (runq k')"
proof -
  note D = kinv_exD [OF assms(1)]
  note twf = sched_wfD(12) [OF D(1)]
  have p: "z_is_thread_pending (threads k t)" using sched_wfD(10) [OF D(1), of t] assms(3) by simp
  then have ni: "t \<noteq> z_idle_thread" and nq: "\<not> queued k t"
    using sched_wfD(7) [OF D(1)] prevented_not_queued [OF D(1), of t] by (auto simp: ready_iff state_flags)
  let ?s = "upd_thread t z_mark_thread_as_suspended (snd (z_abort_timeout (ThreadTO t) k))"
  have s: "k_thread_suspend t k = update_cache False ?s"
    using assms(2) nq by (simp add: k_thread_suspend_def z_abort_thread_timeout_def Let_def)
  let ?u = "(update_cache False ?s)\<lparr>irq_unlocked := False\<rparr>"
  let ?m = "upd_thread t z_mark_thread_as_not_suspended ?u"
  have "ready_thread t ?m = ?m" using p by (simp add: ready_thread_def ready_iff state_flags)
  then have k': "k' = z_reschedule (irq_unlocked k) ?m"
    by (simp add: k'_def s k_thread_resume_def k_spin_lock_def Let_def state_flags)
  have i: "kinv k'" unfolding k'_def by (intro kinv_resume kinv_suspend assms(1) ni)
  have l: "\<not> to_linked (ThreadTO t) ?m" "timeout_wf ?m"
    using twf sched_wfD(12) [OF kinv_exD(1) [OF kinv_suspend [OF assms(1) ni]]]
    by (simp_all add: update_cache_linked s)
  have f: "waitqs k' = waitqs k" "pended_on (threads k' t) = Some q" "z_is_thread_pending (threads k' t)"
    "\<not> to_linked (ThreadTO t) k'"
    using l p assms(3) by (auto simp: k' z_reschedule_def z_swap_def do_swap_def Let_def k_spin_unlock_def state_flags reset_slice_linked)
  then have "\<not> queued k' t" using prevented_not_queued [OF kinv_exD(1) [OF i], of t] by (simp add: state_flags)
  with i f sched_wfD(3) [OF kinv_exD(1) [OF i]] show ?thesis by blast
qed

theorem suspend_loses_timeout_witness:
  "to_linked (ThreadTO 3) two_waiting \<and>
   (let k' = k_thread_resume 3 (k_thread_suspend 3 two_waiting) in \<not> to_linked (ThreadTO 3) k' \<and> 3 \<notin> set (runq k'))"
proof -
  have "3 \<noteq> current_thread two_waiting" "pended_on (threads two_waiting 3) = Some (WQ 0)"
    "to_linked (ThreadTO 3) two_waiting" by (code_simp, code_simp, unfold to_linked_def, code_simp)
  with suspend_loses_timeout [OF two_waiting_kinv this(1,2)] show ?thesis by (simp add: Let_def)
qed

text \<open>
  C34. A sleeping thread that is woken early is told how many ticks it had left to
  sleep, unless the 32-bit tick counter wraps around before the sleep would
  have ended: then it is told 0, as if the time had elapsed.
\<close>

theorem sleep_remaining:
  assumes "0 < n" "n < 2 ^ 31" "0 \<le> T0" "T0 \<le> T1" "T1 < T0 + n" "sys_clock_tick_get k = T0" "sys_clock_tick_get k1 = T1"
  shows "z_tick_sleep_resume (expected_wakeup_ticks n k) k1 =
     (if T1 div 2 ^ 32 = (T0 + n) div 2 ^ 32 then T0 + n - T1 else 0)"
proof -
  have "Z_TICK_ABS n \<le> 0" using assms(1) by (simp add: timeout_consts)
  then have e: "uint (expected_wakeup_ticks n k) = (T0 + n) mod 2 ^ 32"
    using assms(6) by (simp add: expected_wakeup_ticks_def sys_clock_tick_get_32_def uint_word_of_int add.commute
        flip: of_int_add)
  have s: "uint (sys_clock_tick_get_32 k1) = T1 mod 2 ^ 32"
    using assms(7) by (simp add: sys_clock_tick_get_32_def uint_word_of_int)
  define d where "d = T0 + n - T1"
  have d: "0 < d" "d < 2 ^ 31" using assms by (auto simp: d_def)
  have sd: "sint (word_of_int d :: u32) = d" using d by (simp add: signed_of_int signed_take_bit_int_eq_self)
  show ?thesis
  proof (cases "T1 div 2 ^ 32 = (T0 + n) div 2 ^ 32")
    case True
    then have "(T0 + n) mod 2 ^ 32 - T1 mod 2 ^ 32 = d"
      by (simp add: d_def minus_div_mult_eq_mod [symmetric])
    then show ?thesis using d sd True by (simp add: z_tick_sleep_resume_def e s Let_def d_def)
  next
    case False
    have "T1 div 2 ^ 32 \<le> (T0 + n) div 2 ^ 32" using assms(5) by (intro zdiv_mono1) auto
    with False have "T1 div 2 ^ 32 + 1 \<le> (T0 + n) div 2 ^ 32" by linarith
    then have "2 ^ 32 * (T1 div 2 ^ 32) + 2 ^ 32 \<le> 2 ^ 32 * ((T0 + n) div 2 ^ 32)" by simp
    then have "(T0 + n) mod 2 ^ 32 - T1 mod 2 ^ 32 \<le> d - 2 ^ 32"
      by (simp add: d_def minus_div_mult_eq_mod [symmetric])
    then have "(T0 + n) mod 2 ^ 32 - T1 mod 2 ^ 32 \<le> 0" using d by simp
    then show ?thesis using False by (simp add: z_tick_sleep_resume_def e s Let_def)
  qed
qed

theorem sleep_remaining_witness:
  "z_tick_sleep_resume (expected_wakeup_ticks 100 (busy\<lparr>curr_tick := 2 ^ 32 - 10\<rparr>)) (busy\<lparr>curr_tick := 2 ^ 32 - 5\<rparr>) = 0"
proof -
  have t: "sys_clock_tick_get (busy\<lparr>curr_tick := T\<rparr>) = T" for T
  proof -
    have "elapsed busy = 0" by code_simp
    then show ?thesis by (simp add: sys_clock_tick_get_def elapsed_def split: if_splits)
  qed
  show ?thesis using sleep_remaining [of 100 "2 ^ 32 - 10" "2 ^ 32 - 5" "busy\<lparr>curr_tick := 2 ^ 32 - 10\<rparr>" "busy\<lparr>curr_tick := 2 ^ 32 - 5\<rparr>"]
    by (simp add: t)
qed

end
