(* ===== verification/Waitq.thy ===== *)
theory Waitq
  imports Sched_Props
begin

text \<open>
  What the kernel objects do with their wait queues, on top of the scheduler:
  block the caller, hand something to the first waiting thread, and release
  all waiting threads with one result. The objects are records that name their
  wait queue; an operation takes the object and the kernel and returns both.
\<close>

lemma unat_inc: "w < (v :: 'a::len word) \<Longrightarrow> unat (w + 1) = unat w + 1"
proof -
  assume "w < v"
  then have "unat w + 1 \<le> unat v" by (simp add: word_less_nat_alt)
  also have "\<dots> < 2 ^ LENGTH('a)" by (rule unat_lt)
  finally show ?thesis by (simp add: unat_word_ariths)
qed

section \<open>Handing over to the first waiting thread\<close>

text \<open>The pair of calls with which every object lets a thread it has unpended go on.\<close>

definition wake_with :: "tid \<Rightarrow> int \<Rightarrow> 'a kernel_scheme \<Rightarrow> 'a kernel_scheme" where
  "wake_with thread v k = z_ready_thread thread (arch_thread_return_value_set thread v k)"

definition wake_with_data :: "tid \<Rightarrow> int \<Rightarrow> addr \<Rightarrow> 'a kernel_scheme \<Rightarrow> 'a kernel_scheme" where
  "wake_with_data thread v data k = z_ready_thread thread (z_thread_return_value_set_with_data thread v data k)"

text \<open>
  What a woken thread finds: it waits no more, has no timeout, and can run unless
  something other than the wait holds it back.
\<close>

definition released :: "tid \<Rightarrow> 'a kernel_scheme \<Rightarrow> 'a kernel_scheme \<Rightarrow> bool" where
  "released t k k' \<longleftrightarrow> pended_on (threads k' t) = None \<and> \<not> to_linked (ThreadTO t) k' \<and>
     \<not> z_is_thread_pending (threads k' t) \<and>
     (thread_state (threads k t) = THREAD_PENDING \<longrightarrow> t \<in> set (runq k'))"

lemma wake_with_simps [simp]:
  "waitqs (wake_with t v k) = waitqs k" "current_thread (wake_with t v k) = current_thread k"
  "in_isr (wake_with t v k) = in_isr k" "irq_unlocked (wake_with t v k) = irq_unlocked k"
  "mem (wake_with t v k) = mem k" "cells (wake_with t v k) = cells k"
  "pended_on (threads (wake_with t v k) u) = pended_on (threads k u)"
  "prio (threads (wake_with t v k) u) = prio (threads k u)"
  "sched_locked (threads (wake_with t v k) u) = sched_locked (threads k u)"
  "swap_retval (threads (wake_with t v k) u) = (if u = t then v else swap_retval (threads k u))"
  "swap_data (threads (wake_with t v k) u) = swap_data (threads k u)"
  by (auto simp: wake_with_def z_ready_thread_def arch_thread_return_value_set_def)

lemma wake_with_data_simps [simp]:
  "waitqs (wake_with_data t v d k) = waitqs k" "current_thread (wake_with_data t v d k) = current_thread k"
  "in_isr (wake_with_data t v d k) = in_isr k" "irq_unlocked (wake_with_data t v d k) = irq_unlocked k"
  "mem (wake_with_data t v d k) = mem k" "cells (wake_with_data t v d k) = cells k"
  "pended_on (threads (wake_with_data t v d k) u) = pended_on (threads k u)"
  "prio (threads (wake_with_data t v d k) u) = prio (threads k u)"
  "sched_locked (threads (wake_with_data t v d k) u) = sched_locked (threads k u)"
  "swap_retval (threads (wake_with_data t v d k) u) = (if u = t then v else swap_retval (threads k u))"
  "swap_data (threads (wake_with_data t v d k) u) = (if u = t then d else swap_data (threads k u))"
  by (auto simp: wake_with_data_def z_ready_thread_def z_thread_return_value_set_with_data_def
      arch_thread_return_value_set_def)

lemma kinv_wake_with [inv_intro]: "kinv_ex {t} k \<Longrightarrow> kinv (wake_with t v k)" "kinv_ex {t} k \<Longrightarrow> kinv (wake_with_data t v d k)"
  by (simp_all add: wake_with_def wake_with_data_def z_ready_thread_def kinv_ready_one)

lemma ready_in_runq:
  assumes "kinv k" "z_is_thread_ready t k" "t \<noteq> z_idle_thread"
  shows "t \<in> set (runq k)"
  using sched_wfD(3,5) [OF kinv_exD(1) [OF assms(1)]] assms(2,3) by blast

lemma ready_thread_state:
  "thread_state (threads (ready_thread t k) u) = thread_state (threads k u) \<or>
   thread_state (threads (ready_thread t k) u) = thread_state (threads k u) OR THREAD_QUEUED"
  by (auto simp: ready_thread_def queue_thread_def runq_add_def z_set_thread_states_def)

lemma ready_thread_pending [simp]:
  "z_is_thread_pending (threads (ready_thread t k) u) = z_is_thread_pending (threads k u)"
  "z_is_thread_prevented_from_running (threads (ready_thread t k) u) = z_is_thread_prevented_from_running (threads k u)"
  by (auto simp: ready_thread_def queue_thread_def runq_add_def)

lemma result_flags [simp]:
  "z_is_thread_pending (th\<lparr>swap_retval := v\<rparr>) = z_is_thread_pending th"
  "z_is_thread_pending (th\<lparr>swap_data := d\<rparr>) = z_is_thread_pending th"
  "z_is_thread_prevented_from_running (th\<lparr>swap_retval := v\<rparr>) = z_is_thread_prevented_from_running th"
  "z_is_thread_prevented_from_running (th\<lparr>swap_data := d\<rparr>) = z_is_thread_prevented_from_running th"
  by (simp_all add: state_flags)

text \<open>
  The first thread of a wait queue is unpended and woken; the object may write
  to memory in between.
\<close>

lemma unpend_first_woken:
  assumes i: "kinv k" and q: "waitqs k q = t # ts"
  defines "k1 \<equiv> snd (z_unpend_first_thread q k)"
  assumes k': "k' = wake_with t v (k1\<lparr>mem := m\<rparr>) \<or> k' = wake_with_data t v d (k1\<lparr>mem := m\<rparr>)"
  shows "kinv k'" "waitqs k' = (waitqs k)(q := ts)" "swap_retval (threads k' t) = v" "released t k k'"
    "current_thread k' = current_thread k" "in_isr k' = in_isr k" "irq_unlocked k' = irq_unlocked k"
    "mem k' = m" "cells k' = cells k"
    "\<And>u. u \<noteq> t \<Longrightarrow> threads k' u = threads k u" "prio (threads k' u) = prio (threads k u)"
proof -
  note u = kinv_unpend_first [OF i q, folded k1_def]
  show kk: "kinv k'" using k' kinv_wake_with [of t "k1\<lparr>mem := m\<rparr>"] u(2) by auto
  show "waitqs k' = (waitqs k)(q := ts)" "swap_retval (threads k' t) = v"
    "current_thread k' = current_thread k" "in_isr k' = in_isr k" "irq_unlocked k' = irq_unlocked k"
    "mem k' = m" "cells k' = cells k" "prio (threads k' u) = prio (threads k u)"
    using k' u by auto
  show "threads k' u = threads k u" if "u \<noteq> t" for u
    using that k' u(12) by (auto simp: wake_with_def wake_with_data_def z_ready_thread_def ready_thread_other
        z_thread_return_value_set_with_data_def arch_thread_return_value_set_def)
  have twf: "timeout_wf k1" using sched_wfD(12) [OF kinv_exD(1) [OF u(2)]] .
  have l: "\<not> to_linked (ThreadTO t) k'"
    using k' u(7) twf
    by (auto simp: wake_with_def wake_with_data_def z_ready_thread_def ready_thread_linked
        z_thread_return_value_set_with_data_def arch_thread_return_value_set_def)
  have p: "pended_on (threads k' t) = None" using k' u(12) by auto
  have st: "z_is_thread_prevented_from_running (threads k' t) = z_is_thread_prevented_from_running (threads k1 t)"
    "z_is_thread_pending (threads k' t) = z_is_thread_pending (threads k1 t)"
    using k' by (auto simp: wake_with_def wake_with_data_def z_ready_thread_def
        z_thread_return_value_set_with_data_def arch_thread_return_value_set_def)
  have "t \<in> set (runq k')" if "thread_state (threads k t) = THREAD_PENDING"
  proof -
    have "z_is_thread_ready t k'"
      using that l st(1) u(12) [of t] by (auto simp: ready_iff state_flags flag_defs)
    moreover have "t \<noteq> z_idle_thread"
      using head_pended [OF kinv_exD(1) [OF i] q] sched_wfD(7) [OF kinv_exD(1) [OF i]]
        sched_wfD(10) [OF kinv_exD(1) [OF i], of t]
      by (auto simp: ready_iff state_flags)
    ultimately show ?thesis using ready_in_runq [OF kk] by blast
  qed
  then show "released t k k'"
    using l p st(2) u(12) [of t] by (simp add: released_def state_flags)
qed

text \<open>The running thread does not wait, except inside the scheduler.\<close>

definition awake :: "'a kernel_scheme \<Rightarrow> bool" where
  "awake k \<longleftrightarrow> pended_on (threads k (current_thread k)) = None"

lemma runs_awake: "kinv k \<Longrightarrow> runs k \<Longrightarrow> awake k"
  by (simp add: awake_def runs_not_pended)

lemma reschedule_fields [simp]:
  "waitqs (z_reschedule key k) = waitqs k" "runq (z_reschedule key k) = runq k"
  "mem (z_reschedule key k) = mem k" "cells (z_reschedule key k) = cells k"
  "prio (threads (z_reschedule key k) t) = prio (threads k t)"
  "pended_on (threads (z_reschedule key k) t) = pended_on (threads k t)"
  "thread_state (threads (z_reschedule key k) t) = thread_state (threads k t)"
  "swap_data (threads (z_reschedule key k) t) = swap_data (threads k t)"
  by (auto simp: z_reschedule_def z_swap_def do_swap_def Let_def k_spin_unlock_def)

lemma reschedule_retval:
  "t \<noteq> current_thread k \<Longrightarrow> swap_retval (threads (z_reschedule key k) t) = swap_retval (threads k t)"
  by (auto simp: z_reschedule_def z_swap_def do_swap_def Let_def k_spin_unlock_def)

lemma reschedule_linked:
  "timeout_wf k \<Longrightarrow> to_linked (ThreadTO t) (z_reschedule key k) = to_linked (ThreadTO t) k"
  by (auto simp: z_reschedule_def z_swap_def linked_do_swap k_spin_unlock_def)

lemma released_reschedule:
  assumes "released t k k'" "timeout_wf k'"
  shows "released t k (z_reschedule key k')"
  using assms by (simp add: released_def reschedule_linked state_flags)

text \<open>The whole hand-over, with the scheduling point at its end.\<close>

lemma handed_over:
  assumes i: "kinv k" "awake k" and q: "waitqs k q = t # ts"
    and u: "z_unpend_first_thread q (k\<lparr>irq_unlocked := False\<rparr>) = (r, k1)"
    and k': "k' = z_reschedule key (wake_with t v (k1\<lparr>mem := m\<rparr>)) \<or>
      k' = z_reschedule key (wake_with_data t v d (k1\<lparr>mem := m\<rparr>))"
  shows "r = Some t" "kinv k'" "waitqs k' = (waitqs k)(q := ts)"
    "swap_retval (threads k' t) = v" "released t k k'" "mem k' = m" "cells k' = cells k"
    "prio (threads k' x) = prio (threads k x)" "mem k1 = mem k" "swap_data (threads k1 x) = swap_data (threads k x)"
proof -
  let ?k = "k\<lparr>irq_unlocked := False\<rparr>"
  have i0: "kinv ?k" and q0: "waitqs ?k q = t # ts" using i(1) q by simp_all
  from k' obtain w where w: "k' = z_reschedule key w" "w = wake_with t v (k1\<lparr>mem := m\<rparr>) \<or> w = wake_with_data t v d (k1\<lparr>mem := m\<rparr>)"
    by blast
  note f = unpend_first_woken [OF i0 q0, unfolded u snd_conv, OF w(2)] and uf = kinv_unpend_first [OF i0 q0, unfolded u fst_conv snd_conv]
  have "t \<noteq> current_thread k" using i(2) head_pended [OF kinv_exD(1) [OF i(1)] q] by (auto simp: awake_def)
  then have ne: "t \<noteq> current_thread w" using f(5) by simp
  have twf: "timeout_wf w" using sched_wfD(12) [OF kinv_exD(1) [OF f(1)]] .
  show "r = Some t" using uf(1) .
  show "kinv k'" using kinv_reschedule(1) [OF f(1)] w(1) by simp
  have "released t k w" using f(4) by (simp add: released_def)
  then show "released t k k'" using released_reschedule [OF _ twf] w(1) by simp
  show "waitqs k' = (waitqs k)(q := ts)" "mem k' = m" "cells k' = cells k" "prio (threads k' x) = prio (threads k x)"
    "swap_retval (threads k' t) = v" "mem k1 = mem k"
    using f ne uf(10) by (simp_all add: w(1) reschedule_retval)
  show "swap_data (threads k1 x) = swap_data (threads k x)"
    using uf(12) [of x] by (simp add: z_mark_thread_as_not_pending_def)
qed

lemmas handed_over_plain = handed_over [where m = "mem k1" and ?k1.0 = k1 for k1, simplified]

section \<open>Releasing all waiting threads\<close>

text \<open>
  The loop that unpends the first thread, gives it a result and readies it,
  until the queue is empty. It counts the threads. The length of the queue
  bounds the rounds.
\<close>

fun unpend_each :: "nat \<Rightarrow> wq \<Rightarrow> int \<Rightarrow> 'a kernel_scheme \<Rightarrow> int \<times> 'a kernel_scheme" where
  "unpend_each 0 q v k = (0, k)"
| "unpend_each (Suc n) q v k =
     (case z_unpend_first_thread q k of
        (None, k1) \<Rightarrow> (0, k1)
      | (Some thread, k1) \<Rightarrow>
          let (woken, k2) = unpend_each n q v (wake_with thread v k1) in (woken + 1, k2))"

lemma unpend_each_drain:
  "snd (unpend_each n q v k) = drain (\<lambda>t k. wake_with t v (snd (z_unpend_first_thread q k))) n q k"
proof (induction n arbitrary: k)
  case (Suc n)
  then show ?case by (cases "z_waitq_head q k") (simp_all add: z_unpend_first_thread_def case_prod_beta)
qed simp

text \<open>The threads that waited when the loop started, seen from the state it ends in.\<close>

definition let_go :: "int \<Rightarrow> tid \<Rightarrow> 'a kernel_scheme \<Rightarrow> bool" where
  "let_go v t k \<longleftrightarrow> swap_retval (threads k t) = v \<and> pended_on (threads k t) = None \<and> \<not> to_linked (ThreadTO t) k"

lemma wake_with_linked:
  "timeout_wf k \<Longrightarrow> to_linked (ThreadTO u) (wake_with t v k) = to_linked (ThreadTO u) k"
  "timeout_wf k \<Longrightarrow> to_linked (ThreadTO u) (wake_with_data t v d k) = to_linked (ThreadTO u) k"
  by (simp_all add: wake_with_def wake_with_data_def z_ready_thread_def ready_thread_linked
      z_thread_return_value_set_with_data_def arch_thread_return_value_set_def)

interpretation let_go_loop: waitq_loop "\<lambda>t k. wake_with t v (snd (z_unpend_first_thread q k))" q kinv "let_go v" for v q
proof unfold_locales
  fix k :: "'a kernel_scheme" and t ts u
  let ?k1 = "snd (z_unpend_first_thread q k)"
  assume i: "kinv k" and q: "waitqs k q = t # ts"
  note w = unpend_first_woken [OF i q, OF disjI1 [OF refl], where v = v and m = "mem ?k1", simplified] and f = kinv_unpend_first [OF i q]
  show "kinv (wake_with t v ?k1)" "waitqs (wake_with t v ?k1) q = ts" using w(1,2) by simp_all
  show "let_go v t (wake_with t v ?k1)" using w(3,4) by (simp add: let_go_def released_def)
  assume "u \<noteq> t" "let_go v u k"
  moreover have "to_linked (ThreadTO u) (wake_with t v ?k1) = to_linked (ThreadTO u) k"
  proof -
    have "timeout_wf ?k1" using sched_wfD(12) [OF kinv_exD(1) [OF f(2)]] .
    moreover have "to_linked (ThreadTO u) ?k1 = to_linked (ThreadTO u) k"
      using \<open>u \<noteq> t\<close> q sched_wfD(12) [OF kinv_exD(1) [OF i]]
      by (simp add: z_unpend_first_thread_def z_waitq_head_def z_priq_dumb_best_def z_abort_thread_timeout_def)
    ultimately show ?thesis by (simp add: wake_with_linked)
  qed
  ultimately show "let_go v u (wake_with t v ?k1)" using w(10) by (simp add: let_go_def)
qed

lemma unpend_each_count:
  assumes "kinv k" "length (waitqs k q) \<le> n"
  shows "fst (unpend_each n q v k) = int (length (waitqs k q))"
  using assms
proof (induction n arbitrary: k)
  case (Suc n)
  show ?case
  proof (cases "waitqs k q")
    case Nil
    then show ?thesis by (simp add: unpend_first_none)
  next
    case (Cons t ts)
    note w = unpend_first_woken [OF Suc.prems(1) Cons, OF disjI1 [OF refl], where v = v and
      m = "mem (snd (z_unpend_first_thread q k))", simplified]
    obtain k1 where k1: "z_unpend_first_thread q k = (Some t, k1)"
      using kinv_unpend_first(1) [OF Suc.prems(1) Cons] by (metis prod.collapse)
    with w have "kinv (wake_with t v k1)" "waitqs (wake_with t v k1) q = ts" by simp_all
    with Suc.IH [of "wake_with t v k1"] Suc.prems(2) Cons k1 show ?thesis by (simp add: case_prod_beta)
  qed
qed simp

lemma unpend_each_spec:
  fixes q :: wq and v :: int
  assumes "kinv k"
  defines "r \<equiv> unpend_each (length (waitqs k q)) q v k"
  shows "fst r = int (length (waitqs k q))" "kinv (snd r)" "waitqs (snd r) q = []"
    "t \<in> set (waitqs k q) \<Longrightarrow> let_go v t (snd r)"
proof -
  have d: "distinct (waitqs k q)" using sched_wfD(8) [OF kinv_exD(1) [OF assms(1)]] .
  note s = let_go_loop.drain_spec [OF assms(1) order_refl d, of v]
  show "fst r = int (length (waitqs k q))" using unpend_each_count [OF assms(1) order_refl] by (simp add: r_def)
  show "kinv (snd r)" "waitqs (snd r) q = []" "t \<in> set (waitqs k q) \<Longrightarrow> let_go v t (snd r)"
    using s by (simp_all add: r_def unpend_each_drain)
qed

lemma unpend_each_keep:
  assumes "\<And>t k. g (wake_with t v (snd (z_unpend_first_thread q k))) = g k"
  shows "g (snd (unpend_each n q v k)) = g k"
  unfolding unpend_each_drain by (rule drain_keep) (rule assms)

lemma unpend_first_keep [simp]:
  "current_thread (snd (z_unpend_first_thread q k)) = current_thread k" "mem (snd (z_unpend_first_thread q k)) = mem k"
  "cells (snd (z_unpend_first_thread q k)) = cells k"
  by (auto simp: z_unpend_first_thread_def z_abort_thread_timeout_def split: option.splits)

text \<open>All waiting threads are released with one result, and then the scheduler chooses.\<close>

lemma all_released:
  fixes q :: wq and v :: int and key :: bool
  assumes "kinv k" "awake k"
  defines "k' \<equiv> z_reschedule key (snd (unpend_each (length (waitqs k q)) q v (k\<lparr>irq_unlocked := False\<rparr>)))"
  shows "kinv k'" "waitqs k' q = []" "t \<in> set (waitqs k q) \<Longrightarrow> let_go v t k'" "mem k' = mem k" "cells k' = cells k"
proof -
  let ?r = "snd (unpend_each (length (waitqs k q)) q v (k\<lparr>irq_unlocked := False\<rparr>))"
  have i: "kinv (k\<lparr>irq_unlocked := False\<rparr>)" using assms(1) by simp
  note u = unpend_each_spec [OF i, where q = q and v = v, simplified]
  have cur: "current_thread ?r = current_thread k" "mem ?r = mem k" "cells ?r = cells k"
    by (rule unpend_each_keep [THEN trans]; simp)+
  show "kinv k'" using kinv_reschedule(1) [OF u(2)] by (simp add: k'_def)
  show "waitqs k' q = []" "mem k' = mem k" "cells k' = cells k" using u(3) cur by (simp_all add: k'_def)
  assume t: "t \<in> set (waitqs k q)"
  then have "pended_on (threads k t) = Some q" using sched_wfD(9) [OF kinv_exD(1) [OF assms(1)], of t q] by simp
  then have "t \<noteq> current_thread ?r" using assms(2) by (auto simp: awake_def cur)
  then show "let_go v t k'" using u(4) [OF t] sched_wfD(12) [OF kinv_exD(1) [OF u(2)]]
    by (simp add: let_go_def k'_def reschedule_retval reschedule_linked)
qed

section \<open>Blocking\<close>

text \<open>What blocking on a queue does to the queues and to the caller, for use by the objects.\<close>

lemma pend_curr_waitqs:
  fixes q :: wq and timeout :: ticks and key :: bool
  assumes "kinv k" "runs k"
  defines "k' \<equiv> z_pend_curr key (Some q) timeout k"
  shows "kinv k'" "current_thread k' \<noteq> current_thread k"
    "waitqs k' = (waitqs k)(q := z_priq_dumb_add (threads k) (current_thread k) (waitqs k q))"
    "swap_retval (threads k' (current_thread k)) = - EAGAIN"
    "prio (threads k' t) = prio (threads k t)"
proof -
  let ?k = "k\<lparr>irq_unlocked := False\<rparr>"
  have i: "kinv ?k" "runs ?k" using assms(1,2) by (simp_all add: runs_def)
  have k': "k' = do_swap key (pend_locked (current_thread ?k) (Some q) timeout ?k)"
    by (simp add: k'_def z_pend_curr_def k_spin_lock_def z_swap_def)
  note f = pend_locked_fields [OF i, where q = q and timeout = timeout]
  show "waitqs k' = (waitqs k)(q := z_priq_dumb_add (threads k) (current_thread k) (waitqs k q))"
    using f(1) unfolding k' do_swap_fields by simp
  show "prio (threads k' t) = prio (threads k t)" unfolding k' do_swap_fields using f(2) [of t] by simp
  show "swap_retval (threads k' (current_thread k)) = - EAGAIN"
    using pended_swap(6) [OF pend_current [OF i, of "Some q" timeout], of key] by (simp add: k' z_swap_def)
  show "kinv k'" "current_thread k' \<noteq> current_thread k" using kinv_pend_curr [OF assms(1,2)] by (simp_all add: k'_def)
qed

lemma pend_curr_keep [simp]:
  "mem (z_pend_curr key q timeout k) = mem k" "cells (z_pend_curr key q timeout k) = cells k"
  "swap_data (threads (z_pend_curr key q timeout k) t) = swap_data (threads k t)"
  by (auto simp: z_pend_curr_def pend_locked_def z_swap_def do_swap_def Let_def k_spin_lock_def add_to_waitq_locked_def
      add_thread_timeout_def unready_thread_def z_add_thread_timeout_def z_mark_thread_as_pending_def split: option.splits)

text \<open>Leaving something for the caller in its own record before it blocks.\<close>

lemma swap_data_ok:
  "kinv k \<Longrightarrow> kinv (upd_thread t (\<lambda>th. th\<lparr>swap_data := d\<rparr>) k)" "runs k \<Longrightarrow> runs (upd_thread t (\<lambda>th. th\<lparr>swap_data := d\<rparr>) k)"
  by (auto intro: kinv_upd_other simp: runs_def)

text \<open>Two states for concrete runs: one where nobody waits, and one where threads 3 and 5 do.\<close>

lemma busy_facts: "runs busy" "awake busy" "waitqs busy (WQ 0) = []" "irq_unlocked busy" "current_thread busy = 1"
  unfolding runs_def awake_def by code_simp+

lemma two_waiting_facts: "awake two_waiting" "waitqs two_waiting (WQ 0) = [3, 5]"
  "thread_state (threads two_waiting 3) = THREAD_PENDING"
  unfolding awake_def by code_simp+

end
