(* ===== verification/Mutex.thy ===== *)
theory Mutex
  imports Waitq
begin

text \<open>
  Mutexes with priority inheritance, from \<^verbatim>\<open>kernel/mutex.c\<close>. The code that runs after
  a blocked \<open>k_mutex_lock\<close> is switched in again is \<open>k_mutex_lock_resume\<close>; the local variable
  \<open>resched\<close> of the call lives on in the caller's frame and is passed along.
\<close>

section \<open>Operations\<close>

record k_mutex =
  mutex_wait_q :: wq
  owner :: "tid option"
  lock_count :: u32
  owner_orig_prio :: int

definition k_mutex_init :: "k_mutex \<Rightarrow> 'a kernel_scheme \<Rightarrow> int \<times> k_mutex \<times> 'a kernel_scheme" where
  "k_mutex_init mutex k =
     (0, mutex\<lparr>owner := None, lock_count := 0\<rparr>, k\<lparr>waitqs := (waitqs k)(mutex_wait_q mutex := [])\<rparr>)"

definition new_prio_for_inheritance :: "int \<Rightarrow> int \<Rightarrow> int" where
  "new_prio_for_inheritance target lim =
     z_get_new_prio_with_ceiling (if z_is_prio_higher target lim then target else lim)"

definition adjust_owner_prio :: "k_mutex \<Rightarrow> int \<Rightarrow> 'a kernel_scheme \<Rightarrow> bool \<times> 'a kernel_scheme" where
  "adjust_owner_prio mutex new_prio k =
     (case owner mutex of
        None \<Rightarrow> (False, k\<lparr>fault := True\<rparr>)
      | Some t \<Rightarrow> if prio (threads k t) \<noteq> new_prio then z_set_prio t new_prio k else (False, k))"

definition k_mutex_lock ::
    "k_mutex \<Rightarrow> ticks \<Rightarrow> 'a kernel_scheme \<Rightarrow> int outcome \<times> bool \<times> k_mutex \<times> 'a kernel_scheme" where
  "k_mutex_lock mutex timeout k =
     (let (key, k1) = k_spin_lock k;
          cur = current_thread k1
      in if lock_count mutex = 0 \<or> owner mutex = Some cur
         then (Ret 0, False,
               mutex\<lparr>owner_orig_prio := (if lock_count mutex = 0 then prio (threads k1 cur) else owner_orig_prio mutex),
                     lock_count := lock_count mutex + 1, owner := Some cur\<rparr>,
               k_spin_unlock key k1)
         else if timeout = K_NO_WAIT then (Ret (- EBUSY), False, mutex, k_spin_unlock key k1)
         else case owner mutex of
                None \<Rightarrow> (Pend, False, mutex, k1\<lparr>fault := True\<rparr>)
              | Some t \<Rightarrow>
                  let new_prio = new_prio_for_inheritance (prio (threads k1 cur)) (prio (threads k1 t));
                      (do_resched, k2) = (if z_is_prio_higher new_prio (prio (threads k1 t))
                                       then adjust_owner_prio mutex new_prio k1 else (False, k1))
                  in (Pend, do_resched, mutex, z_pend_curr key (Some (mutex_wait_q mutex)) timeout k2))"

definition k_mutex_lock_resume :: "k_mutex \<Rightarrow> bool \<Rightarrow> int \<Rightarrow> 'a kernel_scheme \<Rightarrow> int \<times> 'a kernel_scheme" where
  "k_mutex_lock_resume mutex do_resched got_mutex k =
     (if got_mutex = 0 then (0, k)
      else
        let (key, k1) = k_spin_lock k;
            (do_resched, k2) =
              (if owner mutex \<noteq> None
               then let new_prio = (case z_waitq_head (mutex_wait_q mutex) k1 of
                                      Some waiter \<Rightarrow> new_prio_for_inheritance (prio (threads k1 waiter)) (owner_orig_prio mutex)
                                    | None \<Rightarrow> owner_orig_prio mutex);
                        (r, k2) = adjust_owner_prio mutex new_prio k1
                    in (r \<or> do_resched, k2)
               else (do_resched, k1))
        in (- EAGAIN, if do_resched then z_reschedule key k2 else k_spin_unlock key k2))"

definition k_mutex_unlock :: "k_mutex \<Rightarrow> 'a kernel_scheme \<Rightarrow> int \<times> k_mutex \<times> 'a kernel_scheme" where
  "k_mutex_unlock mutex k =
     (if owner mutex = None then (- EINVAL, mutex, k)
      else if owner mutex \<noteq> Some (current_thread k) then (- EPERM, mutex, k)
      else if lock_count mutex > 1 then (0, mutex\<lparr>lock_count := lock_count mutex - 1\<rparr>, k)
      else
        let (key, k1) = k_spin_lock k;
            k2 = snd (adjust_owner_prio mutex (owner_orig_prio mutex) k1)
        in case z_unpend_first_thread (mutex_wait_q mutex) k2 of
             (Some new_owner, k3) \<Rightarrow>
               (0, mutex\<lparr>owner := Some new_owner, owner_orig_prio := prio (threads k3 new_owner)\<rparr>,
                z_reschedule key (wake_with new_owner 0 k3))
           | (None, k3) \<Rightarrow> (0, mutex\<lparr>owner := None, lock_count := 0\<rparr>, k_spin_unlock key k3))"

section \<open>Changing the priority of the owner\<close>

lemma set_prio_fields:
  "waitqs (snd (z_set_prio t p k)) = waitqs k" "current_thread (snd (z_set_prio t p k)) = current_thread k"
  "irq_unlocked (snd (z_set_prio t p k)) = irq_unlocked k" "in_isr (snd (z_set_prio t p k)) = in_isr k"
  "prio (threads (snd (z_set_prio t p k)) u) = (if u = t then int8 p else prio (threads k u))"
  "pended_on (threads (snd (z_set_prio t p k)) u) = pended_on (threads k u)"
  "swap_retval (threads (snd (z_set_prio t p k)) u) = swap_retval (threads k u)"
  by (auto simp: z_set_prio_def Let_def)

lemma set_prio_runs:
  assumes "kinv k" "t \<noteq> z_idle_thread" "runs k"
  shows "runs (snd (z_set_prio t p k))"
proof -
  note w = kinv_exD(1) [OF assms(1)]
  let ?k = "snd (z_set_prio t p k)" and ?c = "current_thread k"
  have "queued k ?c" using assms(3) sched_wfD(3) [OF w] by (simp add: runs_def)
  then have "queued ?k ?c"
    by (auto simp: z_set_prio_def Let_def state_flags ready_iff queue_thread_def runq_add_def dest: sched_wfD(4) [OF w])
  then show ?thesis using sched_wfD(3) [OF kinv_exD(1) [OF kinv_set_prio [OF assms(1,2)]]]
    by (simp add: runs_def set_prio_fields)
qed

lemma adjust_fields:
  fixes p :: int
  assumes "kinv k" "owner mutex = Some t" "t \<noteq> z_idle_thread" "-128 \<le> p" "p \<le> 127"
  defines "k' \<equiv> snd (adjust_owner_prio mutex p k)"
  shows "kinv k'" "runs k \<Longrightarrow> runs k'" "waitqs k' = waitqs k" "current_thread k' = current_thread k"
    "irq_unlocked k' = irq_unlocked k" "prio (threads k' u) = (if u = t then p else prio (threads k u))"
    "pended_on (threads k' u) = pended_on (threads k u)" "awake k' = awake k"
    "swap_retval (threads k' u) = swap_retval (threads k u)"
  using assms(1-5) kinv_set_prio [OF assms(1,3), of p] set_prio_runs [OF assms(1,3), of p]
  by (auto simp: k'_def adjust_owner_prio_def set_prio_fields int8_id awake_def)

section \<open>The lock that a mutex implements\<close>

text \<open>
  Abstractly a mutex is held by no thread or by one thread a number of times,
  and other threads wait for it in priority order.
\<close>

type_synonym abs_lock = "(tid \<times> nat) option \<times> tid list"

definition abs_mutex :: "k_mutex \<Rightarrow> 'a kernel_scheme \<Rightarrow> abs_lock" where
  "abs_mutex mutex k = (map_option (\<lambda>t. (t, unat (lock_count mutex))) (owner mutex), waitqs k (mutex_wait_q mutex))"

fun spec_lock :: "(tid \<Rightarrow> int) \<Rightarrow> tid \<Rightarrow> abs_lock \<Rightarrow> abs_lock" where
  "spec_lock p c (None, ws) = (Some (c, 1), ws)"
| "spec_lock p c (Some (t, n), ws) =
     (if t = c then (Some (c, n + 1), ws)
      else (Some (t, n), takeWhile (\<lambda>u. p u \<le> p c) ws @ c # dropWhile (\<lambda>u. p u \<le> p c) ws))"

fun spec_unlock :: "tid \<Rightarrow> abs_lock \<Rightarrow> int \<times> abs_lock" where
  "spec_unlock c (None, ws) = (- EINVAL, None, ws)"
| "spec_unlock c (Some (t, n), ws) =
     (if t \<noteq> c then (- EPERM, Some (t, n), ws)
      else if n > 1 then (0, Some (t, n - 1), ws)
      else (0, case ws of [] \<Rightarrow> (None, []) | w # ws' \<Rightarrow> (Some (w, 1), ws')))"

definition mutex_ok :: "k_mutex \<Rightarrow> 'a kernel_scheme \<Rightarrow> bool" where
  "mutex_ok mutex k \<longleftrightarrow>
     (owner mutex = None \<longleftrightarrow> lock_count mutex = 0) \<and>
     (owner mutex = None \<longrightarrow> waitqs k (mutex_wait_q mutex) = []) \<and>
     (\<forall>t. owner mutex = Some t \<longrightarrow> t \<noteq> z_idle_thread \<and> t \<notin> set (waitqs k (mutex_wait_q mutex))) \<and>
     -127 \<le> owner_orig_prio mutex \<and> owner_orig_prio mutex \<le> 127 \<and>
     (\<forall>t. -127 \<le> prio (threads k t))"

lemma new_prio_eq: "-127 \<le> a \<Longrightarrow> -127 \<le> b \<Longrightarrow> new_prio_for_inheritance a b = min a b"
  by (simp add: new_prio_for_inheritance_def prio_tests CONFIG_PRIORITY_CEILING_def)

lemma kinv_prio: "kinv_ex S k \<Longrightarrow> -128 \<le> prio (threads k t) \<and> prio (threads k t) \<le> 127"
  using sched_wfD(11) kinv_exD(1) by blast

text \<open>A lock that blocks: the owner takes over the priority of the caller if that is higher.\<close>

lemma lock_blocks:
  assumes i: "kinv k" "runs k" and m: "mutex_ok mutex k" "owner mutex = Some t" "t \<noteq> current_thread k"
    and n: "timeout \<noteq> K_NO_WAIT" and l: "k_mutex_lock mutex timeout k = (res, rs, mutex', k')"
  defines "c \<equiv> current_thread k" and "q \<equiv> mutex_wait_q mutex"
  shows "res = Pend" "mutex' = mutex" "kinv k'" "current_thread k' \<noteq> c"
    "prio (threads k' u) = (if u = t then min (prio (threads k c)) (prio (threads k t)) else prio (threads k u))"
    "waitqs k' = (waitqs k)(q := takeWhile (\<lambda>u. prio (threads k u) \<le> prio (threads k c)) (waitqs k q) @ c #
       dropWhile (\<lambda>u. prio (threads k u) \<le> prio (threads k c)) (waitqs k q))"
proof -
  let ?k = "k\<lparr>irq_unlocked := False\<rparr>"
  define p where "p = new_prio_for_inheritance (prio (threads k c)) (prio (threads k t))"
  have pm: "p = min (prio (threads k c)) (prio (threads k t))" using m(1) by (simp add: p_def mutex_ok_def new_prio_eq)
  then have pr: "-128 \<le> p" "p \<le> 127" using kinv_prio [OF i(1), of c] kinv_prio [OF i(1), of t] by auto
  have ni: "t \<noteq> z_idle_thread" and nw: "t \<notin> set (waitqs k q)" and lc: "lock_count mutex \<noteq> 0"
    using m(1,2) by (auto simp: mutex_ok_def q_def)
  define k2 where "k2 = snd (if z_is_prio_higher p (prio (threads k t)) then adjust_owner_prio mutex p ?k else (False, ?k))"
  have lk: "res = Pend \<and> mutex' = mutex \<and> k' = z_pend_curr (irq_unlocked k) (Some q) timeout k2"
    using l m(2,3) n lc
    by (auto simp: k_mutex_lock_def k_spin_lock_def Let_def p_def c_def q_def k2_def split: prod.splits if_splits)
  have i': "kinv ?k" "runs ?k" using i by (simp_all add: runs_def)
  note a = adjust_fields [OF i'(1) m(2) ni pr]
  have k2: "kinv k2" "runs k2" "waitqs k2 = waitqs k" "current_thread k2 = c"
    "prio (threads k2 u) = (if u = t then p else prio (threads k u))" for u
    using a i' pm by (auto simp: k2_def c_def prio_tests)
  note b = pend_curr_waitqs [OF k2(1,2), where key = "irq_unlocked k" and q = q and timeout = timeout]
  show "res = Pend" "mutex' = mutex" using lk by auto
  show "kinv k'" "current_thread k' \<noteq> c" using b(1,2) lk k2(4) by simp_all
  show "prio (threads k' u) = (if u = t then min (prio (threads k c)) (prio (threads k t)) else prio (threads k u))"
    using b(5) lk k2(5) pm by simp
  have "z_priq_dumb_add (threads k2) c (waitqs k q) = z_priq_dumb_add (threads k) c (waitqs k q)"
    using nw m(3) by (intro dumb_add_cong) (auto simp: k2(5) c_def)
  then show "waitqs k' = (waitqs k)(q := takeWhile (\<lambda>u. prio (threads k u) \<le> prio (threads k c)) (waitqs k q) @ c #
       dropWhile (\<lambda>u. prio (threads k u) \<le> prio (threads k c)) (waitqs k q))"
    using b(3) lk k2(3,4) by (simp add: dumb_add_split)
qed

text \<open>The last unlock: the caller gets its own priority back and the first waiting thread the mutex.\<close>

lemma unlock_last:
  assumes i: "kinv k" "runs k" and m: "mutex_ok mutex k" "owner mutex = Some (current_thread k)" "\<not> 1 < lock_count mutex"
    and l: "k_mutex_unlock mutex k = (r, mutex', k')"
  defines "c \<equiv> current_thread k" and "q \<equiv> mutex_wait_q mutex"
  shows "r = 0" "kinv k'" "prio (threads k' u) = (if u = c then owner_orig_prio mutex else prio (threads k u))"
    "waitqs k q = [] \<Longrightarrow> mutex' = mutex\<lparr>owner := None, lock_count := 0\<rparr> \<and> waitqs k' = waitqs k"
    "waitqs k q = w # ws \<Longrightarrow> mutex' = mutex\<lparr>owner := Some w, owner_orig_prio := prio (threads k w)\<rparr> \<and>
       waitqs k' = (waitqs k)(q := ws) \<and> swap_retval (threads k' w) = 0 \<and> pended_on (threads k' w) = None \<and>
       \<not> to_linked (ThreadTO w) k'"
proof -
  let ?k = "k\<lparr>irq_unlocked := False\<rparr>"
  let ?k2 = "snd (adjust_owner_prio mutex (owner_orig_prio mutex) ?k)"
  have i': "kinv ?k" "runs ?k" using i by (simp_all add: runs_def)
  have ni: "c \<noteq> z_idle_thread" and pr: "-128 \<le> owner_orig_prio mutex" "owner_orig_prio mutex \<le> 127"
    using m(1,2) by (auto simp: mutex_ok_def c_def)
  note a = adjust_fields [OF i'(1) m(2) ni [unfolded c_def] pr]
  have aw: "awake ?k2" using runs_awake [OF i'] a(8) by simp
  have irq: "?k2\<lparr>irq_unlocked := False\<rparr> = ?k2" using a(5) by simp
  obtain t k3 where u: "z_unpend_first_thread q ?k2 = (t, k3)" by fastforce
  have u': "z_unpend_first_thread q (?k2\<lparr>irq_unlocked := False\<rparr>) = (t, k3)" unfolding irq by (rule u)
  have ul: "k_mutex_unlock mutex k = (case t of
      Some n \<Rightarrow> (0, mutex\<lparr>owner := Some n, owner_orig_prio := prio (threads k3 n)\<rparr>,
                z_reschedule (irq_unlocked k) (wake_with n 0 k3))
    | None \<Rightarrow> (0, mutex\<lparr>owner := None, lock_count := 0\<rparr>, k_spin_unlock (irq_unlocked k) k3))"
    using m(2,3) u unfolding k_mutex_unlock_def by (simp add: k_spin_lock_def q_def split: option.splits)
  show "r = 0" using l ul by (simp split: option.splits)
  have N: "t = None \<and> k3 = ?k2" if "waitqs k q = []"
    using u unpend_first_none [of ?k2 q] a(3) that by simp
  show "mutex' = mutex\<lparr>owner := None, lock_count := 0\<rparr> \<and> waitqs k' = waitqs k" if "waitqs k q = []"
    using l ul N [OF that] a(3) by (auto simp: k_spin_unlock_def)
  have S: "t = Some w \<and> kinv k' \<and> mutex' = mutex\<lparr>owner := Some w, owner_orig_prio := prio (threads k w)\<rparr> \<and>
      waitqs k' = (waitqs k)(q := ws) \<and> swap_retval (threads k' w) = 0 \<and> released w ?k2 k' \<and>
      (\<forall>u. prio (threads k' u) = prio (threads ?k2 u))" if w: "waitqs k q = w # ws" for w ws
  proof -
    have w2: "waitqs ?k2 q = w # ws" using w a(3) by simp
    note h = handed_over_plain [where key = "irq_unlocked k" and v = 0, OF a(1) aw w2 u' disjI1 [OF refl]]
    have t: "t = Some w" using h(1) by blast
    have "w \<noteq> c" using w m(1,2) by (auto simp: mutex_ok_def q_def c_def)
    moreover have "prio (threads k3 w) = prio (threads ?k2 w)"
      using kinv_unpend_first(12) [OF a(1) w2, of w] u by simp
    ultimately have "prio (threads k3 w) = prio (threads k w)" using a(6) [of w] by (simp add: c_def)
    then show ?thesis using l ul t h a(3) by simp
  qed
  show "waitqs k q = w # ws \<Longrightarrow> mutex' = mutex\<lparr>owner := Some w, owner_orig_prio := prio (threads k w)\<rparr> \<and>
       waitqs k' = (waitqs k)(q := ws) \<and> swap_retval (threads k' w) = 0 \<and> pended_on (threads k' w) = None \<and>
       \<not> to_linked (ThreadTO w) k'" using S by (simp add: released_def)
  show "kinv k'" "prio (threads k' u) = (if u = c then owner_orig_prio mutex else prio (threads k u))"
    using N S l ul a(1) a(6) [of u] by (cases "waitqs k q"; auto simp: k_spin_unlock_def c_def)+
qed

lemma lock_refines:
  assumes "kinv k" "runs k" "mutex_ok mutex k" "unat (lock_count mutex) + 1 < 2 ^ 32" "timeout \<noteq> K_NO_WAIT"
    "k_mutex_lock mutex timeout k = (res, rs, ml, kl)"
  shows "kinv kl \<and> mutex_ok ml kl \<and>
     abs_mutex ml kl = spec_lock (\<lambda>t. prio (threads k t)) (current_thread k) (abs_mutex mutex k) \<and>
     (res = Ret 0 \<longleftrightarrow> owner mutex = None \<or> owner mutex = Some (current_thread k))"
proof (cases "owner mutex = None \<or> owner mutex = Some (current_thread k)")
  case True
  let ?c = "current_thread k"
  have "lock_count mutex = 0 \<or> owner mutex = Some ?c" using True assms(3) by (auto simp: mutex_ok_def)
  then have l: "res = Ret 0" "kl = k" "ml = mutex\<lparr>owner_orig_prio := (if lock_count mutex = 0 then prio (threads k ?c) else owner_orig_prio mutex),
      lock_count := lock_count mutex + 1, owner := Some ?c\<rparr>"
    using assms(6) by (auto simp: k_mutex_lock_def k_spin_lock_def k_spin_unlock_def Let_def)
  have c1: "unat (lock_count mutex + 1) = unat (lock_count mutex) + 1" using assms(4) by (simp add: unat_word_ariths)
  then have "lock_count mutex + 1 \<noteq> 0" by (metis add_eq_0_iff_both_eq_0 one_neq_zero unsigned_0)
  moreover have "?c \<notin> set (waitqs k (mutex_wait_q mutex))" "?c \<noteq> z_idle_thread"
    using runs_not_pended [OF assms(1,2)] sched_wfD(9) [OF kinv_exD(1) [OF assms(1)], of ?c "mutex_wait_q mutex"]
      runs_not_idle [OF assms(1,2)] by auto
  ultimately show ?thesis using True assms(1,3) l c1 kinv_prio [OF assms(1), of ?c]
    by (auto simp: mutex_ok_def abs_mutex_def)
next
  case False
  then obtain t where t: "owner mutex = Some t" "t \<noteq> current_thread k" by auto
  note b = lock_blocks [OF assms(1-3) t assms(5,6)]
  have "mutex_ok mutex kl"
    using assms(3) t b(5,6) by (auto simp: mutex_ok_def dest: set_takeWhileD set_dropWhileD)
  then show ?thesis using t b by (simp add: abs_mutex_def)
qed

lemma unlock_refines:
  assumes "kinv k" "runs k" "mutex_ok mutex k" "k_mutex_unlock mutex k = (r, mu, ku)"
  shows "kinv ku \<and> mutex_ok mu ku \<and> (r, abs_mutex mu ku) = spec_unlock (current_thread k) (abs_mutex mutex k) \<and>
     (r \<noteq> 0 \<longrightarrow> ku = k) \<and>
     (\<forall>w. owner mu = Some w \<longrightarrow> owner mutex \<noteq> Some w \<longrightarrow> swap_retval (threads ku w) = 0 \<and> pended_on (threads ku w) = None)"
proof (cases "owner mutex = Some (current_thread k) \<and> \<not> 1 < lock_count mutex")
  case False
  have "unat (lock_count mutex - 1) = unat (lock_count mutex) - 1" if "1 < lock_count mutex"
    using that by (intro unat_minus_one) auto
  moreover have "1 < lock_count mutex \<longleftrightarrow> 1 < unat (lock_count mutex)" by (simp add: word_less_nat_alt)
  ultimately show ?thesis using False assms
    by (auto simp: k_mutex_unlock_def abs_mutex_def mutex_ok_def split: if_splits)
next
  case True
  note u = unlock_last [OF assms(1-3) conjunct1 [OF True] conjunct2 [OF True] assms(4)]
  have "unat (lock_count mutex) \<noteq> 0" using True assms(3) by (auto simp: mutex_ok_def unat_eq_0)
  then have lc: "unat (lock_count mutex) = 1" using True by (simp add: word_less_nat_alt)
  show ?thesis
  proof (cases "waitqs k (mutex_wait_q mutex)")
    case Nil
    with u(1-3) u(4) [OF Nil] assms(3) True lc show ?thesis
      by (auto simp: mutex_ok_def abs_mutex_def)
  next
    case (Cons w ws)
    have "w \<notin> set ws" using sched_wfD(8) [OF kinv_exD(1) [OF assms(1)], of "mutex_wait_q mutex"] Cons by simp
    moreover have "w \<noteq> z_idle_thread"
      using head_pended [OF kinv_exD(1) [OF assms(1)] Cons] sched_wfD(7) [OF kinv_exD(1) [OF assms(1)]]
        pended_not_ready [OF kinv_exD(1) [OF assms(1)]] by auto
    moreover have m: "mu = mutex\<lparr>owner := Some w, owner_orig_prio := prio (threads k w)\<rparr>"
      "waitqs ku (mutex_wait_q mutex) = ws" "swap_retval (threads ku w) = 0" "pended_on (threads ku w) = None"
      using u(5) [OF Cons] by simp_all
    ultimately have "mutex_ok mu ku"
      using assms(3) lc kinv_prio [OF assms(1), of w] u(3) by (auto simp: mutex_ok_def m(1,2))
    moreover have "(r, abs_mutex mu ku) = spec_unlock (current_thread k) (abs_mutex mutex k)"
      using u(1) True lc Cons by (simp add: abs_mutex_def m(1,2))
    ultimately show ?thesis using u(1,2) m(3,4) by (simp add: m(1))
  qed
qed

section \<open>Properties\<close>

text \<open>
  C11. A mutex is a lock that one thread at a time holds, any number of times: locking
  and unlocking it do to its owner, its lock count and its wait queue what the
  abstract lock does, as long as the count has not reached its 32-bit maximum.
  A lock that does not block returns 0, an unlock by a thread that does not hold
  the mutex returns the error and changes nothing, and the thread that the last
  unlock hands the mutex to stops waiting and gets 0 from its call.
\<close>

theorem mutex_refines:
  assumes "kinv k" "runs k" "mutex_ok mutex k" "unat (lock_count mutex) + 1 < 2 ^ 32" "timeout \<noteq> K_NO_WAIT"
    "k_mutex_lock mutex timeout k = (res, rs, ml, kl)" "k_mutex_unlock mutex k = (r, mu, ku)"
  shows "kinv kl \<and> mutex_ok ml kl \<and> kinv ku \<and> mutex_ok mu ku \<and>
     abs_mutex ml kl = spec_lock (\<lambda>t. prio (threads k t)) (current_thread k) (abs_mutex mutex k) \<and>
     (r, abs_mutex mu ku) = spec_unlock (current_thread k) (abs_mutex mutex k) \<and>
     (res = Ret 0 \<longleftrightarrow> owner mutex = None \<or> owner mutex = Some (current_thread k)) \<and>
     (r \<noteq> 0 \<longrightarrow> ku = k) \<and>
     (\<forall>w. owner mu = Some w \<longrightarrow> owner mutex \<noteq> Some w \<longrightarrow> swap_retval (threads ku w) = 0 \<and> pended_on (threads ku w) = None)"
  using lock_refines [OF assms(1-6)] unlock_refines [OF assms(1-3,7)]
  by (elim conjE) (intro conjI, assumption+)

text \<open>No thread waits for a mutex whose owner runs at a lower priority.\<close>

definition no_inversion :: "k_mutex \<Rightarrow> 'a kernel_scheme \<Rightarrow> bool" where
  "no_inversion mutex k \<longleftrightarrow>
     (\<forall>t. owner mutex = Some t \<longrightarrow> (\<forall>u \<in> set (waitqs k (mutex_wait_q mutex)). prio (threads k t) \<le> prio (threads k u)))"

lemma lock_no_inversion:
  assumes "kinv k" "runs k" "mutex_ok mutex k" "owner mutex = Some t" "t \<noteq> current_thread k" "timeout \<noteq> K_NO_WAIT"
    "no_inversion mutex k" "k_mutex_lock mutex timeout k = (res, rs, ml, kl)"
  shows "no_inversion ml kl \<and> prio (threads kl t) = min (prio (threads k (current_thread k))) (prio (threads k t))"
proof -
  note b = lock_blocks [OF assms(1-6,8)]
  have "t \<notin> set (waitqs k (mutex_wait_q mutex))" using assms(3,4) by (auto simp: mutex_ok_def)
  then show ?thesis using b(2,5,6) assms(4,5,7)
    by (fastforce simp: no_inversion_def dest: set_takeWhileD set_dropWhileD)
qed

lemma unlock_no_inversion:
  assumes "kinv k" "runs k" "mutex_ok mutex k" "owner mutex = Some (current_thread k)" "\<not> 1 < lock_count mutex"
    "waitq_sorted (mutex_wait_q mutex) k" "k_mutex_unlock mutex k = (r, mu, ku)"
  shows "no_inversion mu ku \<and> prio (threads ku (current_thread k)) = owner_orig_prio mutex"
proof -
  let ?q = "mutex_wait_q mutex"
  note u = unlock_last [OF assms(1-5,7)]
  have c: "current_thread k \<notin> set (waitqs k ?q)" using assms(3,4) by (auto simp: mutex_ok_def)
  show ?thesis
  proof (cases "waitqs k ?q")
    case Nil
    then show ?thesis using u(3,4) by (simp add: no_inversion_def)
  next
    case (Cons w ws)
    from u(5) [OF Cons] have "mu = mutex\<lparr>owner := Some w, owner_orig_prio := prio (threads k w)\<rparr>" "waitqs ku ?q = ws" by simp_all
    then show ?thesis using u(3) c Cons assms(6) by (auto simp: no_inversion_def waitq_sorted_def)
  qed
qed

lemma timeout_no_inversion:
  assumes "kinv k" "mutex_ok mutex k" "owner mutex = Some t" "got_mutex \<noteq> 0"
    "waitq_sorted (mutex_wait_q mutex) k" "k_mutex_lock_resume mutex rs got_mutex k = (r, kt)"
  shows "no_inversion mutex kt \<and> kinv kt \<and> r = - EAGAIN \<and> waitqs kt = waitqs k \<and>
     prio (threads kt t) = (case waitqs k (mutex_wait_q mutex) of [] \<Rightarrow> owner_orig_prio mutex
        | w # ws \<Rightarrow> min (prio (threads k w)) (owner_orig_prio mutex))"
proof -
  let ?k = "k\<lparr>irq_unlocked := False\<rparr>" and ?q = "mutex_wait_q mutex"
  define p where "p = (case waitqs k ?q of [] \<Rightarrow> owner_orig_prio mutex | w # ws \<Rightarrow> min (prio (threads k w)) (owner_orig_prio mutex))"
  have pr: "-128 \<le> p" "p \<le> 127"
    using assms(2) kinv_prio [OF assms(1)] by (auto simp: p_def mutex_ok_def min_def split: list.split)
  have ni: "t \<noteq> z_idle_thread" and nw: "t \<notin> set (waitqs k ?q)" using assms(2,3) by (auto simp: mutex_ok_def)
  have i: "kinv ?k" using assms(1) by simp
  note a = adjust_fields [OF i assms(3) ni pr]
  have np: "(case z_waitq_head ?q ?k of Some w \<Rightarrow> new_prio_for_inheritance (prio (threads ?k w)) (owner_orig_prio mutex)
      | None \<Rightarrow> owner_orig_prio mutex) = p"
    using assms(2) by (auto simp: p_def z_waitq_head_def z_priq_dumb_best_def mutex_ok_def new_prio_eq split: list.split)
  obtain x k2 where x: "adjust_owner_prio mutex p ?k = (x, k2)" by fastforce
  have kt: "r = - EAGAIN" "kt = (if x \<or> rs then z_reschedule (irq_unlocked k) k2 else k_spin_unlock (irq_unlocked k) k2)"
    using assms(3,4,6) np x unfolding k_mutex_lock_resume_def k_spin_lock_def by simp_all
  have f: "kinv kt" "waitqs kt = waitqs k" "prio (threads kt u) = (if u = t then p else prio (threads k u))" for u
    using a(1,3) a(6) [of u] kinv_reschedule(1) [of k2 "irq_unlocked k"] x by (auto simp: kt(2) k_spin_unlock_def)
  moreover have "p \<le> prio (threads k u)" if "u \<in> set (waitqs k ?q)" for u
  proof (cases "waitqs k ?q")
    case (Cons w ws)
    have "p \<le> prio (threads k w)" by (simp add: p_def Cons)
    also have "\<dots> \<le> prio (threads k u)" using that assms(5) Cons by (auto simp: waitq_sorted_def)
    finally show ?thesis .
  qed (use that in simp)
  then have "no_inversion mutex kt" using f(2,3) nw assms(3) by (auto simp: no_inversion_def)
  ultimately show ?thesis using kt(1) by (simp add: p_def)
qed

text \<open>
  C12. Priority inheritance. If the owner of a mutex runs at least at the priority of
  every thread that waits for it, this stays so when another thread blocks on
  the mutex, and, with the wait queue in priority order, when the owner hands
  it over and when a wait times out. A thread that gives the mutex up runs at
  the priority that it had when it took it.
\<close>

theorem mutex_inheritance:
  assumes "kinv k" "mutex_ok mutex k" "owner mutex = Some t" "no_inversion mutex k"
    "waitq_sorted (mutex_wait_q mutex) k"
    "k_mutex_lock mutex timeout k = (res, rs, ml, kl)" "k_mutex_unlock mutex k = (r, mu, ku)"
    "k_mutex_lock_resume mutex rs' got_mutex k = (r', kt)"
  shows "(runs k \<and> t \<noteq> current_thread k \<and> timeout \<noteq> K_NO_WAIT \<longrightarrow>
       no_inversion ml kl \<and> prio (threads kl t) = min (prio (threads k (current_thread k))) (prio (threads k t))) \<and>
     (runs k \<and> t = current_thread k \<and> \<not> 1 < lock_count mutex \<longrightarrow>
       no_inversion mu ku \<and> prio (threads ku t) = owner_orig_prio mutex) \<and>
     (got_mutex \<noteq> 0 \<longrightarrow> no_inversion mutex kt \<and> r' = - EAGAIN \<and>
       (waitqs k (mutex_wait_q mutex) = [] \<longrightarrow> prio (threads kt t) = owner_orig_prio mutex))"
proof (intro conjI impI, goal_cases)
  case 1
  then show ?case using lock_no_inversion [OF assms(1) _ assms(2,3) _ _ assms(4,6)] by blast
next
  case 2
  then show ?case using lock_no_inversion [OF assms(1) _ assms(2,3) _ _ assms(4,6)] by blast
next
  case 3
  then show ?case using unlock_no_inversion [OF assms(1) _ assms(2) _ _ assms(5,7)] assms(3) by blast
next
  case 4
  then show ?case using unlock_no_inversion [OF assms(1) _ assms(2) _ _ assms(5,7)] assms(3) by blast
next
  case 5
  then show ?case using timeout_no_inversion [OF assms(1-3) _ assms(5,8)] by blast
next
  case 6
  then show ?case using timeout_no_inversion [OF assms(1-3) _ assms(5,8)] by blast
next
  case 7
  then show ?case using timeout_no_inversion [OF assms(1-3) _ assms(5,8)] by simp
qed

section \<open>A concrete mutex\<close>

lemma create_prio:
  "prio (threads (k_thread_create t p opts delay k) u) = (if u = t then int8 p else prio (threads k u))"
  by (auto simp: k_thread_create_def schedule_new_thread_def k_thread_start_def z_sched_start_def Let_def
      k_spin_lock_def k_spin_unlock_def z_setup_new_thread_def z_init_thread_base_def z_add_thread_timeout_def)

lemma busy_prio: "-127 \<le> prio (threads busy t)"
  unfolding busy_def create_prio by (auto simp: kernel_boot_fields int8_id)

text \<open>Thread 5, of the lowest priority, holds the mutex; the main thread runs.\<close>

definition mutex5 :: k_mutex where
  "mutex5 = \<lparr>mutex_wait_q = WQ 0, owner = Some 5, lock_count = 1, owner_orig_prio = 7\<rparr>"

lemma mutex5_ok: "mutex_ok mutex5 busy" "no_inversion mutex5 busy" "waitq_sorted (WQ 0) busy" "runs busy"
proof -
  have "waitqs busy (WQ 0) = []" by code_simp
  then show "mutex_ok mutex5 busy" "no_inversion mutex5 busy" "waitq_sorted (WQ 0) busy"
    using busy_prio by (simp_all add: mutex_ok_def no_inversion_def waitq_sorted_def mutex5_def z_idle_thread_def)
  show "runs busy" by (simp add: runs_def) code_simp
qed

theorem mutex_refines_witness:
  "abs_mutex mutex5 (snd (snd (snd (k_mutex_lock mutex5 K_FOREVER busy)))) = (Some (5, 1), [1]) \<and>
   fst (k_mutex_unlock mutex5 busy) = - EPERM"
proof -
  obtain res rs ml kl where l: "k_mutex_lock mutex5 K_FOREVER busy = (res, rs, ml, kl)" by (rule prod_cases4)
  obtain r mu ku where u: "k_mutex_unlock mutex5 busy = (r, mu, ku)" by (rule prod_cases3)
  have b: "waitqs busy (WQ 0) = []" "current_thread busy = 1" by code_simp+
  have "K_FOREVER \<noteq> K_NO_WAIT" by (simp add: timeout_consts)
  note t = mutex_refines [OF busy_kinv mutex5_ok(4,1) _ this l u]
  have "ml = mutex5" using lock_blocks(2) [OF busy_kinv mutex5_ok(4,1) _ _ _ l] b
    by (simp add: mutex5_def timeout_consts)
  with t l u b show ?thesis by (simp add: mutex5_def abs_mutex_def)
qed

theorem mutex_inheritance_witness:
  "prio (threads busy 5) = 7 \<and> prio (threads (snd (snd (snd (k_mutex_lock mutex5 K_FOREVER busy)))) 5) = 0"
proof -
  obtain res rs ml kl where l: "k_mutex_lock mutex5 K_FOREVER busy = (res, rs, ml, kl)" by (rule prod_cases4)
  obtain r mu ku where u: "k_mutex_unlock mutex5 busy = (r, mu, ku)" by (rule prod_cases3)
  obtain r' kt where t: "k_mutex_lock_resume mutex5 rs 0 busy = (r', kt)" by (rule prod.exhaust)
  have b: "prio (threads busy 5) = 7" "prio (threads busy 1) = 0" "current_thread busy = 1" by code_simp+
  have "owner mutex5 = Some 5" "waitq_sorted (mutex_wait_q mutex5) busy" using mutex5_ok(3) by (simp_all add: mutex5_def)
  from mutex_inheritance [OF busy_kinv mutex5_ok(1) this(1) mutex5_ok(2) this(2) l u t] mutex5_ok(4) b l
  show ?thesis by (simp add: timeout_consts)
qed

end
