(* ===== verification/Condvar.thy ===== *)
theory Condvar
  imports Mutex
begin

text \<open>
  Condition variables, from \<^verbatim>\<open>kernel/condvar.c\<close>. Waiting unlocks the mutex and blocks
  inside one critical section; the calling thread locks the mutex again when it
  is switched in.
\<close>

section \<open>Operations\<close>

record k_condvar =
  condvar_wait_q :: wq

definition k_condvar_init :: "k_condvar \<Rightarrow> 'a kernel_scheme \<Rightarrow> int \<times> 'a kernel_scheme" where
  "k_condvar_init condvar k = (0, k\<lparr>waitqs := (waitqs k)(condvar_wait_q condvar := [])\<rparr>)"

definition k_condvar_signal :: "k_condvar \<Rightarrow> 'a kernel_scheme \<Rightarrow> int \<times> 'a kernel_scheme" where
  "k_condvar_signal condvar k =
     (let (key, k1) = k_spin_lock k in
      case z_unpend_first_thread (condvar_wait_q condvar) k1 of
        (Some thread, k2) \<Rightarrow> (0, z_reschedule key (wake_with thread 0 k2))
      | (None, k2) \<Rightarrow> (0, k_spin_unlock key k2))"

definition k_condvar_broadcast :: "k_condvar \<Rightarrow> 'a kernel_scheme \<Rightarrow> int \<times> 'a kernel_scheme" where
  "k_condvar_broadcast condvar k =
     (let (key, k1) = k_spin_lock k;
          (woken, k2) = unpend_each (length (waitqs k1 (condvar_wait_q condvar))) (condvar_wait_q condvar) 0 k1
      in (woken, z_reschedule key k2))"

definition k_condvar_wait ::
    "k_condvar \<Rightarrow> k_mutex \<Rightarrow> ticks \<Rightarrow> 'a kernel_scheme \<Rightarrow> int outcome \<times> k_mutex \<times> 'a kernel_scheme" where
  "k_condvar_wait condvar mutex timeout k =
     (let (key, k1) = k_spin_lock k;
          (ignored, mutex1, k2) = k_mutex_unlock mutex k1
      in (Pend, mutex1, z_pend_curr key (Some (condvar_wait_q condvar)) timeout k2))"

text \<open>
  Back from the wait, the thread keeps the result of the wait and locks the
  mutex, which may block it again.
\<close>

definition k_condvar_wait_resume ::
    "k_mutex \<Rightarrow> 'a kernel_scheme \<Rightarrow> int \<times> int outcome \<times> bool \<times> k_mutex \<times> 'a kernel_scheme" where
  "k_condvar_wait_resume mutex k =
     (swap_retval (threads k (current_thread k)), k_mutex_lock mutex K_FOREVER k)"

section \<open>Signals\<close>

lemma condvar_signal_first:
  assumes i: "kinv k" "awake k" and q: "waitqs k (condvar_wait_q cv) = t # ts" and s: "k_condvar_signal cv k = (r, k')"
  shows "r = 0" "kinv k'" "waitqs k' = (waitqs k)(condvar_wait_q cv := ts)" "swap_retval (threads k' t) = 0" "released t k k'"
proof -
  obtain x k1 where u: "z_unpend_first_thread (condvar_wait_q cv) (k\<lparr>irq_unlocked := False\<rparr>) = (x, k1)" by fastforce
  note h = handed_over_plain [OF i q u disjI1 [OF refl]]
  have "(r, k') = (0, z_reschedule (irq_unlocked k) (wake_with t 0 k1))"
    unfolding s [symmetric] k_condvar_signal_def k_spin_lock_def using h(1) by (simp add: u)
  with h show "r = 0" "kinv k'" "waitqs k' = (waitqs k)(condvar_wait_q cv := ts)" "swap_retval (threads k' t) = 0"
    "released t k k'" by simp_all
qed

lemma condvar_broadcast_all:
  assumes "kinv k" "awake k" "k_condvar_broadcast cv k = (n, k')"
  shows "n = int (length (waitqs k (condvar_wait_q cv)))" "kinv k'" "waitqs k' (condvar_wait_q cv) = []"
    "t \<in> set (waitqs k (condvar_wait_q cv)) \<Longrightarrow> let_go 0 t k'"
proof -
  let ?q = "condvar_wait_q cv" and ?k = "k\<lparr>irq_unlocked := False\<rparr>"
  have b: "n = fst (unpend_each (length (waitqs k ?q)) ?q 0 ?k)"
    "k' = z_reschedule (irq_unlocked k) (snd (unpend_each (length (waitqs k ?q)) ?q 0 ?k))"
    using assms(3) by (simp_all add: k_condvar_broadcast_def k_spin_lock_def case_prod_beta)
  have i: "kinv ?k" using assms(1) by simp
  show "n = int (length (waitqs k ?q))" using unpend_each_spec(1) [OF i, where q = ?q and v = 0] b(1) by simp
  note r = all_released [OF assms(1,2), where q = ?q and v = 0 and key = "irq_unlocked k", folded b(2)]
  show "kinv k'" "waitqs k' ?q = []" "t \<in> set (waitqs k ?q) \<Longrightarrow> let_go 0 t k'" using r by simp_all
qed

section \<open>Waiting\<close>

text \<open>
  With interrupts already masked the unlock only hands the mutex over: the
  caller keeps running.
\<close>

lemma unlock_masked:
  assumes i: "kinv k" "runs k" and m: "mutex_ok mutex k" "owner mutex = Some (current_thread k)" "\<not> 1 < lock_count mutex"
    and irq: "\<not> irq_unlocked k" and l: "k_mutex_unlock mutex k = (r, mutex', k')"
  shows "current_thread k' = current_thread k" "runs k'"
proof -
  let ?c = "current_thread k" and ?q = "mutex_wait_q mutex"
  let ?k2 = "snd (adjust_owner_prio mutex (owner_orig_prio mutex) k)"
  have kk: "k\<lparr>irq_unlocked := False\<rparr> = k" using irq by simp
  have ni: "?c \<noteq> z_idle_thread" and pr: "-128 \<le> owner_orig_prio mutex" "owner_orig_prio mutex \<le> 127"
    using m(1,2) by (auto simp: mutex_ok_def)
  note a = adjust_fields [OF i(1) m(2) ni pr]
  obtain t k3 where u: "z_unpend_first_thread ?q ?k2 = (t, k3)" by fastforce
  have k': "k' = (case t of Some n \<Rightarrow> wake_with n 0 k3 | None \<Rightarrow> k3)\<lparr>irq_unlocked := False\<rparr>"
    using l m(2,3) u irq kk unfolding k_mutex_unlock_def
    by (simp add: k_spin_lock_def z_reschedule_def resched_def k_spin_unlock_def split: option.splits)
  have "current_thread k' = ?c \<and> runs k'"
  proof (cases "waitqs k ?q")
    case Nil
    then show ?thesis using u unpend_first_none [of ?k2 ?q] a(2,3,4) i(2) by (auto simp: k' runs_def)
  next
    case (Cons w ws)
    have w2: "waitqs ?k2 ?q = w # ws" using Cons a(3) by simp
    have uf: "t = Some w" "k3 = snd (z_unpend_first_thread ?q ?k2)" using kinv_unpend_first(1) [OF a(1) w2] u by auto
    note f = unpend_first_woken [where m = "mem k3" and v = 0, OF a(1) w2, folded uf(2), OF disjI1 [OF refl], simplified]
    have "w \<noteq> ?c" using Cons m(1,2) by (auto simp: mutex_ok_def)
    then have "threads (wake_with w 0 k3) ?c = threads ?k2 ?c" using f(10) by simp
    moreover have "queued ?k2 ?c" using a(2,4) i(2) sched_wfD(3) [OF kinv_exD(1) [OF a(1)]] by (simp add: runs_def)
    ultimately have "?c \<in> set (runq (wake_with w 0 k3))" using sched_wfD(3) [OF kinv_exD(1) [OF f(1)]] by simp
    then show ?thesis using f(5) a(4) by (simp add: k' uf(1) runs_def)
  qed
  then show "current_thread k' = ?c" "runs k'" by simp_all
qed


definition cond1 :: k_condvar where "cond1 = \<lparr>condvar_wait_q = WQ 1\<rparr>"

definition mutex1 :: k_mutex where
  "mutex1 = \<lparr>mutex_wait_q = WQ 0, owner = Some 1, lock_count = 1, owner_orig_prio = 0\<rparr>"


end
