(* ===== verification/Sem.thy ===== *)
theory Sem
  imports Waitq
begin

text \<open>
  Semaphores, from \<^verbatim>\<open>kernel/sem.c\<close>, without \<open>CONFIG_POLL\<close>.
\<close>

section \<open>Operations\<close>

record k_sem =
  sem_wait_q :: wq
  count :: u32
  limit :: u32

definition k_sem_init :: "k_sem \<Rightarrow> u32 \<Rightarrow> u32 \<Rightarrow> 'a kernel_scheme \<Rightarrow> int \<times> k_sem \<times> 'a kernel_scheme" where
  "k_sem_init sem initial_count lim k =
     (if lim = 0 \<or> initial_count > lim then (- EINVAL, sem, k)
      else (0, sem\<lparr>count := initial_count, limit := lim\<rparr>, k\<lparr>waitqs := (waitqs k)(sem_wait_q sem := [])\<rparr>))"

definition k_sem_give :: "k_sem \<Rightarrow> 'a kernel_scheme \<Rightarrow> k_sem \<times> 'a kernel_scheme" where
  "k_sem_give sem k =
     (let (key, k1) = k_spin_lock k in
      case z_unpend_first_thread (sem_wait_q sem) k1 of
        (Some thread, k2) \<Rightarrow> (sem, z_reschedule key (wake_with thread 0 k2))
      | (None, k2) \<Rightarrow> (sem\<lparr>count := count sem + (if count sem \<noteq> limit sem then 1 else 0)\<rparr>, k_spin_unlock key k2))"

definition k_sem_take :: "k_sem \<Rightarrow> ticks \<Rightarrow> 'a kernel_scheme \<Rightarrow> int outcome \<times> k_sem \<times> 'a kernel_scheme" where
  "k_sem_take sem timeout k =
     (let (key, k1) = k_spin_lock k in
      if count sem > 0 then (Ret 0, sem\<lparr>count := count sem - 1\<rparr>, k_spin_unlock key k1)
      else if timeout = K_NO_WAIT then (Ret (- EBUSY), sem, k_spin_unlock key k1)
      else (Pend, sem, z_pend_curr key (Some (sem_wait_q sem)) timeout k1))"

definition k_sem_take_resume :: "tid \<Rightarrow> 'a kernel_scheme \<Rightarrow> int" where
  "k_sem_take_resume self k = swap_retval (threads k self)"

definition k_sem_reset :: "k_sem \<Rightarrow> 'a kernel_scheme \<Rightarrow> k_sem \<times> 'a kernel_scheme" where
  "k_sem_reset sem k =
     (let (key, k1) = k_spin_lock k;
          k2 = snd (unpend_each (length (waitqs k1 (sem_wait_q sem))) (sem_wait_q sem) (- EAGAIN) k1)
      in (sem\<lparr>count := 0\<rparr>, z_reschedule key k2))"

definition k_sem_count_get :: "k_sem \<Rightarrow> u32" where
  "k_sem_count_get sem = count sem"

section \<open>Invariant\<close>

definition sem_ok :: "k_sem \<Rightarrow> 'a kernel_scheme \<Rightarrow> bool" where
  "sem_ok sem k \<longleftrightarrow> count sem \<le> limit sem \<and> (waitqs k (sem_wait_q sem) \<noteq> [] \<longrightarrow> count sem = 0)"

lemma sem_room:
  assumes "sem_ok sem k" "count sem \<noteq> limit sem"
  shows "unat (count sem + 1) = unat (count sem) + 1" "unat (count sem) < unat (limit sem)"
proof -
  have l: "count sem < limit sem" using assms by (auto simp: sem_ok_def order_less_le)
  then show "unat (count sem + 1) = unat (count sem) + 1" by (rule unat_inc)
  show "unat (count sem) < unat (limit sem)" using l by (simp add: word_less_nat_alt)
qed

lemma give_no_waiter:
  assumes "waitqs k (sem_wait_q sem) = []"
  shows "k_sem_give sem k = (sem\<lparr>count := count sem + (if count sem \<noteq> limit sem then 1 else 0)\<rparr>, k)"
  using assms by (simp add: k_sem_give_def k_spin_lock_def k_spin_unlock_def unpend_first_none)

lemma give_waiter:
  assumes i: "kinv k" "awake k" and q: "waitqs k (sem_wait_q sem) = t # ts" and g: "k_sem_give sem k = (sem', k')"
  shows "sem' = sem" "kinv k'" "waitqs k' = (waitqs k)(sem_wait_q sem := ts)" "swap_retval (threads k' t) = 0"
    "released t k k'"
proof -
  obtain r k1 where u: "z_unpend_first_thread (sem_wait_q sem) (k\<lparr>irq_unlocked := False\<rparr>) = (r, k1)" by fastforce
  note h = handed_over_plain [OF i q u disjI1 [OF refl]]
  have "(sem', k') = (sem, z_reschedule (irq_unlocked k) (wake_with t 0 k1))"
    unfolding g [symmetric] k_sem_give_def k_spin_lock_def using h(1) by (simp add: u)
  with h show "sem' = sem" "kinv k'" "waitqs k' = (waitqs k)(sem_wait_q sem := ts)" "swap_retval (threads k' t) = 0"
    "released t k k'" by simp_all
qed

section \<open>Properties\<close>

text \<open>
  Giving a semaphore with waiting threads hands the unit to the first of them: its
  \<open>k_sem_take\<close> returns 0, it waits no more, and the count stays 0. With no waiting thread
  the count goes up by one unless it is at the limit.
\<close>

theorem sem_give_hands_over:
  assumes "kinv k" "awake k" "sem_ok sem k" "k_sem_give sem k = (sem', k')"
  shows "kinv k' \<and> sem_ok sem' k' \<and>
     (case waitqs k (sem_wait_q sem) of
        [] \<Rightarrow> unat (count sem') = min (unat (limit sem)) (unat (count sem) + 1) \<and> k' = k
      | t # ts \<Rightarrow> sem' = sem \<and> count sem = 0 \<and> waitqs k' = (waitqs k)(sem_wait_q sem := ts) \<and>
          k_sem_take_resume t k' = 0 \<and> released t k k')"
proof (cases "waitqs k (sem_wait_q sem)")
  case Nil
  then show ?thesis using assms give_no_waiter [OF Nil] sem_room [OF assms(3)]
    by (cases "count sem = limit sem") (auto simp: sem_ok_def word_le_nat_alt)
next
  case (Cons t ts)
  note g = give_waiter [OF assms(1,2) Cons assms(4)]
  then show ?thesis using assms(3) Cons by (auto simp: sem_ok_def k_sem_take_resume_def)
qed

text \<open>
  Resetting a semaphore ends every wait on it with \<open>-EAGAIN\<close> and leaves its count at 0.
\<close>

theorem sem_reset_releases:
  assumes "kinv k" "awake k" "k_sem_reset sem k = (sem', k')"
  shows "kinv k' \<and> sem_ok sem' k' \<and> count sem' = 0 \<and> waitqs k' (sem_wait_q sem) = [] \<and>
     (\<forall>t \<in> set (waitqs k (sem_wait_q sem)). k_sem_take_resume t k' = - EAGAIN \<and>
        pended_on (threads k' t) = None \<and> \<not> to_linked (ThreadTO t) k')"
proof -
  have s: "sem' = sem\<lparr>count := 0\<rparr>" "k' = z_reschedule (irq_unlocked k)
      (snd (unpend_each (length (waitqs k (sem_wait_q sem))) (sem_wait_q sem) (- EAGAIN) (k\<lparr>irq_unlocked := False\<rparr>)))"
    using assms(3) by (simp_all add: k_sem_reset_def k_spin_lock_def)
  note r = all_released [OF assms(1,2), where q = "sem_wait_q sem" and v = "- EAGAIN" and key = "irq_unlocked k", folded s(2)]
  then show ?thesis using s(1) by (simp add: sem_ok_def let_go_def k_sem_take_resume_def)
qed

text \<open>
  A run of a semaphore: gives, takes by running threads, and anything else the
  kernel does in between (which may end waits but not begin them). \<open>g\<close> counts the gives,
  \<open>n\<close> the takes that succeed, at once or by a hand-over, and \<open>d\<close> the gives that find the
  semaphore at its limit.
\<close>

inductive sem_run :: "k_sem \<Rightarrow> 'a kernel_scheme \<Rightarrow> k_sem \<Rightarrow> 'a kernel_scheme \<Rightarrow> nat \<Rightarrow> nat \<Rightarrow> nat \<Rightarrow> bool"
  for sem0 k0 where
  start: "sem_run sem0 k0 sem0 k0 0 0 0"
| give: "sem_run sem0 k0 sem k g n d \<Longrightarrow> awake k \<Longrightarrow> k_sem_give sem k = (sem', k') \<Longrightarrow>
    sem_run sem0 k0 sem' k' (g + 1) (n + (if waitqs k (sem_wait_q sem) \<noteq> [] then 1 else 0))
      (d + (if waitqs k (sem_wait_q sem) = [] \<and> count sem = limit sem then 1 else 0))"
| take: "sem_run sem0 k0 sem k g n d \<Longrightarrow> runs k \<Longrightarrow> k_sem_take sem timeout k = (res, sem', k') \<Longrightarrow>
    sem_run sem0 k0 sem' k' g (n + (if res = Ret 0 then 1 else 0)) d"
| other: "sem_run sem0 k0 sem k g n d \<Longrightarrow> kinv k' \<Longrightarrow>
    set (waitqs k' (sem_wait_q sem)) \<subseteq> set (waitqs k (sem_wait_q sem)) \<Longrightarrow> sem_run sem0 k0 sem k' g n d"

lemma take_ok:
  assumes "kinv k" "runs k" "sem_ok sem k" "k_sem_take sem timeout k = (res, sem', k')"
  shows "kinv k'" "sem_ok sem' k'" "limit sem' = limit sem"
    "unat (count sem') + (if res = Ret 0 then 1 else 0) = unat (count sem)"
    "res = Ret 0 \<longleftrightarrow> 0 < count sem"
proof -
  let ?k = "k\<lparr>irq_unlocked := False\<rparr>"
  have i: "kinv ?k" "runs ?k" using assms(1,2) by (simp_all add: runs_def)
  have c: "unat (count sem - 1) + 1 = unat (count sem)" if "0 < count sem"
  proof -
    have "count sem \<noteq> 0" using that by auto
    then show ?thesis using that by (simp add: unat_minus_one word_less_nat_alt)
  qed
  have d: "count sem - 1 \<le> limit sem" if "0 < count sem"
    using c [OF that] assms(3) by (simp add: sem_ok_def word_le_nat_alt)
  have w: "waitqs k (sem_wait_q sem) = []" if "0 < count sem" using that assms(3) by (auto simp: sem_ok_def)
  show "kinv k'" "sem_ok sem' k'" "limit sem' = limit sem"
    "unat (count sem') + (if res = Ret 0 then 1 else 0) = unat (count sem)" "res = Ret 0 \<longleftrightarrow> 0 < count sem"
    using assms(1,3,4) c d w kinv_pend_curr(1) [OF i]
    by (auto simp: k_sem_take_def k_spin_lock_def k_spin_unlock_def sem_ok_def errno_defs word_gt_0 split: if_splits)
qed


text \<open>
  A concrete run: a semaphore with count 1 and limit 2, the main thread takes it,
  blocks on the second take and is handed the unit that thread 3 gives.
\<close>

definition sem1 :: k_sem where
  "sem1 = \<lparr>sem_wait_q = WQ 0, count = 1, limit = 2\<rparr>"

definition sem1_blocked :: kernel where
  "sem1_blocked = snd (snd (k_sem_take (sem1\<lparr>count := 0\<rparr>) K_FOREVER busy))"

lemma sem1_blocked_kinv: "kinv sem1_blocked"
proof -
  have "runs busy" by (simp add: runs_def) code_simp
  moreover have "sem_ok (sem1\<lparr>count := 0\<rparr>) busy" by (simp add: sem_ok_def sem1_def)
  moreover obtain res s k where "k_sem_take (sem1\<lparr>count := 0\<rparr>) K_FOREVER busy = (res, s, k)" by (rule prod_cases3)
  ultimately show ?thesis using take_ok(1) [OF busy_kinv] by (simp add: sem1_blocked_def)
qed

lemma sem1_blocked_eq:
  "sem1_blocked = z_pend_curr (irq_unlocked busy) (Some (WQ 0)) K_FOREVER (busy\<lparr>irq_unlocked := False\<rparr>)"
  by (simp add: sem1_blocked_def k_sem_take_def k_spin_lock_def sem1_def timeout_consts)

lemma sem1_blocked_facts: "waitqs sem1_blocked (WQ 0) = [1]" "awake sem1_blocked"
  unfolding awake_def sem1_blocked_eq by code_simp+

theorem sem_give_hands_over_witness:
  "waitqs sem1_blocked (WQ 0) = [1] \<and>
   (let k' = snd (k_sem_give (sem1\<lparr>count := 0\<rparr>) sem1_blocked) in
      kinv k' \<and> waitqs k' (WQ 0) = [] \<and> k_sem_take_resume 1 k' = 0)"
proof -
  let ?s = "sem1\<lparr>count := 0\<rparr>"
  note f = sem1_blocked_facts
  have "sem_ok ?s sem1_blocked" by (simp add: sem_ok_def sem1_def)
  then show ?thesis
    using sem_give_hands_over [OF sem1_blocked_kinv, of ?s "fst (k_sem_give ?s sem1_blocked)" "snd (k_sem_give ?s sem1_blocked)"] f
    by (simp add: sem1_def Let_def)
qed

theorem sem_reset_releases_witness:
  "let k' = snd (k_sem_reset sem1 sem1_blocked) in kinv k' \<and> waitqs k' (WQ 0) = [] \<and> k_sem_take_resume 1 k' = - EAGAIN"
proof -
  note f = sem1_blocked_facts
  show ?thesis
    using sem_reset_releases [OF sem1_blocked_kinv f(2), of sem1 "fst (k_sem_reset sem1 sem1_blocked)" "snd (k_sem_reset sem1 sem1_blocked)"] f(1)
    by (simp add: sem1_def Let_def)
qed


end
