(* ===== verification/Msgq.thy ===== *)
theory Msgq
  imports Waitq
begin

text \<open>
  Message queues, from \<^verbatim>\<open>kernel/msg_q.c\<close>, without \<open>CONFIG_POLL\<close>: a ring buffer of messages
  of one size in memory, with readers or writers waiting. Addresses and sizes
  are natural numbers below the 32-bit bound where the code computes with
  \<open>uint32_t\<close> or \<open>size_t\<close>; \<open>malloc\<close> stands for \<open>z_thread_malloc\<close> and returns 0 for \<open>NULL\<close>.
\<close>

section \<open>Operations\<close>

record k_msgq =
  msgq_wait_q :: wq
  msg_size :: nat
  max_msgs :: nat
  buffer_start :: addr
  buffer_end :: addr
  read_ptr :: addr
  write_ptr :: addr
  used_msgs :: nat
  msgq_flags :: u8

definition K_MSGQ_FLAG_ALLOC :: u8 where "K_MSGQ_FLAG_ALLOC = BIT 0"

definition memcpy :: "addr \<Rightarrow> addr \<Rightarrow> nat \<Rightarrow> (addr \<Rightarrow> u8) \<Rightarrow> (addr \<Rightarrow> u8)" where
  "memcpy dst src n m = (\<lambda>a. if dst \<le> a \<and> a < dst + n then m (src + (a - dst)) else m a)"

definition k_msgq_init :: "k_msgq \<Rightarrow> addr \<Rightarrow> nat \<Rightarrow> nat \<Rightarrow> 'a kernel_scheme \<Rightarrow> k_msgq \<times> 'a kernel_scheme" where
  "k_msgq_init msgq buffer msize msgs k =
     (msgq\<lparr>msg_size := msize, max_msgs := msgs, buffer_start := buffer, buffer_end := buffer + msgs * msize,
           read_ptr := buffer, write_ptr := buffer, used_msgs := 0, msgq_flags := 0\<rparr>,
      k\<lparr>waitqs := (waitqs k)(msgq_wait_q msgq := [])\<rparr>)"

definition k_msgq_alloc_init ::
    "(nat \<Rightarrow> addr) \<Rightarrow> k_msgq \<Rightarrow> nat \<Rightarrow> nat \<Rightarrow> 'a kernel_scheme \<Rightarrow> int \<times> k_msgq \<times> 'a kernel_scheme" where
  "k_msgq_alloc_init malloc msgq msize msgs k =
     (if msize * msgs \<ge> 2 ^ 32 then (- EINVAL, msgq, k)
      else
        let buffer = malloc (msize * msgs) in
        if buffer \<noteq> 0
        then let (msgq1, k1) = k_msgq_init msgq buffer msize msgs k
             in (0, msgq1\<lparr>msgq_flags := K_MSGQ_FLAG_ALLOC\<rparr>, k1)
        else (- ENOMEM, msgq, k))"

text \<open>The second result says whether \<open>k_free\<close> is called on the buffer.\<close>

definition k_msgq_cleanup :: "k_msgq \<Rightarrow> 'a kernel_scheme \<Rightarrow> int \<times> bool \<times> k_msgq" where
  "k_msgq_cleanup msgq k =
     (if z_waitq_head (msgq_wait_q msgq) k \<noteq> None then (- EBUSY, False, msgq)
      else if msgq_flags msgq AND K_MSGQ_FLAG_ALLOC \<noteq> 0
      then (0, True, msgq\<lparr>msgq_flags := msgq_flags msgq AND NOT K_MSGQ_FLAG_ALLOC\<rparr>)
      else (0, False, msgq))"

text \<open>The steps that move a message into the ring buffer and out of it.\<close>

definition ring_write :: "addr \<Rightarrow> k_msgq \<Rightarrow> 'a kernel_scheme \<Rightarrow> k_msgq \<times> 'a kernel_scheme" where
  "ring_write data msgq k =
     (let w = write_ptr msgq + msg_size msgq
      in (msgq\<lparr>write_ptr := (if w = buffer_end msgq then buffer_start msgq else w), used_msgs := used_msgs msgq + 1\<rparr>,
          k\<lparr>mem := memcpy (write_ptr msgq) data (msg_size msgq) (mem k)\<rparr>))"

definition ring_read :: "addr \<Rightarrow> k_msgq \<Rightarrow> 'a kernel_scheme \<Rightarrow> k_msgq \<times> 'a kernel_scheme" where
  "ring_read data msgq k =
     (let r = read_ptr msgq + msg_size msgq
      in (msgq\<lparr>read_ptr := (if r = buffer_end msgq then buffer_start msgq else r), used_msgs := used_msgs msgq - 1\<rparr>,
          k\<lparr>mem := memcpy data (read_ptr msgq) (msg_size msgq) (mem k)\<rparr>))"

definition k_msgq_put :: "k_msgq \<Rightarrow> addr \<Rightarrow> ticks \<Rightarrow> 'a kernel_scheme \<Rightarrow> int outcome \<times> k_msgq \<times> 'a kernel_scheme" where
  "k_msgq_put msgq data timeout k =
     (let (key, k1) = k_spin_lock k in
      if used_msgs msgq < max_msgs msgq
      then case z_unpend_first_thread (msgq_wait_q msgq) k1 of
             (Some thread, k2) \<Rightarrow>
               (Ret 0, msgq,
                z_reschedule key (wake_with thread 0
                  (k2\<lparr>mem := memcpy (swap_data (threads k2 thread)) data (msg_size msgq) (mem k2)\<rparr>)))
           | (None, k2) \<Rightarrow> (let (msgq1, k3) = ring_write data msgq k2 in (Ret 0, msgq1, k_spin_unlock key k3))
      else if timeout = K_NO_WAIT then (Ret (- ENOMSG), msgq, k_spin_unlock key k1)
      else (Pend, msgq, z_pend_curr key (Some (msgq_wait_q msgq)) timeout
              (upd_thread (current_thread k1) (\<lambda>th. th\<lparr>swap_data := data\<rparr>) k1)))"

definition k_msgq_get_attrs :: "k_msgq \<Rightarrow> nat \<times> nat \<times> nat" where
  "k_msgq_get_attrs msgq = (msg_size msgq, max_msgs msgq, used_msgs msgq)"

definition k_msgq_get :: "k_msgq \<Rightarrow> addr \<Rightarrow> ticks \<Rightarrow> 'a kernel_scheme \<Rightarrow> int outcome \<times> k_msgq \<times> 'a kernel_scheme" where
  "k_msgq_get msgq data timeout k =
     (let (key, k1) = k_spin_lock k in
      if used_msgs msgq > 0
      then let (msgq1, k2) = ring_read data msgq k1 in
           case z_unpend_first_thread (msgq_wait_q msgq) k2 of
             (Some thread, k3) \<Rightarrow>
               (let (msgq2, k4) = ring_write (swap_data (threads k3 thread)) msgq1 k3
                in (Ret 0, msgq2, z_reschedule key (wake_with thread 0 k4)))
           | (None, k3) \<Rightarrow> (Ret 0, msgq1, k_spin_unlock key k3)
      else if timeout = K_NO_WAIT then (Ret (- ENOMSG), msgq, k_spin_unlock key k1)
      else (Pend, msgq, z_pend_curr key (Some (msgq_wait_q msgq)) timeout
              (upd_thread (current_thread k1) (\<lambda>th. th\<lparr>swap_data := data\<rparr>) k1)))"

text \<open>Both calls return, when they have blocked, what the waker left.\<close>

definition k_msgq_resume :: "tid \<Rightarrow> 'a kernel_scheme \<Rightarrow> int" where
  "k_msgq_resume self k = swap_retval (threads k self)"

definition k_msgq_peek :: "k_msgq \<Rightarrow> addr \<Rightarrow> 'a kernel_scheme \<Rightarrow> int \<times> 'a kernel_scheme" where
  "k_msgq_peek msgq data k =
     (if used_msgs msgq > 0 then (0, k\<lparr>mem := memcpy data (read_ptr msgq) (msg_size msgq) (mem k)\<rparr>)
      else (- ENOMSG, k))"

definition k_msgq_peek_at :: "k_msgq \<Rightarrow> addr \<Rightarrow> nat \<Rightarrow> 'a kernel_scheme \<Rightarrow> int \<times> 'a kernel_scheme" where
  "k_msgq_peek_at msgq data idx k =
     (if used_msgs msgq > idx
      then let bytes_to_end = (buffer_end msgq - read_ptr msgq) mod 2 ^ 32;
               byte_offset = (idx * msg_size msgq) mod 2 ^ 32;
               start_addr = (if bytes_to_end \<le> byte_offset then buffer_start msgq else read_ptr msgq);
               byte_offset = (if bytes_to_end \<le> byte_offset then byte_offset - bytes_to_end else byte_offset)
           in (0, k\<lparr>mem := memcpy data (start_addr + byte_offset) (msg_size msgq) (mem k)\<rparr>)
      else (- ENOMSG, k))"

definition k_msgq_purge :: "k_msgq \<Rightarrow> 'a kernel_scheme \<Rightarrow> k_msgq \<times> 'a kernel_scheme" where
  "k_msgq_purge msgq k =
     (let (key, k1) = k_spin_lock k;
          k2 = snd (unpend_each (length (waitqs k1 (msgq_wait_q msgq))) (msgq_wait_q msgq) (- ENOMSG) k1)
      in (msgq\<lparr>used_msgs := 0, read_ptr := write_ptr msgq\<rparr>, z_reschedule key k2))"

definition k_msgq_num_free_get :: "k_msgq \<Rightarrow> nat" where
  "k_msgq_num_free_get msgq = max_msgs msgq - used_msgs msgq"

definition k_msgq_num_used_get :: "k_msgq \<Rightarrow> nat" where
  "k_msgq_num_used_get msgq = used_msgs msgq"

section \<open>The ring buffer\<close>

text \<open>A message is the list of its bytes; the ring buffer is a sequence of slots.\<close>

definition msg_at :: "(addr \<Rightarrow> u8) \<Rightarrow> addr \<Rightarrow> nat \<Rightarrow> u8 list" where
  "msg_at m a n = map m [a..<a + n]"

definition slot :: "k_msgq \<Rightarrow> nat \<Rightarrow> addr" where
  "slot msgq i = buffer_start msgq + i * msg_size msgq"

definition read_slot :: "k_msgq \<Rightarrow> nat" where
  "read_slot msgq = (read_ptr msgq - buffer_start msgq) div msg_size msgq"

definition contents :: "k_msgq \<Rightarrow> (addr \<Rightarrow> u8) \<Rightarrow> u8 list list" where
  "contents msgq m =
     map (\<lambda>j. msg_at m (slot msgq ((read_slot msgq + j) mod max_msgs msgq)) (msg_size msgq)) [0..<used_msgs msgq]"

definition ring_ok :: "k_msgq \<Rightarrow> bool" where
  "ring_ok msgq \<longleftrightarrow> 0 < msg_size msgq \<and> 0 < max_msgs msgq \<and> used_msgs msgq \<le> max_msgs msgq \<and>
     buffer_end msgq = slot msgq (max_msgs msgq) \<and> read_slot msgq < max_msgs msgq \<and>
     read_ptr msgq = slot msgq (read_slot msgq) \<and>
     write_ptr msgq = slot msgq ((read_slot msgq + used_msgs msgq) mod max_msgs msgq)"

text \<open>A message area of the caller that does not overlap the ring buffer.\<close>

definition outside :: "k_msgq \<Rightarrow> addr \<Rightarrow> bool" where
  "outside msgq a \<longleftrightarrow> a + msg_size msgq \<le> buffer_start msgq \<or> buffer_end msgq \<le> a"

lemma msg_at_memcpy: "msg_at (memcpy d s n m) d n = msg_at m s n"
proof (rule nth_equalityI)
  fix i assume "i < length (msg_at (memcpy d s n m) d n)"
  then show "msg_at (memcpy d s n m) d n ! i = msg_at m s n ! i" by (simp add: msg_at_def memcpy_def)
qed (simp add: msg_at_def)

lemma msg_at_memcpy_other: "a + l \<le> d \<or> d + n \<le> a \<Longrightarrow> msg_at (memcpy d s n m) a l = msg_at m a l"
  by (auto simp: msg_at_def memcpy_def)

lemma slot_apart:
  assumes "i \<noteq> j"
  shows "slot q i + msg_size q \<le> slot q j \<or> slot q j + msg_size q \<le> slot q i"
proof -
  have "slot q a + msg_size q \<le> slot q b" if "a < b" for a b
  proof -
    have "(a + 1) * msg_size q \<le> b * msg_size q" using that by (intro mult_le_mono1) simp
    then show ?thesis by (simp add: slot_def)
  qed
  then show ?thesis using assms by (metis linorder_neqE_nat)
qed

lemma slot_inside: "ring_ok q \<Longrightarrow> i < max_msgs q \<Longrightarrow> buffer_start q \<le> slot q i \<and> slot q i + msg_size q \<le> buffer_end q"
proof -
  assume "ring_ok q" "i < max_msgs q"
  moreover from this have "(i + 1) * msg_size q \<le> max_msgs q * msg_size q" by (intro mult_le_mono1) simp
  ultimately show ?thesis by (simp add: ring_ok_def slot_def)
qed

lemma slot_outside:
  "ring_ok q \<Longrightarrow> i < max_msgs q \<Longrightarrow> outside q a \<Longrightarrow> slot q i + msg_size q \<le> a \<or> a + msg_size q \<le> slot q i"
  using slot_inside [of q i] by (auto simp: outside_def)

text \<open>The step from one slot to the next, with the wrap at the end of the buffer.\<close>

lemma slot_next:
  assumes "ring_ok q" "i < max_msgs q"
  shows "(if slot q i + msg_size q = buffer_end q then buffer_start q else slot q i + msg_size q) = slot q ((i + 1) mod max_msgs q)"
proof (cases "i + 1 = max_msgs q")
  case True
  then have "slot q i + msg_size q = slot q (max_msgs q)" by (simp add: slot_def True [symmetric])
  then show ?thesis using assms(1) True by (simp add: ring_ok_def slot_def)
next
  case False
  then have "slot q (i + 1) + msg_size q \<le> buffer_end q" using slot_inside [OF assms(1), of "i + 1"] assms(2) by simp
  then have "slot q i + msg_size q \<noteq> buffer_end q" using assms(1) by (auto simp: ring_ok_def slot_def)
  then show ?thesis using False assms(2) by (simp add: slot_def)
qed

lemma ring_distinct:
  assumes "i < (m::nat)" "j < m" "i \<noteq> j"
  shows "(r + i) mod m \<noteq> (r + j) mod m"
proof
  assume e: "(r + i) mod m = (r + j) mod m"
  have "a = b" if "a \<le> b" "b < m" "(r + a) mod m = (r + b) mod m" for a b
  proof -
    have "m dvd (r + b) - (r + a)" using that by (metis mod_eq_dvd_iff_nat add_le_mono1 add.commute)
    then show ?thesis using that by (auto dest: dvd_imp_le)
  qed
  then show False using e assms by (metis nat_le_linear)
qed

lemma read_slot_slot: "0 < msg_size q \<Longrightarrow> read_ptr q = slot q i \<Longrightarrow> read_slot q = i"
  by (simp add: read_slot_def slot_def)

text \<open>Writing a message appends it to the contents; reading one takes it from the front.\<close>

lemma ring_write_contents:
  assumes ok: "ring_ok q" and room: "used_msgs q < max_msgs q" and w: "ring_write data q k = (q', k')"
  shows "ring_ok q'" "contents q' (mem k') = contents q (mem k) @ [msg_at (mem k) data (msg_size q)]"
    "\<exists>m. k' = k\<lparr>mem := m\<rparr>" "msgq_wait_q q' = msgq_wait_q q" "msg_size q' = msg_size q" "max_msgs q' = max_msgs q"
    "used_msgs q' = used_msgs q + 1" "outside q' = outside q"
    "outside q a \<Longrightarrow> msg_at (mem k') a (msg_size q) = msg_at (mem k) a (msg_size q)"
proof -
  let ?m = "max_msgs q" and ?n = "msg_size q" and ?r = "read_slot q" and ?u = "used_msgs q"
  let ?w = "(?r + ?u) mod ?m"
  have lt: "?w < ?m" using ok by (simp add: ring_ok_def)
  have sl: "slot q' = slot q" "read_slot q' = ?r" using w by (auto simp: slot_def read_slot_def ring_write_def Let_def fun_eq_iff)
  have k': "k' = k\<lparr>mem := memcpy (slot q ?w) data ?n (mem k)\<rparr>" using w ok by (auto simp: ring_write_def Let_def ring_ok_def)
  have "write_ptr q' = slot q ((?w + 1) mod ?m)"
    using w slot_next [OF ok lt] ok by (auto simp: ring_write_def Let_def ring_ok_def)
  moreover have "(?w + 1) mod ?m = (?r + (?u + 1)) mod ?m" by (simp add: mod_Suc_eq)
  ultimately show "ring_ok q'" using ok room w sl by (auto simp: ring_ok_def ring_write_def Let_def)
  show f: "\<exists>m. k' = k\<lparr>mem := m\<rparr>" "msgq_wait_q q' = msgq_wait_q q" "msg_size q' = msg_size q" "max_msgs q' = max_msgs q"
    "used_msgs q' = used_msgs q + 1" "outside q' = outside q"
    using w k' by (auto simp: ring_write_def Let_def outside_def fun_eq_iff)
  have "msg_at (mem k') (slot q ((?r + j) mod ?m)) ?n = msg_at (mem k) (slot q ((?r + j) mod ?m)) ?n" if "j < ?u" for j
    using slot_apart [of "(?r + j) mod ?m" ?w q] ring_distinct [of j ?m ?u ?r] that room
    by (auto simp: k' intro!: msg_at_memcpy_other)
  then show "contents q' (mem k') = contents q (mem k) @ [msg_at (mem k) data ?n]"
    by (simp add: contents_def sl f(3-5) k' msg_at_memcpy)
  show "msg_at (mem k') a ?n = msg_at (mem k) a ?n" if "outside q a"
    using slot_outside [OF ok lt that] by (auto simp: k' intro!: msg_at_memcpy_other)
qed

lemma contents_memcpy:
  assumes "ring_ok q" "outside q d"
  shows "contents q (memcpy d s (msg_size q) m) = contents q m"
proof -
  have "msg_at (memcpy d s (msg_size q) m) (slot q i) (msg_size q) = msg_at m (slot q i) (msg_size q)" if "i < max_msgs q" for i
    using slot_outside [OF assms(1) that assms(2)] by (intro msg_at_memcpy_other) auto
  then show ?thesis using assms(1) by (simp add: contents_def ring_ok_def)
qed

lemma ring_read_contents:
  assumes ok: "ring_ok q" and some: "0 < used_msgs q" and out: "outside q data" and rd: "ring_read data q k = (q', k')"
  shows "ring_ok q'" "contents q (mem k) = msg_at (mem k') data (msg_size q) # contents q' (mem k')"
    "\<exists>m. k' = k\<lparr>mem := m\<rparr>" "msgq_wait_q q' = msgq_wait_q q" "msg_size q' = msg_size q" "max_msgs q' = max_msgs q"
    "used_msgs q' = used_msgs q - 1" "outside q' = outside q"
proof -
  let ?m = "max_msgs q" and ?n = "msg_size q" and ?r = "read_slot q" and ?u = "used_msgs q"
  have rp: "read_ptr q = slot q ?r" "?r < ?m" "0 < ?n" using ok by (simp_all add: ring_ok_def)
  have sl: "slot q' = slot q" using rd by (auto simp: slot_def ring_read_def Let_def fun_eq_iff)
  have k': "k' = k\<lparr>mem := memcpy data (slot q ?r) ?n (mem k)\<rparr>" using rd rp by (auto simp: ring_read_def Let_def)
  have "read_ptr q' = slot q ((?r + 1) mod ?m)" using rd slot_next [OF ok rp(2)] rp by (auto simp: ring_read_def Let_def)
  then have rs: "read_slot q' = (?r + 1) mod ?m" "read_ptr q' = slot q ((?r + 1) mod ?m)"
    using read_slot_slot [of q'] sl rp(3) rd by (auto simp: ring_read_def Let_def)
  show f: "\<exists>m. k' = k\<lparr>mem := m\<rparr>" "msgq_wait_q q' = msgq_wait_q q" "msg_size q' = msg_size q" "max_msgs q' = max_msgs q"
    "used_msgs q' = used_msgs q - 1" "outside q' = outside q"
    using rd k' by (auto simp: ring_read_def Let_def outside_def fun_eq_iff)
  have ix: "(Suc ?r mod ?m + j) mod ?m = Suc (?r + j) mod ?m" for j by (metis add_Suc mod_add_left_eq)
  show "ring_ok q'" using ok some rd sl rs f(2-6) ix [of "?u - 1"] by (auto simp: ring_ok_def ring_read_def Let_def)
  have c: "contents q (mem k) = contents q (mem k')" using contents_memcpy [OF ok out] by (simp add: k')
  have "msg_at (mem k') (slot q ?r) ?n = msg_at (mem k) (slot q ?r) ?n"
    using slot_outside [OF ok rp(2) out] by (auto simp: k' intro!: msg_at_memcpy_other)
  then have "msg_at (mem k') (slot q ?r) ?n = msg_at (mem k') data ?n" by (simp add: k' msg_at_memcpy)
  moreover have "[0..<?u] = 0 # map Suc [0..<?u - 1]" using some by (simp add: map_Suc_upt upt_conv_Cons)
  ultimately show "contents q (mem k) = msg_at (mem k') data ?n # contents q' (mem k')"
    unfolding c using rp by (simp add: contents_def sl f(3-5) rs ix)
qed

section \<open>Put and get\<close>

definition msgq_ok :: "k_msgq \<Rightarrow> 'a kernel_scheme \<Rightarrow> bool" where
  "msgq_ok msgq k \<longleftrightarrow> ring_ok msgq \<and>
     (waitqs k (msgq_wait_q msgq) \<noteq> [] \<longrightarrow> used_msgs msgq = 0 \<or> used_msgs msgq = max_msgs msgq)"

lemma blocked_on_msgq:
  fixes data :: addr and q :: wq and timeout :: ticks and key :: bool
  assumes "kinv k" "runs k"
  defines "k' \<equiv> z_pend_curr key (Some q) timeout (upd_thread (current_thread k) (\<lambda>th. th\<lparr>swap_data := data\<rparr>) (k\<lparr>irq_unlocked := False\<rparr>))"
  shows "kinv k'" "mem k' = mem k" "current_thread k \<in> set (waitqs k' q)" "swap_data (threads k' (current_thread k)) = data"
    "swap_retval (threads k' (current_thread k)) = - EAGAIN"
proof -
  let ?u = "upd_thread (current_thread k) (\<lambda>th. th\<lparr>swap_data := data\<rparr>) (k\<lparr>irq_unlocked := False\<rparr>)"
  have "kinv ?u" "runs ?u" using assms(1,2) by (auto intro: swap_data_ok simp: runs_def)
  note p = pend_curr_waitqs [OF this, where q = q and timeout = timeout and key = key, folded k'_def]
  show "kinv k'" "mem k' = mem k" "current_thread k \<in> set (waitqs k' q)" "swap_data (threads k' (current_thread k)) = data"
    "swap_retval (threads k' (current_thread k)) = - EAGAIN"
    using p by (simp_all add: k'_def dumb_add_split)
qed

lemma put_waiter:
  assumes "kinv k" "awake k" and q: "waitqs k (msgq_wait_q msgq) = t # ts" and "used_msgs msgq < max_msgs msgq"
    and p: "k_msgq_put msgq data timeout k = (res, msgq', k')"
  shows "res = Ret 0" "msgq' = msgq" "kinv k'" "waitqs k' = (waitqs k)(msgq_wait_q msgq := ts)" "released t k k'"
    "swap_retval (threads k' t) = 0" "mem k' = memcpy (swap_data (threads k t)) data (msg_size msgq) (mem k)"
proof -
  obtain r k1 where u: "z_unpend_first_thread (msgq_wait_q msgq) (k\<lparr>irq_unlocked := False\<rparr>) = (r, k1)" by fastforce
  let ?m = "memcpy (swap_data (threads k1 t)) data (msg_size msgq) (mem k1)"
  note h = handed_over [where key = "irq_unlocked k" and v = 0 and m = ?m, OF assms(1,2) q u disjI1 [OF refl]]
  have "res = Ret 0 \<and> msgq' = msgq \<and> k' = z_reschedule (irq_unlocked k) (wake_with t 0 (k1\<lparr>mem := ?m\<rparr>))"
    using p u h(1) assms(4) by (auto simp add: k_msgq_put_def k_spin_lock_def)
  with h show "res = Ret 0" "msgq' = msgq" "kinv k'" "waitqs k' = (waitqs k)(msgq_wait_q msgq := ts)" "released t k k'"
    "swap_retval (threads k' t) = 0" "mem k' = memcpy (swap_data (threads k t)) data (msg_size msgq) (mem k)"
    by simp_all
qed

lemma put_room:
  assumes "waitqs k (msgq_wait_q msgq) = []" "used_msgs msgq < max_msgs msgq"
  shows "k_msgq_put msgq data timeout k = (let (msgq', k') = ring_write data msgq k in (Ret 0, msgq', k'))"
  using assms unpend_first_none [of "k\<lparr>irq_unlocked := False\<rparr>" "msgq_wait_q msgq"]
  by (simp add: k_msgq_put_def k_spin_lock_def k_spin_unlock_def ring_write_def Let_def)

lemma get_waiter:
  assumes i: "kinv k" "awake k" and q: "waitqs k (msgq_wait_q msgq) = t # ts" and "0 < used_msgs msgq"
    and rd: "ring_read data msgq k = (msgq1, k1)" and wr: "ring_write (swap_data (threads k t)) msgq1 k1 = (msgq2, k2)"
    and g: "k_msgq_get msgq data timeout k = (res, msgq', k')"
  shows "res = Ret 0" "msgq' = msgq2" "kinv k'" "waitqs k' = (waitqs k)(msgq_wait_q msgq := ts)" "released t k k'"
    "swap_retval (threads k' t) = 0" "mem k' = mem k2"
proof -
  let ?q = "msgq_wait_q msgq"
  have k1: "k1 = k\<lparr>mem := mem k1\<rparr>" using rd by (auto simp: ring_read_def Let_def)
  have m2: "mem k2 = memcpy (write_ptr msgq1) (swap_data (threads k t)) (msg_size msgq1) (mem k1)"
    using wr by (auto simp: ring_write_def Let_def)
  have i1: "kinv k1" "awake k1" "waitqs k1 ?q = t # ts" using i q by (subst k1, simp add: awake_def)+
  obtain r k3 where u: "z_unpend_first_thread ?q (k1\<lparr>irq_unlocked := False\<rparr>) = (r, k3)" by fastforce
  note h = handed_over [where key = "irq_unlocked k" and v = 0 and m = "mem k2", OF i1 u disjI1 [OF refl]]
  have th: "threads k1 = threads k" "waitqs k1 = waitqs k" by (subst k1, simp)+
  have rd': "ring_read data msgq (k\<lparr>irq_unlocked := False\<rparr>) = (msgq1, k1\<lparr>irq_unlocked := False\<rparr>)"
    using rd by (auto simp: ring_read_def Let_def)
  have "swap_data (threads k3 t) = swap_data (threads k t)" "mem k3 = mem k1" using h(9,10) th by simp_all
  then have "ring_write (swap_data (threads k3 t)) msgq1 k3 = (msgq2, k3\<lparr>mem := mem k2\<rparr>)"
    using wr m2 by (auto simp: ring_write_def Let_def)
  then have "res = Ret 0 \<and> msgq' = msgq2 \<and> k' = z_reschedule (irq_unlocked k) (wake_with t 0 (k3\<lparr>mem := mem k2\<rparr>))"
    using g u h(1) assms(4) by (auto simp add: k_msgq_get_def k_spin_lock_def rd')
  with h th show "res = Ret 0" "msgq' = msgq2" "kinv k'" "waitqs k' = (waitqs k)(msgq_wait_q msgq := ts)" "released t k k'"
    "swap_retval (threads k' t) = 0" "mem k' = mem k2"
    by (simp_all add: released_def)
qed

lemma get_some:
  assumes "waitqs k (msgq_wait_q msgq) = []" "0 < used_msgs msgq"
  shows "k_msgq_get msgq data timeout k = (let (msgq', k') = ring_read data msgq k in (Ret 0, msgq', k'))"
  using assms unpend_first_none [where q = "msgq_wait_q msgq" and k = "k\<lparr>irq_unlocked := False, mem := m\<rparr>" for m]
  by (simp add: k_msgq_get_def k_spin_lock_def k_spin_unlock_def ring_read_def Let_def)

section \<open>Properties\<close>

text \<open>
  C17. A message queue is a bounded first-in first-out channel. A put appends the
  message when there is room and nobody waits; with a reader waiting it copies
  the message to the first reader and wakes it. On a full queue it fails at
  once or blocks, with the message area remembered.
\<close>

theorem msgq_put_fifo:
  assumes "kinv k" "awake k" "timeout \<noteq> K_NO_WAIT \<longrightarrow> runs k" "msgq_ok msgq k"
    "k_msgq_put msgq data timeout k = (res, msgq', k')"
  defines "q \<equiv> msgq_wait_q msgq" and "msg \<equiv> msg_at (mem k) data (msg_size msgq)"
  shows "kinv k' \<and> msgq_ok msgq' k' \<and>
     (if used_msgs msgq < max_msgs msgq
      then res = Ret 0 \<and>
        (case waitqs k q of
           [] \<Rightarrow> contents msgq' (mem k') = contents msgq (mem k) @ [msg] \<and> waitqs k' = waitqs k
         | t # ts \<Rightarrow> contents msgq' (mem k') = contents msgq (mem k) \<and> waitqs k' = (waitqs k)(q := ts) \<and>
             msg_at (mem k') (swap_data (threads k t)) (msg_size msgq) = msg \<and> k_msgq_resume t k' = 0 \<and> released t k k')
      else contents msgq' (mem k') = contents msgq (mem k) \<and>
        (if timeout = K_NO_WAIT then res = Ret (- ENOMSG) \<and> k' = k
         else res = Pend \<and> current_thread k \<in> set (waitqs k' q) \<and> swap_data (threads k' (current_thread k)) = data))"
proof (cases "used_msgs msgq < max_msgs msgq")
  case True
  show ?thesis
  proof (cases "waitqs k q")
    case Nil
    obtain m1 k1 where w: "ring_write data msgq k = (m1, k1)" by fastforce
    note c = ring_write_contents [OF _ True w]
    have e: "res = Ret 0" "msgq' = m1" "k' = k1" using put_room [OF Nil [unfolded q_def] True, of data timeout] w assms(5) by auto
    have ok: "ring_ok msgq" using assms(4) by (simp add: msgq_ok_def)
    obtain m where "k1 = k\<lparr>mem := m\<rparr>" using c(3) [OF ok] by blast
    then show ?thesis using e c(1,2,4) [OF ok] Nil True assms(1) by (simp add: msgq_ok_def msg_def q_def)
  next
    case (Cons t ts)
    note p = put_waiter [OF assms(1,2) Cons [unfolded q_def] True assms(5)]
    have "used_msgs msgq = 0" using assms(4) Cons True by (auto simp: msgq_ok_def q_def)
    then show ?thesis using p assms(4) Cons True
      by (simp add: msgq_ok_def contents_def q_def msg_def msg_at_memcpy k_msgq_resume_def)
  qed
next
  case False
  have ok: "ring_ok msgq" and full: "used_msgs msgq = max_msgs msgq" using assms(4) False by (auto simp: msgq_ok_def ring_ok_def)
  show ?thesis
  proof (cases "timeout = K_NO_WAIT")
    case True
    then show ?thesis using assms(1,4,5) False by (auto simp: k_msgq_put_def k_spin_lock_def k_spin_unlock_def)
  next
    case block: False
    note b = blocked_on_msgq [OF assms(1), where q = q and timeout = timeout and key = "irq_unlocked k" and data = data]
    show ?thesis using b block assms(3,5) False ok full by (auto simp: k_msgq_put_def k_spin_lock_def msgq_ok_def q_def)
  qed
qed

text \<open>
  C18. A get takes the oldest message. With a writer waiting, the writer's message goes
  to the end of the queue and the writer goes on, so the order of the writers
  is kept. On an empty queue it fails at once or blocks.
\<close>

theorem msgq_get_fifo:
  assumes "kinv k" "awake k" "timeout \<noteq> K_NO_WAIT \<longrightarrow> runs k" "msgq_ok msgq k" "outside msgq data"
    "k_msgq_get msgq data timeout k = (res, msgq', k')"
    "\<forall>t \<in> set (waitqs k (msgq_wait_q msgq)).
       swap_data (threads k t) + msg_size msgq \<le> data \<or> data + msg_size msgq \<le> swap_data (threads k t)"
  defines "q \<equiv> msgq_wait_q msgq"
  shows "kinv k' \<and> msgq_ok msgq' k' \<and>
     (case contents msgq (mem k) of
        msg # msgs \<Rightarrow> res = Ret 0 \<and> msg_at (mem k') data (msg_size msgq) = msg \<and>
          (case waitqs k q of
             [] \<Rightarrow> contents msgq' (mem k') = msgs \<and> waitqs k' = waitqs k
           | t # ts \<Rightarrow> contents msgq' (mem k') = msgs @ [msg_at (mem k) (swap_data (threads k t)) (msg_size msgq)] \<and>
               waitqs k' = (waitqs k)(q := ts) \<and> k_msgq_resume t k' = 0 \<and> released t k k')
      | [] \<Rightarrow> contents msgq' (mem k') = [] \<and>
          (if timeout = K_NO_WAIT then res = Ret (- ENOMSG) \<and> k' = k
           else res = Pend \<and> current_thread k \<in> set (waitqs k' q) \<and> swap_data (threads k' (current_thread k)) = data))"
proof (cases "0 < used_msgs msgq")
  case True
  have ok: "ring_ok msgq" using assms(4) by (simp add: msgq_ok_def)
  obtain m1 k1 where rd: "ring_read data msgq k = (m1, k1)" by fastforce
  note c = ring_read_contents [OF ok True assms(5) rd]
  obtain m where k1: "k1 = k\<lparr>mem := m\<rparr>" using c(3) by blast
  show ?thesis
  proof (cases "waitqs k q")
    case Nil
    have "res = Ret 0" "msgq' = m1" "k' = k1" using get_some [OF Nil [unfolded q_def] True, of data timeout] rd assms(6) by auto
    then show ?thesis using c(1,2,4) k1 Nil True assms(1) by (simp add: msgq_ok_def q_def)
  next
    case (Cons t ts)
    let ?d = "swap_data (threads k t)"
    obtain m2 k2 where wr: "ring_write ?d m1 k1 = (m2, k2)" by fastforce
    have "used_msgs m1 < max_msgs m1" using c(6,7) True ok by (auto simp: ring_ok_def)
    note w = ring_write_contents [OF c(1) this wr]
    note g = get_waiter [OF assms(1,2) Cons [unfolded q_def] True rd wr assms(6)]
    have "msg_at (mem k1) ?d (msg_size msgq) = msg_at (mem k) ?d (msg_size msgq)"
      using rd assms(7) Cons by (auto simp: q_def ring_read_def Let_def intro!: msg_at_memcpy_other)
    moreover have "used_msgs m2 = max_msgs m2" using w(6,7) c(6,7) assms(4) Cons True by (auto simp: msgq_ok_def q_def)
    moreover have "msg_at (mem k2) data (msg_size msgq) = msg_at (mem k1) data (msg_size msgq)"
      using w(9) [of data] c(5,8) assms(5) by simp
    ultimately show ?thesis using g c(2,4,5) w(1,2,4) Cons by (simp add: msgq_ok_def q_def k_msgq_resume_def)
  qed
next
  case False
  then have z: "used_msgs msgq = 0" and ok: "ring_ok msgq" using assms(4) by (simp_all add: msgq_ok_def)
  show ?thesis
  proof (cases "timeout = K_NO_WAIT")
    case True
    then show ?thesis using assms(1,4,6) z by (auto simp: k_msgq_get_def k_spin_lock_def k_spin_unlock_def contents_def)
  next
    case block: False
    note b = blocked_on_msgq [OF assms(1), where q = q and timeout = timeout and key = "irq_unlocked k" and data = data]
    show ?thesis using b block assms(3,6) z ok by (auto simp: k_msgq_get_def k_spin_lock_def msgq_ok_def q_def contents_def)
  qed
qed

text \<open>
  \<open>k_msgq_peek_at\<close> copies the message at the given position of the queue, also when
  the ring buffer has wrapped before it, and takes nothing. With no message
  at that position it fails and changes nothing. The 32-bit offsets do not
  overflow for a buffer of less than 4 GiB.
\<close>

theorem msgq_peek_at_nth:
  assumes "ring_ok msgq" "max_msgs msgq * msg_size msgq < 2 ^ 32" "outside msgq data" "k_msgq_peek_at msgq data idx k = (r, k')"
  shows "(if idx < used_msgs msgq
          then r = 0 \<and> msg_at (mem k') data (msg_size msgq) = contents msgq (mem k) ! idx
          else r = - ENOMSG \<and> k' = k) \<and> contents msgq (mem k') = contents msgq (mem k)"
proof (cases "idx < used_msgs msgq")
  case True
  let ?m = "max_msgs msgq" and ?n = "msg_size msgq" and ?r = "read_slot msgq"
  let ?b = "buffer_end msgq - read_ptr msgq" and ?o = "idx * ?n"
  have lt: "idx < ?m" "?r < ?m" "0 < ?n" using assms(1) True by (simp_all add: ring_ok_def)
  have b: "?b = (?m - ?r) * ?n" using assms(1) by (simp add: ring_ok_def slot_def diff_mult_distrib)
  have small: "?b < 2 ^ 32" "?o < 2 ^ 32"
    using assms(2) lt b mult_le_mono1 [of "?m - ?r" ?m ?n] mult_le_mono1 [of idx ?m ?n] by linarith+
  define a where "a = (if ?b \<le> ?o then buffer_start msgq + (?o - ?b) else read_ptr msgq + ?o)"
  have a: "a = slot msgq ((?r + idx) mod ?m)"
  proof (cases "?m - ?r \<le> idx")
    case wrap: True
    then have "?o - ?b = (idx - (?m - ?r)) * ?n" "?b \<le> ?o" unfolding b by (simp add: diff_mult_distrib, rule mult_le_mono1)
    moreover have "(?r + idx) mod ?m = idx - (?m - ?r)" using wrap lt by (auto simp: mod_if)
    ultimately show ?thesis by (simp add: a_def slot_def)
  next
    case False
    then have "\<not> ?b \<le> ?o" unfolding b using lt(3) by simp
    moreover have "?r + idx < ?m" using False by simp
    ultimately show ?thesis using assms(1) by (simp add: a_def ring_ok_def slot_def add_mult_distrib)
  qed
  have "r = 0" "k' = k\<lparr>mem := memcpy data a ?n (mem k)\<rparr>"
    using assms(4) True small by (auto simp: k_msgq_peek_at_def Let_def a_def)
  then show ?thesis using True a contents_memcpy [OF assms(1,3)] by (simp add: msg_at_memcpy contents_def)
qed (use assms(4) in \<open>auto simp: k_msgq_peek_at_def\<close>)

text \<open>
  C40. Purging a message queue empties it and ends the wait of every thread that waits
  on it with \<open>-ENOMSG\<close>, whether it waits to send or to receive.
\<close>

theorem msgq_purge_releases:
  assumes "kinv k" "awake k" "ring_ok msgq" "k_msgq_purge msgq k = (msgq', k')"
  shows "kinv k' \<and> msgq_ok msgq' k' \<and> contents msgq' (mem k') = [] \<and> waitqs k' (msgq_wait_q msgq) = [] \<and>
     (\<forall>t \<in> set (waitqs k (msgq_wait_q msgq)). k_msgq_resume t k' = - ENOMSG \<and>
        pended_on (threads k' t) = None \<and> \<not> to_linked (ThreadTO t) k')"
proof -
  let ?q = "msgq_wait_q msgq"
  have s: "msgq' = msgq\<lparr>used_msgs := 0, read_ptr := write_ptr msgq\<rparr>" "k' = z_reschedule (irq_unlocked k)
      (snd (unpend_each (length (waitqs k ?q)) ?q (- ENOMSG) (k\<lparr>irq_unlocked := False\<rparr>)))"
    using assms(4) by (simp_all add: k_msgq_purge_def k_spin_lock_def)
  note r = all_released [OF assms(1,2), where q = ?q and v = "- ENOMSG" and key = "irq_unlocked k", folded s(2)]
  let ?w = "(read_slot msgq + used_msgs msgq) mod max_msgs msgq"
  have sl: "slot msgq' = slot msgq" by (simp add: s(1) slot_def fun_eq_iff)
  have "read_slot msgq' = ?w" using assms(3) read_slot_slot [of msgq' ?w] sl by (simp add: s(1) ring_ok_def)
  then have "ring_ok msgq'" using assms(3) sl by (simp add: ring_ok_def s(1))
  then show ?thesis using r by (simp add: msgq_ok_def let_go_def k_msgq_resume_def s(1) contents_def)
qed

text \<open>
  Concrete queues: two slots of two bytes, of which the second holds the first message;
  full for the main thread of \<open>busy\<close>, and empty for the readers of \<open>two_waiting\<close>.
\<close>

definition msgq2 :: k_msgq where
  "msgq2 = \<lparr>msgq_wait_q = WQ 0, msg_size = 2, max_msgs = 2, buffer_start = 100, buffer_end = 104,
     read_ptr = 102, write_ptr = 102, used_msgs = 0, msgq_flags = 0\<rparr>"

definition bytes2 :: "addr \<Rightarrow> u8" where
  "bytes2 a = word_of_nat a"

lemma msgq2_ok: "ring_ok msgq2" "ring_ok (msgq2\<lparr>used_msgs := 2\<rparr>)"
  by (simp_all add: ring_ok_def slot_def msgq2_def read_slot_def)

theorem msgq_put_fifo_witness:
  "let (res, q', k') = k_msgq_put msgq2 50 K_NO_WAIT two_waiting
   in res = Ret 0 \<and> kinv k' \<and> waitqs k' (WQ 0) = [5] \<and> k_msgq_resume 3 k' = 0"
proof -
  obtain res q' k' where p: "k_msgq_put msgq2 50 K_NO_WAIT two_waiting = (res, q', k')" by (rule prod_cases3)
  have "msgq_ok msgq2 two_waiting" using msgq2_ok(1) by (simp add: msgq_ok_def msgq2_def)
  from msgq_put_fifo [OF two_waiting_kinv two_waiting_facts(1) _ this p] two_waiting_facts(2)
  show ?thesis unfolding p by (simp add: msgq2_def)
qed

theorem msgq_get_fifo_witness:
  "let (res, q', k') = k_msgq_get (msgq2\<lparr>used_msgs := 2\<rparr>) 50 K_NO_WAIT (busy\<lparr>mem := bytes2\<rparr>)
   in res = Ret 0 \<and> kinv k' \<and> msg_at (mem k') 50 2 = [102, 103] \<and> contents q' (mem k') = [[100, 101]]"
proof -
  let ?q = "msgq2\<lparr>used_msgs := 2\<rparr>" and ?k = "busy\<lparr>mem := bytes2\<rparr>"
  obtain res q' k' where p: "k_msgq_get ?q 50 K_NO_WAIT ?k = (res, q', k')" by (rule prod_cases3)
  have i: "kinv ?k" "awake ?k" "msgq_ok ?q ?k" "outside ?q 50"
    using busy_kinv busy_facts msgq2_ok(2) by (simp_all add: msgq_ok_def msgq2_def outside_def awake_def)
  have c: "contents ?q (mem ?k) = [[102, 103], [100, 101]]"
    by (simp add: contents_def msgq2_def read_slot_def slot_def msg_at_def bytes2_def upt_rec)
  show ?thesis using msgq_get_fifo [OF i(1,2) _ i(3,4) p] c busy_facts(3) unfolding p by (simp add: msgq2_def)
qed

theorem msgq_peek_at_nth_witness:
  "let (r, k') = k_msgq_peek_at (msgq2\<lparr>used_msgs := 2\<rparr>) 50 1 (busy\<lparr>mem := bytes2\<rparr>) in r = 0 \<and> msg_at (mem k') 50 2 = [100, 101]"
proof -
  let ?q = "msgq2\<lparr>used_msgs := 2\<rparr>" and ?k = "busy\<lparr>mem := bytes2\<rparr>"
  obtain r k' where p: "k_msgq_peek_at ?q 50 1 ?k = (r, k')" by fastforce
  have "contents ?q (mem ?k) ! 1 = [100, 101]"
    by (simp add: contents_def msgq2_def read_slot_def slot_def msg_at_def bytes2_def upt_rec)
  moreover have "outside ?q 50" by (simp add: outside_def msgq2_def)
  ultimately show ?thesis using msgq_peek_at_nth [OF msgq2_ok(2) _ _ p] unfolding p by (simp add: msgq2_def)
qed

theorem msgq_purge_releases_witness:
  "let (q', k') = k_msgq_purge msgq2 two_waiting in kinv k' \<and> waitqs k' (WQ 0) = [] \<and> k_msgq_resume 3 k' = - ENOMSG"
proof -
  obtain q' k' where p: "k_msgq_purge msgq2 two_waiting = (q', k')" by fastforce
  show ?thesis using msgq_purge_releases [OF two_waiting_kinv two_waiting_facts(1) msgq2_ok(1) p] two_waiting_facts(2)
    unfolding p by (simp add: msgq2_def)
qed

end
