(* ===== verification/Stack.thy ===== *)
theory Stack
  imports Waitq
begin

text \<open>
  Stacks of words (LIFO), from \<^verbatim>\<open>kernel/stack.c\<close>. Addresses are byte addresses of a 32-bit
  target, on which \<open>stack_data_t\<close> has four bytes; \<open>cells\<close> is the memory of words. \<open>malloc\<close> stands for
  \<open>z_thread_malloc\<close> and returns 0 for \<open>NULL\<close>.
\<close>

section \<open>Operations\<close>

record k_stack =
  stack_wait_q :: wq
  stack_base :: addr
  stack_next :: addr
  stack_top :: addr
  stack_flags :: u8

definition K_STACK_FLAG_ALLOC :: u8 where "K_STACK_FLAG_ALLOC = 1"

definition stack_data_size :: nat where "stack_data_size = 4"

definition k_stack_init :: "k_stack \<Rightarrow> addr \<Rightarrow> nat \<Rightarrow> 'a kernel_scheme \<Rightarrow> k_stack \<times> 'a kernel_scheme" where
  "k_stack_init stack buffer num_entries k =
     (stack\<lparr>stack_base := buffer, stack_next := buffer, stack_top := buffer + num_entries * stack_data_size\<rparr>,
      k\<lparr>waitqs := (waitqs k)(stack_wait_q stack := [])\<rparr>)"

definition k_stack_alloc_init ::
    "(nat \<Rightarrow> addr) \<Rightarrow> k_stack \<Rightarrow> nat \<Rightarrow> 'a kernel_scheme \<Rightarrow> int \<times> k_stack \<times> 'a kernel_scheme" where
  "k_stack_alloc_init malloc stack num_entries k =
     (let buffer = malloc (num_entries * stack_data_size mod 2 ^ 32) in
      if buffer \<noteq> 0
      then let (stack1, k1) = k_stack_init stack buffer num_entries k in (0, stack1\<lparr>stack_flags := K_STACK_FLAG_ALLOC\<rparr>, k1)
      else (- ENOMEM, stack, k))"

text \<open>The second result says whether \<open>k_free\<close> is called on the old base.\<close>

definition k_stack_cleanup :: "k_stack \<Rightarrow> 'a kernel_scheme \<Rightarrow> int \<times> bool \<times> k_stack" where
  "k_stack_cleanup stack k =
     (if z_waitq_head (stack_wait_q stack) k \<noteq> None then (- EAGAIN, False, stack)
      else if stack_flags stack AND K_STACK_FLAG_ALLOC \<noteq> 0
      then (0, True, stack\<lparr>stack_base := 0, stack_flags := stack_flags stack AND NOT K_STACK_FLAG_ALLOC\<rparr>)
      else (0, False, stack))"

definition k_stack_push :: "k_stack \<Rightarrow> addr \<Rightarrow> 'a kernel_scheme \<Rightarrow> int \<times> k_stack \<times> 'a kernel_scheme" where
  "k_stack_push stack data k =
     (let (key, k1) = k_spin_lock k in
      if stack_next stack = stack_top stack then (- ENOMEM, stack, k_spin_unlock key k1)
      else
        case z_unpend_first_thread (stack_wait_q stack) k1 of
          (Some first_pending_thread, k2) \<Rightarrow>
            (0, stack, z_reschedule key (wake_with_data first_pending_thread 0 data k2))
        | (None, k2) \<Rightarrow>
            (0, stack\<lparr>stack_next := stack_next stack + stack_data_size\<rparr>,
             k_spin_unlock key (k2\<lparr>cells := (cells k2)(stack_next stack := data)\<rparr>)))"

definition k_stack_pop :: "k_stack \<Rightarrow> addr \<Rightarrow> ticks \<Rightarrow> 'a kernel_scheme \<Rightarrow> int outcome \<times> k_stack \<times> 'a kernel_scheme" where
  "k_stack_pop stack data timeout k =
     (let (key, k1) = k_spin_lock k in
      if stack_next stack > stack_base stack
      then let next = stack_next stack - stack_data_size
           in (Ret 0, stack\<lparr>stack_next := next\<rparr>, k_spin_unlock key (k1\<lparr>cells := (cells k1)(data := cells k1 next)\<rparr>))
      else if timeout = K_NO_WAIT then (Ret (- EBUSY), stack, k_spin_unlock key k1)
      else (Pend, stack, z_pend_curr key (Some (stack_wait_q stack)) timeout k1))"

definition k_stack_pop_resume :: "tid \<Rightarrow> addr \<Rightarrow> 'a kernel_scheme \<Rightarrow> int \<times> 'a kernel_scheme" where
  "k_stack_pop_resume self data k =
     (let result = swap_retval (threads k self) in
      if result = - EAGAIN then (- EAGAIN, k)
      else (0, k\<lparr>cells := (cells k)(data := swap_data (threads k self))\<rparr>))"

section \<open>The stack as a list\<close>

definition depth :: "k_stack \<Rightarrow> nat" where
  "depth stack = (stack_next stack - stack_base stack) div stack_data_size"

text \<open>The words of the stack, the newest last.\<close>

definition words :: "k_stack \<Rightarrow> (addr \<Rightarrow> addr) \<Rightarrow> addr list" where
  "words stack c = map (\<lambda>i. c (stack_base stack + i * stack_data_size)) [0..<depth stack]"

definition stack_ok :: "k_stack \<Rightarrow> 'a kernel_scheme \<Rightarrow> bool" where
  "stack_ok stack k \<longleftrightarrow>
     stack_next stack = stack_base stack + depth stack * stack_data_size \<and> stack_next stack \<le> stack_top stack \<and>
     (stack_top stack - stack_base stack) mod stack_data_size = 0 \<and>
     (waitqs k (stack_wait_q stack) \<noteq> [] \<longrightarrow> stack_next stack = stack_base stack)"

lemma depth_next: "stack_next stack = stack_base stack + d * stack_data_size \<Longrightarrow> depth stack = d"
  by (simp add: depth_def stack_data_size_def)

lemma words_push:
  assumes "stack_next stack = stack_base stack + depth stack * stack_data_size"
  defines "stack' \<equiv> stack\<lparr>stack_next := stack_next stack + stack_data_size\<rparr>"
  shows "words stack' (c(stack_next stack := x)) = words stack c @ [x]" "depth stack' = depth stack + 1"
proof -
  show d: "depth stack' = depth stack + 1"
    using assms(1) by (intro depth_next) (simp add: stack'_def)
  show "words stack' (c(stack_next stack := x)) = words stack c @ [x]"
    using assms(1) d by (simp add: words_def stack'_def stack_data_size_def)
qed

lemma words_pop:
  assumes "stack_next stack = stack_base stack + depth stack * stack_data_size" "stack_base stack < stack_next stack"
  defines "stack' \<equiv> stack\<lparr>stack_next := stack_next stack - stack_data_size\<rparr>"
  shows "words stack c = words stack' c @ [c (stack_next stack - stack_data_size)]" "depth stack = depth stack' + 1"
    "stack_next stack' = stack_base stack' + depth stack' * stack_data_size"
proof -
  obtain n where n: "depth stack = Suc n" using assms(1,2) by (cases "depth stack") simp_all
  then have d: "depth stack' = n" using assms(1) by (intro depth_next) (simp add: stack'_def)
  then show "words stack c = words stack' c @ [c (stack_next stack - stack_data_size)]" "depth stack = depth stack' + 1"
    "stack_next stack' = stack_base stack' + depth stack' * stack_data_size"
    using assms(1) n by (simp_all add: words_def stack'_def)
qed

lemma words_other:
  assumes "stack_next stack = stack_base stack + depth stack * stack_data_size" "a < stack_base stack \<or> stack_next stack \<le> a"
  shows "words stack (c(a := x)) = words stack c"
  using assms by (auto simp: words_def stack_data_size_def)

text \<open>Popping on every branch.\<close>

lemma pop_cases:
  assumes "kinv k" "stack_ok stack k" "timeout \<noteq> K_NO_WAIT \<longrightarrow> runs k" "k_stack_pop stack d timeout k = (res, stack', k')"
    "d < stack_base stack \<or> stack_top stack \<le> d"
  shows "kinv k'" "stack_ok stack' k'"
    "words stack (cells k) \<noteq> [] \<Longrightarrow> res = Ret 0 \<and> cells k' d = last (words stack (cells k)) \<and>
       words stack' (cells k') = butlast (words stack (cells k))"
    "words stack (cells k) = [] \<Longrightarrow> stack' = stack \<and> (if timeout = K_NO_WAIT then res = Ret (- EBUSY) \<and> k' = k
       else res = Pend \<and> current_thread k \<in> set (waitqs k' (stack_wait_q stack)))"
proof -
  have nx: "stack_next stack = stack_base stack + depth stack * stack_data_size" "stack_next stack \<le> stack_top stack"
    using assms(2) by (simp_all add: stack_ok_def)
  have em: "words stack (cells k) = [] \<longleftrightarrow> \<not> stack_base stack < stack_next stack"
    using nx(1) by (simp add: words_def stack_data_size_def)
  have "kinv k' \<and> stack_ok stack' k' \<and> res = Ret 0 \<and> cells k' d = last (words stack (cells k)) \<and>
      words stack' (cells k') = butlast (words stack (cells k))" if ne: "stack_base stack < stack_next stack"
  proof -
    let ?s = "stack\<lparr>stack_next := stack_next stack - stack_data_size\<rparr>"
    have e: "res = Ret 0" "stack' = ?s"
      "k' = k\<lparr>cells := (cells k)(d := cells k (stack_next stack - stack_data_size))\<rparr>"
      using assms(4) ne by (auto simp: k_stack_pop_def k_spin_lock_def k_spin_unlock_def Let_def)
    note w = words_pop [OF nx(1) ne]
    have "words ?s ((cells k)(d := v)) = words ?s (cells k)" for v
        using assms(5) w(2) nx by (intro words_other [OF w(3)]) auto
    moreover have "waitqs k (stack_wait_q stack) = []" using assms(2) ne by (auto simp: stack_ok_def)
    ultimately show ?thesis using e w assms(1,2) by (simp add: stack_ok_def)
  qed
  moreover have "kinv k' \<and> stack_ok stack' k' \<and> stack' = stack \<and> (if timeout = K_NO_WAIT then res = Ret (- EBUSY) \<and> k' = k
      else res = Pend \<and> current_thread k \<in> set (waitqs k' (stack_wait_q stack)))" if ne: "\<not> stack_base stack < stack_next stack"
  proof (cases "timeout = K_NO_WAIT")
    case True
    then show ?thesis using assms(1,2,4) ne by (auto simp: k_stack_pop_def k_spin_lock_def k_spin_unlock_def)
  next
    case False
    have i: "kinv (k\<lparr>irq_unlocked := False\<rparr>)" "runs (k\<lparr>irq_unlocked := False\<rparr>)"
      using assms(1,3) False by (simp_all add: runs_def)
    note p = pend_curr_waitqs [OF i, where q = "stack_wait_q stack" and timeout = timeout and key = "irq_unlocked k"]
    then show ?thesis using assms(2,4) ne False nx by (auto simp: k_stack_pop_def k_spin_lock_def stack_ok_def dumb_add_split)
  qed
  ultimately show "kinv k'" "stack_ok stack' k'"
    "words stack (cells k) \<noteq> [] \<Longrightarrow> res = Ret 0 \<and> cells k' d = last (words stack (cells k)) \<and>
       words stack' (cells k') = butlast (words stack (cells k))"
    "words stack (cells k) = [] \<Longrightarrow> stack' = stack \<and> (if timeout = K_NO_WAIT then res = Ret (- EBUSY) \<and> k' = k
       else res = Pend \<and> current_thread k \<in> set (waitqs k' (stack_wait_q stack)))"
    using em by metis+
qed

section \<open>Properties\<close>

text \<open>
  C22. A kernel stack is a bounded stack. A push adds the word on top, or hands it to the
  first waiting thread, or fails on a full stack. A pop takes the newest word,
  or fails or blocks on an empty stack. So a pop after a push gives the word
  pushed and the stack as it was.
\<close>

theorem stack_lifo:
  assumes "kinv k" "awake k" "stack_ok stack k" "k_stack_push stack x k = (r, stack', k')"
    "d < stack_base stack \<or> stack_top stack \<le> d"
  shows "kinv k' \<and> stack_ok stack' k' \<and>
     (if stack_next stack = stack_top stack then r = - ENOMEM \<and> stack' = stack \<and> k' = k
      else r = 0 \<and>
        (case waitqs k (stack_wait_q stack) of
           [] \<Rightarrow> words stack' (cells k') = words stack (cells k) @ [x] \<and>
             (\<forall>timeout. \<exists>k''. k_stack_pop stack' d timeout k' = (Ret 0, stack, k'') \<and>
                cells k'' d = x \<and> words stack (cells k'') = words stack (cells k))
         | t # ts \<Rightarrow> words stack' (cells k') = [] \<and> waitqs k' = (waitqs k)(stack_wait_q stack := ts) \<and> released t k k' \<and>
             (\<exists>k''. k_stack_pop_resume t d k' = (0, k'') \<and> cells k'' d = x)))"
proof -
  let ?q = "stack_wait_q stack"
  have nx: "stack_next stack = stack_base stack + depth stack * stack_data_size" "stack_next stack \<le> stack_top stack"
    using assms(3) by (simp_all add: stack_ok_def)
  consider (full) "stack_next stack = stack_top stack" | (room) "stack_next stack \<noteq> stack_top stack" "waitqs k ?q = []"
    | (waiter) t ts where "stack_next stack \<noteq> stack_top stack" "waitqs k ?q = t # ts"
    by (cases "waitqs k ?q") auto
  then show ?thesis
  proof cases
    case full
    then show ?thesis using assms(1,3,4) by (auto simp: k_stack_push_def k_spin_lock_def k_spin_unlock_def)
  next
    case room
    have e: "r = 0" "stack' = stack\<lparr>stack_next := stack_next stack + stack_data_size\<rparr>" "k' = k\<lparr>cells := (cells k)(stack_next stack := x)\<rparr>"
      using assms(4) room unpend_first_none [of "k\<lparr>irq_unlocked := False\<rparr>" ?q]
      by (auto simp: k_stack_push_def k_spin_lock_def k_spin_unlock_def)
    note w = words_push(1) [OF nx(1), of "cells k" x] words_push(2) [OF nx(1)]
    have le: "stack_next stack + stack_data_size \<le> stack_top stack"
    proof -
      obtain c where "stack_top stack - stack_base stack = 4 * c"
        using assms(3) by (auto simp: stack_ok_def stack_data_size_def mod_eq_0_iff_dvd dvd_def)
      then show ?thesis using nx room(1) by (simp add: stack_data_size_def) presburger
    qed
    have ok: "stack_ok stack' k'" using assms(3) le w(2) nx(1) room(2) by (simp add: stack_ok_def e)
    have bn: "stack_base stack \<le> stack_next stack" using nx(1) by simp
    have pop: "k_stack_pop stack' d timeout k' = (Ret 0, stack, k'\<lparr>cells := (cells k')(d := x)\<rparr>)" for timeout
      using bn by (simp add: k_stack_pop_def e k_spin_lock_def k_spin_unlock_def stack_data_size_def Let_def)
    have "words stack (cells (k'\<lparr>cells := (cells k')(d := x)\<rparr>)) = words stack (cells k)"
      using words_other [OF nx(1)] assms(5) nx(2) by (auto simp: e)
    then show ?thesis using e w(1) ok pop room assms(1) by simp
  next
    case (waiter t ts)
    obtain u k1 where u: "z_unpend_first_thread ?q (k\<lparr>irq_unlocked := False\<rparr>) = (u, k1)" by fastforce
    note h = handed_over_plain [where key = "irq_unlocked k" and v = 0 and d = x, OF assms(1,2) waiter(2) u disjI2 [OF refl]]
    have "r = 0 \<and> stack' = stack \<and> k' = z_reschedule (irq_unlocked k) (wake_with_data t 0 x k1)"
      using assms(4) u h(1) waiter(1) by (auto simp: k_stack_push_def k_spin_lock_def)
    moreover have "words stack c = []" for c using assms(3) waiter by (simp add: stack_ok_def words_def depth_def)
    ultimately show ?thesis using h(2-5) waiter assms(3)
      by (auto simp: stack_ok_def k_stack_pop_resume_def errno_defs)
  qed
qed


text \<open>Concrete stacks: one with a free entry for \<open>busy\<close>, and one with the two threads of \<open>two_waiting\<close>.\<close>

definition stack2 :: k_stack where
  "stack2 = \<lparr>stack_wait_q = WQ 0, stack_base = 400, stack_next = 404, stack_top = 408, stack_flags = 0\<rparr>"

theorem stack_lifo_witness:
  "let (r, stack', k') = k_stack_push stack2 9 busy
   in r = 0 \<and> words stack' (cells k') = words stack2 (cells busy) @ [9] \<and>
      (\<exists>k''. k_stack_pop stack' 100 K_NO_WAIT k' = (Ret 0, stack2, k'') \<and> cells k'' 100 = 9)"
proof -
  obtain r s' k' where p: "k_stack_push stack2 9 busy = (r, s', k')" by (rule prod_cases3)
  have "stack_ok stack2 busy" using busy_facts(3) by (simp add: stack_ok_def stack2_def depth_def stack_data_size_def)
  from stack_lifo [OF busy_kinv busy_facts(2) this p, of 100] busy_facts(3)
  show ?thesis unfolding p by (auto simp: stack2_def)
qed


end
