(* ===== verification/Mem_Slab.thy ===== *)
theory Mem_Slab
  imports Waitq
begin

text \<open>
  Memory slabs, from \<^verbatim>\<open>kernel/mem_slab.c\<close>: blocks of one size whose free ones are linked through
  their first word. Addresses are byte addresses of a 32-bit target; \<open>cells\<close> is the
  memory of words. The highest use is traced (\<open>CONFIG_MEM_SLAB_TRACE_MAX_UTILIZATION\<close>). The list of free
  blocks is only followed inside the slab, and \<open>NULL\<close> is 0.
\<close>

section \<open>Operations\<close>

record k_mem_slab =
  slab_wait_q :: wq
  num_blocks :: nat
  block_size :: nat
  buffer :: addr
  free_list :: addr
  num_used :: nat
  max_used :: nat

fun free_list_loop :: "nat \<Rightarrow> addr \<Rightarrow> nat \<Rightarrow> addr \<Rightarrow> (addr \<Rightarrow> addr) \<Rightarrow> addr \<times> (addr \<Rightarrow> addr)" where
  "free_list_loop 0 p bsize fl c = (fl, c)"
| "free_list_loop (Suc j) p bsize fl c = free_list_loop j (p + bsize) bsize p (c(p := fl))"

definition create_free_list :: "k_mem_slab \<Rightarrow> 'a kernel_scheme \<Rightarrow> int \<times> k_mem_slab \<times> 'a kernel_scheme" where
  "create_free_list slab k =
     (if (block_size slab OR buffer slab) AND (4 - 1) \<noteq> 0 then (- EINVAL, slab, k)
      else let (fl, c) = free_list_loop (num_blocks slab) (buffer slab) (block_size slab) 0 (cells k)
           in (0, slab\<lparr>free_list := fl\<rparr>, k\<lparr>cells := c\<rparr>))"

definition k_mem_slab_init ::
    "k_mem_slab \<Rightarrow> addr \<Rightarrow> nat \<Rightarrow> nat \<Rightarrow> 'a kernel_scheme \<Rightarrow> int \<times> k_mem_slab \<times> 'a kernel_scheme" where
  "k_mem_slab_init slab buf bsize blocks k =
     (let slab1 = slab\<lparr>num_blocks := blocks, block_size := bsize, buffer := buf, num_used := 0, max_used := 0\<rparr>;
          (rc, slab2, k2) = create_free_list slab1 k
      in if rc < 0 then (rc, slab2, k2)
         else (rc, slab2, k2\<lparr>waitqs := (waitqs k2)(slab_wait_q slab2 := [])\<rparr>))"

definition k_mem_slab_alloc ::
    "k_mem_slab \<Rightarrow> addr \<Rightarrow> ticks \<Rightarrow> 'a kernel_scheme \<Rightarrow> int outcome \<times> k_mem_slab \<times> 'a kernel_scheme" where
  "k_mem_slab_alloc slab pmem timeout k =
     (let (key, k1) = k_spin_lock k in
      if free_list slab \<noteq> 0
      then let c = (cells k1)(pmem := free_list slab);
               slab1 = slab\<lparr>free_list := c (free_list slab), num_used := num_used slab + 1\<rparr>;
               slab2 = slab1\<lparr>max_used := max (num_used slab1) (max_used slab1)\<rparr>
           in (Ret 0, slab2, k_spin_unlock key (k1\<lparr>cells := c\<rparr>))
      else if timeout = K_NO_WAIT
      then (Ret (- ENOMEM), slab, k_spin_unlock key (k1\<lparr>cells := (cells k1)(pmem := 0)\<rparr>))
      else (Pend, slab, z_pend_curr key (Some (slab_wait_q slab)) timeout k1))"

definition k_mem_slab_alloc_resume :: "tid \<Rightarrow> addr \<Rightarrow> 'a kernel_scheme \<Rightarrow> int \<times> 'a kernel_scheme" where
  "k_mem_slab_alloc_resume self pmem k =
     (let result = swap_retval (threads k self)
      in (result, if result = 0 then k\<lparr>cells := (cells k)(pmem := swap_data (threads k self))\<rparr> else k))"

text \<open>The part of \<open>k_mem_slab_free\<close> that puts the block back into the list.\<close>

definition slab_put_back :: "k_mem_slab \<Rightarrow> addr \<Rightarrow> 'a kernel_scheme \<Rightarrow> k_mem_slab \<times> 'a kernel_scheme" where
  "slab_put_back slab pmem k =
     (let c = (cells k)(cells k pmem := free_list slab)
      in (slab\<lparr>free_list := c pmem, num_used := (num_used slab + 2 ^ 32 - 1) mod 2 ^ 32\<rparr>, k\<lparr>cells := c\<rparr>))"

definition k_mem_slab_free :: "k_mem_slab \<Rightarrow> addr \<Rightarrow> 'a kernel_scheme \<Rightarrow> k_mem_slab \<times> 'a kernel_scheme" where
  "k_mem_slab_free slab pmem k =
     (let (key, k1) = k_spin_lock k;
          (pending_thread, k2) = (if free_list slab = 0 then z_unpend_first_thread (slab_wait_q slab) k1 else (None, k1))
      in case pending_thread of
           Some thread \<Rightarrow> (slab, z_reschedule key (wake_with_data thread 0 (cells k2 pmem) k2))
         | None \<Rightarrow> (let (slab1, k3) = slab_put_back slab pmem k2 in (slab1, k_spin_unlock key k3)))"

text \<open>Allocated, free and highest allocated bytes, as 32-bit sizes.\<close>

definition k_mem_slab_runtime_stats_get :: "k_mem_slab \<Rightarrow> nat \<times> nat \<times> nat" where
  "k_mem_slab_runtime_stats_get slab =
     (num_used slab * block_size slab mod 2 ^ 32,
      ((num_blocks slab + 2 ^ 32 - num_used slab) mod 2 ^ 32) * block_size slab mod 2 ^ 32,
      max_used slab * block_size slab mod 2 ^ 32)"

definition k_mem_slab_runtime_stats_reset_max :: "k_mem_slab \<Rightarrow> int \<times> k_mem_slab" where
  "k_mem_slab_runtime_stats_reset_max slab = (0, slab\<lparr>max_used := num_used slab\<rparr>)"

definition k_mem_slab_num_used_get :: "k_mem_slab \<Rightarrow> nat" where
  "k_mem_slab_num_used_get slab = num_used slab"

definition k_mem_slab_max_used_get :: "k_mem_slab \<Rightarrow> nat" where
  "k_mem_slab_max_used_get slab = max_used slab"

definition k_mem_slab_num_free_get :: "k_mem_slab \<Rightarrow> nat" where
  "k_mem_slab_num_free_get slab = (num_blocks slab + 2 ^ 32 - num_used slab) mod 2 ^ 32"

section \<open>The free blocks\<close>

definition blocks :: "k_mem_slab \<Rightarrow> addr set" where
  "blocks slab = (\<lambda>i. buffer slab + i * block_size slab) ` {..<num_blocks slab}"

text \<open>The list of free blocks from an address on.\<close>

fun chain :: "(addr \<Rightarrow> addr) \<Rightarrow> addr \<Rightarrow> addr list \<Rightarrow> bool" where
  "chain c a [] \<longleftrightarrow> a = 0"
| "chain c a (b # bs) \<longleftrightarrow> a = b \<and> b \<noteq> 0 \<and> chain c (c b) bs"

lemma chain_cong: "chain c a bs \<Longrightarrow> (\<forall>b \<in> set bs. c' b = c b) \<Longrightarrow> chain c' a bs"
  by (induction bs arbitrary: a) auto

text \<open>
  A slab with the blocks \<open>held\<close> given out: the others are in the list of free blocks,
  once each, and threads only wait when there are none.
\<close>

definition slab_ok :: "addr set \<Rightarrow> k_mem_slab \<Rightarrow> 'a kernel_scheme \<Rightarrow> bool" where
  "slab_ok held slab k \<longleftrightarrow> held \<subseteq> blocks slab \<and> num_used slab = card held \<and>
     num_used slab \<le> max_used slab \<and> max_used slab \<le> num_blocks slab \<and> num_blocks slab < 2 ^ 32 \<and> 0 \<notin> blocks slab \<and>
     (\<exists>bs. chain (cells k) (free_list slab) bs \<and> distinct bs \<and> set bs = blocks slab - held \<and>
        (waitqs k (slab_wait_q slab) \<noteq> [] \<longrightarrow> bs = []))"

lemma blocks_finite [simp]: "finite (blocks slab)"
  by (simp add: blocks_def)

lemma card_blocks: "0 < block_size slab \<Longrightarrow> card (blocks slab) = num_blocks slab"
  unfolding blocks_def by (subst card_image) (auto simp: inj_on_def)

lemma free_list_loop_chain:
  assumes "chain c fl xs" "\<forall>i<n. p + i * bsize \<notin> set xs" "0 < p" "0 < bsize" "free_list_loop n p bsize fl c = (fl', c')"
  shows "chain c' fl' (rev (map (\<lambda>i. p + i * bsize) [0..<n]) @ xs)"
  using assms
proof (induction n arbitrary: p fl c xs)
  case (Suc n)
  have "p \<notin> set xs" using Suc.prems(2) [rule_format, of 0] by simp
  then have 1: "chain (c(p := fl)) p (p # xs)" using Suc.prems(1,3) chain_cong [of c fl xs "c(p := fl)"] by auto
  have 2: "\<forall>i<n. p + bsize + i * bsize \<notin> set (p # xs)"
  proof (intro allI impI)
    fix i assume "i < n"
    then have "p + Suc i * bsize \<notin> set xs" using Suc.prems(2) [rule_format, of "Suc i"] by simp
    then show "p + bsize + i * bsize \<notin> set (p # xs)" using Suc.prems(4) by (simp add: add.assoc)
  qed
  have "[0..<Suc n] = 0 # map Suc [0..<n]" by (simp add: map_Suc_upt upt_conv_Cons)
  then have "rev (map (\<lambda>i. p + i * bsize) [0..<Suc n]) = rev (map (\<lambda>i. p + bsize + i * bsize) [0..<n]) @ [p]"
    by (simp add: comp_def add.assoc)
  moreover have l: "free_list_loop n (p + bsize) bsize p (c(p := fl)) = (fl', c')" "0 < p + bsize" using Suc.prems(3,5) by simp_all
  ultimately show ?case using Suc.IH [OF 1 2 l(2) Suc.prems(4) l(1)] by (simp del: upt_Suc)
qed simp

lemma slab_init_ok:
  assumes "kinv k" "waitqs k (slab_wait_q slab) = []" "0 < buf" "0 < bsize" "n < 2 ^ 32"
    "k_mem_slab_init slab buf bsize n k = (0, slab', k')"
  shows "kinv k'" "slab_ok {} slab' k'"
proof -
  obtain fl c where l: "free_list_loop n buf bsize 0 (cells k) = (fl, c)" by fastforce
  have e: "slab' = slab\<lparr>num_blocks := n, block_size := bsize, buffer := buf, num_used := 0, max_used := 0, free_list := fl\<rparr>"
    "k' = k\<lparr>cells := c\<rparr>"
    using assms(2,6) l by (auto simp: k_mem_slab_init_def create_free_list_def errno_defs Let_def fun_upd_idem split: if_splits)
  let ?bs = "rev (map (\<lambda>i. buf + i * bsize) [0..<n])"
  have "chain c fl ?bs" using free_list_loop_chain [of "cells k" 0 "[]", OF _ _ assms(3,4) l] by simp
  moreover have "distinct ?bs" "set ?bs = blocks slab'" using assms(4) by (auto simp: e blocks_def distinct_map inj_on_def)
  moreover have "0 \<notin> blocks slab'" using assms(3) by (auto simp: e blocks_def)
  ultimately show "kinv k'" "slab_ok {} slab' k'" using assms(1,2,5) by (auto simp: e slab_ok_def)
qed

lemma alloc_ok:
  assumes "kinv k" "slab_ok held slab k" "timeout \<noteq> K_NO_WAIT \<longrightarrow> runs k" "pmem \<notin> blocks slab - held"
    "k_mem_slab_alloc slab pmem timeout k = (res, slab', k')" "0 < block_size slab"
  shows "kinv k'" "slab_ok (if res = Ret 0 then insert (cells k' pmem) held else held) slab' k'"
    "res = Ret 0 \<longleftrightarrow> held \<noteq> blocks slab" "res = Ret 0 \<Longrightarrow> cells k' pmem \<in> blocks slab - held"
proof -
  obtain bs where bs: "chain (cells k) (free_list slab) bs" "distinct bs" "set bs = blocks slab - held"
    "waitqs k (slab_wait_q slab) \<noteq> [] \<longrightarrow> bs = []"
    using assms(2) by (auto simp: slab_ok_def)
  note s = assms(2) [unfolded slab_ok_def]
  have "kinv k' \<and> slab_ok (if res = Ret 0 then insert (cells k' pmem) held else held) slab' k' \<and>
    (res = Ret 0 \<longleftrightarrow> held \<noteq> blocks slab) \<and> (res = Ret 0 \<longrightarrow> cells k' pmem \<in> blocks slab - held)"
  proof (cases bs)
    case Nil
    then have z: "free_list slab = 0" "held = blocks slab" using bs s by auto
    show ?thesis
    proof (cases "timeout = K_NO_WAIT")
      case True
      then show ?thesis using assms(1,5) z s
        by (auto simp: k_mem_slab_alloc_def k_spin_lock_def k_spin_unlock_def slab_ok_def errno_defs intro: exI [of _ "[]"])
    next
      case False
      then have "kinv (k\<lparr>irq_unlocked := False\<rparr>)" "runs (k\<lparr>irq_unlocked := False\<rparr>)"
        using assms(1,3) by (simp_all add: runs_def)
      note p = pend_curr_waitqs(1) [OF this]
      show ?thesis using assms(5) False z s p
        by (auto simp: k_mem_slab_alloc_def k_spin_lock_def slab_ok_def intro: exI [of _ "[]"])
    qed
  next
    case (Cons b bs')
    have b: "free_list slab = b" "b \<noteq> 0" "chain (cells k) (cells k b) bs'" "b \<in> blocks slab" "b \<notin> held"
      using bs Cons by auto
    let ?c = "(cells k)(pmem := b)"
    have ne: "pmem \<noteq> b" "pmem \<notin> set bs'" using assms(4) bs(3) Cons by auto
    have e: "res = Ret 0" "k' = k\<lparr>cells := ?c\<rparr>"
      "slab' = slab\<lparr>free_list := cells k b, num_used := num_used slab + 1, max_used := max (num_used slab + 1) (max_used slab)\<rparr>"
      using assms(5) b(1,2) ne by (auto simp: k_mem_slab_alloc_def k_spin_lock_def k_spin_unlock_def Let_def)
    have bl: "blocks slab' = blocks slab" by (simp add: e blocks_def)
    have fin: "finite held" using s finite_subset [OF _ blocks_finite] by blast
    have "card (insert b held) \<le> card (blocks slab)" using s b(4) by (intro card_mono) auto
    then have cd: "card held + 1 \<le> num_blocks slab" using b(5) fin card_blocks [OF assms(6)] by simp
    have "chain ?c (cells k b) bs'" using chain_cong [OF b(3)] ne by auto
    moreover have "distinct bs'" "set bs' = blocks slab - insert b held" using bs(2,3) Cons by auto
    ultimately have "slab_ok (insert b held) slab' k'"
      using s b fin cd bs(4) Cons by (auto simp: slab_ok_def bl) (auto simp: e intro!: exI [of _ bs'])
    then show ?thesis using assms(1) e(1) b(4,5) by (auto simp: e(2))
  qed
  then show "kinv k'" "slab_ok (if res = Ret 0 then insert (cells k' pmem) held else held) slab' k'"
    "res = Ret 0 \<longleftrightarrow> held \<noteq> blocks slab" "res = Ret 0 \<Longrightarrow> cells k' pmem \<in> blocks slab - held" by auto
qed

lemma free_ok:
  assumes "kinv k" "awake k" "slab_ok held slab k" "cells k pmem \<in> held" "pmem \<noteq> cells k pmem"
    "k_mem_slab_free slab pmem k = (slab', k')"
  shows "kinv k'" "slab_ok (if waitqs k (slab_wait_q slab) \<noteq> [] then held else held - {cells k pmem}) slab' k'"
    "waitqs k (slab_wait_q slab) = t # ts \<Longrightarrow> released t k k' \<and> swap_retval (threads k' t) = 0 \<and>
       swap_data (threads k' t) = cells k pmem"
proof -
  let ?b = "cells k pmem" and ?q = "slab_wait_q slab"
  obtain bs where bs: "chain (cells k) (free_list slab) bs" "distinct bs" "set bs = blocks slab - held"
    "waitqs k ?q \<noteq> [] \<longrightarrow> bs = []"
    using assms(3) by (auto simp: slab_ok_def)
  note s = assms(3) [unfolded slab_ok_def]
  have fin: "finite held" using s finite_subset [OF _ blocks_finite] by blast
  have "kinv k' \<and> slab_ok (if waitqs k ?q \<noteq> [] then held else held - {?b}) slab' k' \<and>
    (waitqs k ?q = t # ts \<longrightarrow> released t k k' \<and> swap_retval (threads k' t) = 0 \<and> swap_data (threads k' t) = ?b)"
  proof (cases "waitqs k ?q")
    case Nil
    let ?c = "(cells k)(?b := free_list slab)"
    have e: "slab' = slab\<lparr>free_list := ?b, num_used := (num_used slab + 2 ^ 32 - 1) mod 2 ^ 32\<rparr>" "k' = k\<lparr>cells := ?c\<rparr>"
      using assms(5,6) Nil unpend_first_none [of "k\<lparr>irq_unlocked := False\<rparr>" ?q]
      by (auto simp: k_mem_slab_free_def slab_put_back_def k_spin_lock_def k_spin_unlock_def Let_def split: if_splits)
    have b: "?b \<noteq> 0" "?b \<in> blocks slab" "?b \<notin> set bs" using s assms(4) bs(3) by auto
    have c: "card (held - {?b}) + 1 = card held" using card_Suc_Diff1 [OF fin assms(4)] by simp
    then have n: "(num_used slab + 2 ^ 32 - 1) mod 2 ^ 32 = card (held - {?b})"
    proof -
      have "num_used slab + 2 ^ 32 - 1 = card (held - {?b}) + 2 ^ 32" "card (held - {?b}) < 2 ^ 32" using s c by auto
      then show ?thesis by simp
    qed
    have bl: "blocks slab' = blocks slab" by (simp add: e blocks_def)
    have "chain ?c ?b (?b # bs)" using chain_cong [OF bs(1), of ?c] b by auto
    moreover have "distinct (?b # bs)" "set (?b # bs) = blocks slab - (held - {?b})" using bs b assms(4) by auto
    moreover have "held - {?b} \<subseteq> blocks slab" "card (held - {?b}) \<le> max_used slab" using s c by auto
    ultimately have "slab_ok (held - {?b}) slab' k'"
      unfolding slab_ok_def bl using s n Nil by (auto simp: e intro!: exI [of _ "?b # bs"])
    then show ?thesis using assms(1) Nil by (simp add: e(2))
  next
    case (Cons t' ts')
    then have z: "free_list slab = 0" using bs by auto
    obtain u k1 where u: "z_unpend_first_thread ?q (k\<lparr>irq_unlocked := False\<rparr>) = (u, k1)" by fastforce
    have "cells k1 = cells k" using arg_cong [OF u, of "\<lambda>x. cells (snd x)"] by simp
    note h = handed_over_plain [where key = "irq_unlocked k" and v = 0 and d = ?b, OF assms(1,2) Cons u disjI2 [OF refl]] and c1 = this
    have e: "slab' = slab" "k' = z_reschedule (irq_unlocked k) (wake_with_data t' 0 ?b k1)"
      using assms(6) u h(1) z c1 by (auto simp: k_mem_slab_free_def k_spin_lock_def)
    have "slab_ok held slab' k'" using s h(7) Cons bs by (auto simp: slab_ok_def e)
    then show ?thesis using h Cons by (auto simp: e(2))
  qed
  then show "kinv k'" "slab_ok (if waitqs k ?q \<noteq> [] then held else held - {?b}) slab' k'"
    "waitqs k ?q = t # ts \<Longrightarrow> released t k k' \<and> swap_retval (threads k' t) = 0 \<and> swap_data (threads k' t) = ?b" by auto
qed

section \<open>Properties\<close>

text \<open>
  The uses of a slab: it is initialised, threads allocate and free blocks, and
  anything else may happen in between, as long as nobody writes to a free
  block. \<open>held\<close> are the blocks given out and not yet freed; a block freed while threads
  wait goes to the first of them and stays given out.
\<close>

inductive slab_run :: "k_mem_slab \<Rightarrow> 'a kernel_scheme \<Rightarrow> addr set \<Rightarrow> bool" where
  init: "kinv k \<Longrightarrow> waitqs k (slab_wait_q slab) = [] \<Longrightarrow> 0 < buf \<Longrightarrow> 0 < bsize \<Longrightarrow> n < 2 ^ 32 \<Longrightarrow>
    k_mem_slab_init slab buf bsize n k = (0, slab', k') \<Longrightarrow> slab_run slab' k' {}"
| alloc: "slab_run slab k held \<Longrightarrow> timeout \<noteq> K_NO_WAIT \<longrightarrow> runs k \<Longrightarrow> pmem \<notin> blocks slab - held \<Longrightarrow>
    k_mem_slab_alloc slab pmem timeout k = (res, slab', k') \<Longrightarrow>
    slab_run slab' k' (if res = Ret 0 then insert (cells k' pmem) held else held)"
| free: "slab_run slab k held \<Longrightarrow> awake k \<Longrightarrow> cells k pmem \<in> held \<Longrightarrow> pmem \<noteq> cells k pmem \<Longrightarrow>
    k_mem_slab_free slab pmem k = (slab', k') \<Longrightarrow>
    slab_run slab' k' (if waitqs k (slab_wait_q slab) \<noteq> [] then held else held - {cells k pmem})"
| other: "slab_run slab k held \<Longrightarrow> kinv k' \<Longrightarrow>
    set (waitqs k' (slab_wait_q slab)) \<subseteq> set (waitqs k (slab_wait_q slab)) \<Longrightarrow>
    \<forall>b \<in> blocks slab - held. cells k' b = cells k b \<Longrightarrow> slab_run slab k' held"

lemma other_ok:
  assumes "slab_ok held slab k" "set (waitqs k' (slab_wait_q slab)) \<subseteq> set (waitqs k (slab_wait_q slab))"
    "\<forall>b \<in> blocks slab - held. cells k' b = cells k b"
  shows "slab_ok held slab k'"
proof -
  obtain bs where "chain (cells k) (free_list slab) bs" "distinct bs" "set bs = blocks slab - held"
    "waitqs k (slab_wait_q slab) \<noteq> [] \<longrightarrow> bs = []"
    using assms(1) by (auto simp: slab_ok_def)
  moreover from this have "chain (cells k') (free_list slab) bs" using chain_cong assms(3) by metis
  ultimately show ?thesis using assms(1,2) by (auto simp: slab_ok_def)
qed

lemma slab_run_ok: "slab_run slab k held \<Longrightarrow> kinv k \<and> slab_ok held slab k \<and> 0 < block_size slab"
proof (induction rule: slab_run.induct)
  case (init k slab buf bsize n slab' k')
  then have "block_size slab' = bsize"
    by (auto simp: k_mem_slab_init_def create_free_list_def Let_def errno_defs split: if_splits prod.splits)
  with init show ?case using slab_init_ok by auto
next
  case (alloc slab k held timeout pmem res slab' k')
  then have "block_size slab' = block_size slab"
    by (auto simp: k_mem_slab_alloc_def Let_def split: if_splits prod.splits)
  with alloc show ?case using alloc_ok [of k held slab timeout pmem res slab' k'] by auto
next
  case (free slab k held pmem slab' k')
  then have "block_size slab' = block_size slab"
    by (auto simp: k_mem_slab_free_def slab_put_back_def Let_def split: if_splits prod.splits option.splits)
  with free show ?case using free_ok [of k held slab pmem slab' k'] by auto
next
  case (other slab k held k')
  then show ?case using other_ok by blast
qed

text \<open>
  C19. A memory slab never has a block in two hands. In every state that use of a slab
  can reach, an allocation that succeeds returns a block of the slab that is
  not given out, it succeeds without waiting exactly if there is one, a
  thread waits only while all blocks are given out, and the number of used
  blocks is exact.
\<close>

theorem slab_exclusive:
  assumes "slab_run slab k held" "pmem \<notin> blocks slab - held" "timeout \<noteq> K_NO_WAIT \<longrightarrow> runs k"
    "k_mem_slab_alloc slab pmem timeout k = (res, slab', k')"
  shows "held \<subseteq> blocks slab \<and> num_used slab = card held \<and> k_mem_slab_num_free_get slab = card (blocks slab - held) \<and>
     (waitqs k (slab_wait_q slab) \<noteq> [] \<longrightarrow> held = blocks slab) \<and>
     (res = Ret 0 \<longleftrightarrow> held \<noteq> blocks slab) \<and> (res = Ret 0 \<longrightarrow> cells k' pmem \<in> blocks slab - held)"
proof -
  have r: "kinv k" "slab_ok held slab k" "0 < block_size slab" using slab_run_ok [OF assms(1)] by simp_all
  note a = alloc_ok [OF r(1,2) assms(3,2,4) r(3)]
  have h: "held \<subseteq> blocks slab" "num_used slab = card held" "num_used slab \<le> num_blocks slab" "num_blocks slab < 2 ^ 32"
    using r(2) by (auto simp: slab_ok_def)
  have c: "card (blocks slab - held) = num_blocks slab - card held"
    using card_Diff_subset [OF finite_subset [OF h(1) blocks_finite] h(1)] card_blocks [OF r(3)] by simp
  have "k_mem_slab_num_free_get slab = (num_blocks slab - card held + 2 ^ 32) mod 2 ^ 32"
    unfolding k_mem_slab_num_free_get_def h(2) using h(2,3) by (intro arg_cong [where f = "\<lambda>x. x mod 2 ^ 32"]) linarith
  also have "\<dots> = num_blocks slab - card held" using h(4) by (simp only: mod_add_self2) (intro mod_less, linarith)
  finally have "k_mem_slab_num_free_get slab = card (blocks slab - held)" unfolding c .
  then show ?thesis using a(3,4) h r(2) by (auto simp: slab_ok_def)
qed

text \<open>A slab of two blocks of eight bytes, from which the main thread takes one.\<close>

definition slab0 :: k_mem_slab where
  "slab0 = \<lparr>slab_wait_q = WQ 0, num_blocks = 0, block_size = 0, buffer = 0, free_list = 0, num_used = 0, max_used = 0\<rparr>"

theorem slab_exclusive_witness:
  "let (rc, slab, k) = k_mem_slab_init slab0 400 8 2 busy; (res, slab', k') = k_mem_slab_alloc slab 100 K_NO_WAIT k
   in rc = 0 \<and> res = Ret 0 \<and> cells k' 100 \<in> blocks slab"
proof -
  obtain rc s k where i: "k_mem_slab_init slab0 400 8 2 busy = (rc, s, k)" by (rule prod_cases3)
  then have f: "rc = 0" "num_blocks s = 2" "block_size s = 8" "buffer s = 400"
    by (auto simp: k_mem_slab_init_def create_free_list_def Let_def errno_defs slab0_def split: if_splits prod.splits)
  obtain res s' k' where a: "k_mem_slab_alloc s 100 K_NO_WAIT k = (res, s', k')" by (rule prod_cases3)
  have r: "slab_run s k {}"
    using slab_run.init [of busy slab0 400 8 2 s k] i f(1) busy_kinv busy_facts(3) by (simp add: slab0_def)
  have b: "blocks s = {400, 408}" by (auto simp: blocks_def f lessThan_nat_numeral)
  have "100 \<notin> blocks s - {}" by (simp add: b)
  from slab_exclusive [OF r this _ a] b show ?thesis unfolding i prod.case Let_def a by (auto simp: f)
qed

end
