(* ===== verification/Genlist.thy ===== *)
theory Genlist
  imports Prelude
begin

text \<open>
  Singly linked lists, from \<^verbatim>\<open>include/zephyr/sys/list_gen.h\<close>, \<^verbatim>\<open>slist.h\<close> and \<^verbatim>\<open>sflist.h\<close>. The macros of
  \<open>list_gen.h\<close> build the operations of both kinds of lists from the accessors of their
  nodes; here these are functions that take the accessors as arguments. A
  node is the address of its first word; \<open>c\<close> is the memory of words, and \<open>NULL\<close> is 0.
\<close>

section \<open>The generic operations\<close>

type_synonym words = "nat \<Rightarrow> nat"

record gen_list =
  list_head :: nat
  list_tail :: nat

type_synonym next_peek = "words \<Rightarrow> nat \<Rightarrow> nat"
type_synonym next_set = "nat \<Rightarrow> nat \<Rightarrow> words \<Rightarrow> words"

definition gl_init :: "gen_list \<Rightarrow> gen_list" where
  "gl_init list = list\<lparr>list_head := 0, list_tail := 0\<rparr>"

definition gl_is_empty :: "gen_list \<Rightarrow> bool" where
  "gl_is_empty list \<longleftrightarrow> list_head list = 0"

definition gl_peek_next_no_check :: "next_peek \<Rightarrow> words \<Rightarrow> nat \<Rightarrow> nat" where
  "gl_peek_next_no_check peek c node = peek c node"

definition gl_peek_next :: "next_peek \<Rightarrow> words \<Rightarrow> nat \<Rightarrow> nat" where
  "gl_peek_next peek c node = (if node \<noteq> 0 then gl_peek_next_no_check peek c node else 0)"

definition gl_prepend :: "next_set \<Rightarrow> gen_list \<Rightarrow> nat \<Rightarrow> words \<Rightarrow> gen_list \<times> words" where
  "gl_prepend nset list node c =
     (let c1 = nset node (list_head list) c;
          list1 = list\<lparr>list_head := node\<rparr>
      in (if list_tail list1 = 0 then list1\<lparr>list_tail := list_head list1\<rparr> else list1, c1))"

definition gl_append :: "next_set \<Rightarrow> gen_list \<Rightarrow> nat \<Rightarrow> words \<Rightarrow> gen_list \<times> words" where
  "gl_append nset list node c =
     (let c1 = nset node 0 c in
      if list_tail list = 0 then (list\<lparr>list_tail := node, list_head := node\<rparr>, c1)
      else (list\<lparr>list_tail := node\<rparr>, nset (list_tail list) node c1))"

definition gl_append_list :: "next_set \<Rightarrow> gen_list \<Rightarrow> nat \<Rightarrow> nat \<Rightarrow> words \<Rightarrow> gen_list \<times> words" where
  "gl_append_list nset list head tail c =
     (if head \<noteq> 0 \<and> tail \<noteq> 0
      then let (list1, c1) = (if list_tail list = 0 then (list\<lparr>list_head := head\<rparr>, c)
                              else (list, nset (list_tail list) head c))
           in (list1\<lparr>list_tail := tail\<rparr>, c1)
      else (list, c))"

definition gl_merge_list :: "next_set \<Rightarrow> gen_list \<Rightarrow> gen_list \<Rightarrow> words \<Rightarrow> gen_list \<times> gen_list \<times> words" where
  "gl_merge_list nset list list_to_append c =
     (let (list1, c1) = gl_append_list nset list (list_head list_to_append) (list_tail list_to_append) c
      in (list1, gl_init list_to_append, c1))"

definition gl_insert :: "next_peek \<Rightarrow> next_set \<Rightarrow> gen_list \<Rightarrow> nat \<Rightarrow> nat \<Rightarrow> words \<Rightarrow> gen_list \<times> words" where
  "gl_insert peek nset list prev node c =
     (if prev = 0 then gl_prepend nset list node c
      else if peek c prev = 0 then gl_append nset list node c
      else (list, nset prev node (nset node (peek c prev) c)))"

definition gl_get_not_empty :: "next_peek \<Rightarrow> gen_list \<Rightarrow> words \<Rightarrow> nat \<times> gen_list" where
  "gl_get_not_empty peek list c =
     (let node = list_head list;
          list1 = list\<lparr>list_head := peek c node\<rparr>
      in (node, if list_tail list1 = node then list1\<lparr>list_tail := list_head list1\<rparr> else list1))"

definition gl_get :: "next_peek \<Rightarrow> gen_list \<Rightarrow> words \<Rightarrow> nat \<times> gen_list" where
  "gl_get peek list c = (if gl_is_empty list then (0, list) else gl_get_not_empty peek list c)"

definition gl_remove :: "next_peek \<Rightarrow> next_set \<Rightarrow> gen_list \<Rightarrow> nat \<Rightarrow> nat \<Rightarrow> words \<Rightarrow> gen_list \<times> words" where
  "gl_remove peek nset list prev_node node c =
     (let (list1, c1) =
        (if prev_node = 0
         then let list1 = list\<lparr>list_head := peek c node\<rparr>
              in (if list_tail list1 = node then list1\<lparr>list_tail := list_head list1\<rparr> else list1, c)
         else (if list_tail list = node then list\<lparr>list_tail := prev_node\<rparr> else list, nset prev_node (peek c node) c))
      in (list1, nset node 0 c1))"

text \<open>The search loop of \<open>find_and_remove\<close>; a search that does not end is \<open>None\<close>.\<close>

partial_function (option) gl_find_loop ::
    "next_peek \<Rightarrow> next_set \<Rightarrow> gen_list \<Rightarrow> nat \<Rightarrow> words \<Rightarrow> nat \<Rightarrow> nat \<Rightarrow> (bool \<times> gen_list \<times> words) option" where
  "gl_find_loop peek nset list node c prev test =
     (if test = 0 then Some (False, list, c)
      else if test = node then Some (True, gl_remove peek nset list prev node c)
      else gl_find_loop peek nset list node c test (gl_peek_next peek c test))"

definition gl_find_and_remove ::
    "next_peek \<Rightarrow> next_set \<Rightarrow> gen_list \<Rightarrow> nat \<Rightarrow> words \<Rightarrow> (bool \<times> gen_list \<times> words) option" where
  "gl_find_and_remove peek nset list node c = gl_find_loop peek nset list node c 0 (list_head list)"

section \<open>The nodes of both kinds of lists\<close>

text \<open>A node of an \<open>slist\<close> holds the next node; one of an \<open>sflist\<close> has two flag bits in the same word.\<close>

definition z_snode_next_peek :: next_peek where
  "z_snode_next_peek c node = c node"

definition z_snode_next_set :: next_set where
  "z_snode_next_set parent child c = c(parent := child)"

definition SYS_SFLIST_FLAGS_MASK :: nat where "SYS_SFLIST_FLAGS_MASK = 3"

definition z_sfnode_next_peek :: next_peek where
  "z_sfnode_next_peek c node = c node - (c node AND SYS_SFLIST_FLAGS_MASK)"

definition sys_sfnode_flags_get :: "words \<Rightarrow> nat \<Rightarrow> nat" where
  "sys_sfnode_flags_get c node = c node AND SYS_SFLIST_FLAGS_MASK"

definition z_sfnode_next_set :: next_set where
  "z_sfnode_next_set parent child c = c(parent := sys_sfnode_flags_get c parent OR child)"

definition sys_sfnode_init :: "nat \<Rightarrow> nat \<Rightarrow> words \<Rightarrow> words" where
  "sys_sfnode_init node flags c = c(node := flags)"

definition sys_sfnode_flags_set :: "nat \<Rightarrow> nat \<Rightarrow> words \<Rightarrow> words" where
  "sys_sfnode_flags_set node flags c = c(node := z_sfnode_next_peek c node OR flags)"

section \<open>The operations of both kinds of lists\<close>

definition sys_slist_prepend :: "gen_list \<Rightarrow> nat \<Rightarrow> words \<Rightarrow> gen_list \<times> words" where
  "sys_slist_prepend = gl_prepend z_snode_next_set"

definition sys_slist_append :: "gen_list \<Rightarrow> nat \<Rightarrow> words \<Rightarrow> gen_list \<times> words" where
  "sys_slist_append = gl_append z_snode_next_set"

definition sys_slist_append_list :: "gen_list \<Rightarrow> nat \<Rightarrow> nat \<Rightarrow> words \<Rightarrow> gen_list \<times> words" where
  "sys_slist_append_list = gl_append_list z_snode_next_set"

definition sys_slist_merge_slist :: "gen_list \<Rightarrow> gen_list \<Rightarrow> words \<Rightarrow> gen_list \<times> gen_list \<times> words" where
  "sys_slist_merge_slist = gl_merge_list z_snode_next_set"

definition sys_slist_insert :: "gen_list \<Rightarrow> nat \<Rightarrow> nat \<Rightarrow> words \<Rightarrow> gen_list \<times> words" where
  "sys_slist_insert = gl_insert z_snode_next_peek z_snode_next_set"

definition sys_slist_get_not_empty :: "gen_list \<Rightarrow> words \<Rightarrow> nat \<times> gen_list" where
  "sys_slist_get_not_empty = gl_get_not_empty z_snode_next_peek"

definition sys_slist_get :: "gen_list \<Rightarrow> words \<Rightarrow> nat \<times> gen_list" where
  "sys_slist_get = gl_get z_snode_next_peek"

definition sys_slist_remove :: "gen_list \<Rightarrow> nat \<Rightarrow> nat \<Rightarrow> words \<Rightarrow> gen_list \<times> words" where
  "sys_slist_remove = gl_remove z_snode_next_peek z_snode_next_set"

definition sys_slist_find_and_remove :: "gen_list \<Rightarrow> nat \<Rightarrow> words \<Rightarrow> (bool \<times> gen_list \<times> words) option" where
  "sys_slist_find_and_remove = gl_find_and_remove z_snode_next_peek z_snode_next_set"

lemmas slist_defs = sys_slist_prepend_def sys_slist_append_def sys_slist_append_list_def sys_slist_merge_slist_def sys_slist_insert_def sys_slist_get_not_empty_def sys_slist_get_def sys_slist_remove_def sys_slist_find_and_remove_def

definition sys_sflist_prepend :: "gen_list \<Rightarrow> nat \<Rightarrow> words \<Rightarrow> gen_list \<times> words" where
  "sys_sflist_prepend = gl_prepend z_sfnode_next_set"

definition sys_sflist_append :: "gen_list \<Rightarrow> nat \<Rightarrow> words \<Rightarrow> gen_list \<times> words" where
  "sys_sflist_append = gl_append z_sfnode_next_set"

definition sys_sflist_append_list :: "gen_list \<Rightarrow> nat \<Rightarrow> nat \<Rightarrow> words \<Rightarrow> gen_list \<times> words" where
  "sys_sflist_append_list = gl_append_list z_sfnode_next_set"

definition sys_sflist_merge_sflist :: "gen_list \<Rightarrow> gen_list \<Rightarrow> words \<Rightarrow> gen_list \<times> gen_list \<times> words" where
  "sys_sflist_merge_sflist = gl_merge_list z_sfnode_next_set"

definition sys_sflist_insert :: "gen_list \<Rightarrow> nat \<Rightarrow> nat \<Rightarrow> words \<Rightarrow> gen_list \<times> words" where
  "sys_sflist_insert = gl_insert z_sfnode_next_peek z_sfnode_next_set"

definition sys_sflist_get_not_empty :: "gen_list \<Rightarrow> words \<Rightarrow> nat \<times> gen_list" where
  "sys_sflist_get_not_empty = gl_get_not_empty z_sfnode_next_peek"

definition sys_sflist_get :: "gen_list \<Rightarrow> words \<Rightarrow> nat \<times> gen_list" where
  "sys_sflist_get = gl_get z_sfnode_next_peek"

definition sys_sflist_remove :: "gen_list \<Rightarrow> nat \<Rightarrow> nat \<Rightarrow> words \<Rightarrow> gen_list \<times> words" where
  "sys_sflist_remove = gl_remove z_sfnode_next_peek z_sfnode_next_set"

definition sys_sflist_find_and_remove :: "gen_list \<Rightarrow> nat \<Rightarrow> words \<Rightarrow> (bool \<times> gen_list \<times> words) option" where
  "sys_sflist_find_and_remove = gl_find_and_remove z_sfnode_next_peek z_sfnode_next_set"

lemmas sflist_defs = sys_sflist_prepend_def sys_sflist_append_def sys_sflist_append_list_def sys_sflist_merge_sflist_def sys_sflist_insert_def sys_sflist_get_not_empty_def sys_sflist_get_def sys_sflist_remove_def sys_sflist_find_and_remove_def

section \<open>Lists of nodes\<close>

text \<open>The nodes from \<open>a\<close> to \<open>z\<close>, and a list whose nodes are \<open>ns\<close>.\<close>

fun path :: "next_peek \<Rightarrow> (nat \<Rightarrow> bool) \<Rightarrow> words \<Rightarrow> nat \<Rightarrow> nat list \<Rightarrow> nat \<Rightarrow> bool" where
  "path peek valid c a [] z \<longleftrightarrow> a = z"
| "path peek valid c a (n # ns) z \<longleftrightarrow> a = n \<and> valid n \<and> path peek valid c (peek c n) ns z"

definition glist :: "next_peek \<Rightarrow> (nat \<Rightarrow> bool) \<Rightarrow> words \<Rightarrow> gen_list \<Rightarrow> nat list \<Rightarrow> bool" where
  "glist peek valid c l ns \<longleftrightarrow> path peek valid c (list_head l) ns 0 \<and> distinct ns \<and> list_tail l = (if ns = [] then 0 else last ns)"

text \<open>
  What the operations rely on: the next node that is set is the one that is
  read, and a node's word changes no other node.
\<close>

locale gen_node =
  fixes peek :: next_peek and nset :: next_set and valid :: "nat \<Rightarrow> bool"
  assumes peek_set: "valid child \<or> child = 0 \<Longrightarrow> peek (nset p child c) p = child"
    and set_other: "a \<noteq> p \<Longrightarrow> nset p child c a = c a"
    and peek_local: "c a = c' a \<Longrightarrow> peek c a = peek c' a"
    and valid_nonzero: "valid n \<Longrightarrow> n \<noteq> 0"
begin

lemma path_append: "path peek valid c a (xs @ ys) z \<longleftrightarrow> (\<exists>b. path peek valid c a xs b \<and> path peek valid c b ys z)"
  by (induction xs arbitrary: a) auto

lemma path_cong: "path peek valid c a ns z \<Longrightarrow> (\<And>n. n \<in> set ns \<Longrightarrow> c' n = c n) \<Longrightarrow> path peek valid c' a ns z"
proof (induction ns arbitrary: a)
  case (Cons n ns)
  then have "peek c' n = peek c n" by (intro peek_local) simp
  with Cons show ?case by simp
qed simp

lemma path_valid: "path peek valid c a ns z \<Longrightarrow> n \<in> set ns \<Longrightarrow> valid n"
  by (induction ns arbitrary: a) auto

lemma path_set_last:
  assumes "path peek valid c a (xs @ [p]) b" "p \<notin> set xs" "valid n \<or> n = 0"
  shows "path peek valid (nset p n c) a (xs @ [p]) n"
proof -
  have "path peek valid c a xs p" "valid p" using assms(1) by (auto simp: path_append)
  moreover from this have "path peek valid (nset p n c) a xs p" using path_cong [of c a xs p "nset p n c"] assms(2) set_other by metis
  ultimately show ?thesis using peek_set [OF assms(3)] by (auto simp: path_append)
qed

lemma glist_empty: "glist peek valid c l ns \<Longrightarrow> list_head l = 0 \<longleftrightarrow> ns = []"
  using valid_nonzero by (cases ns) (auto simp: glist_def)

lemma glist_tail: "glist peek valid c l ns \<Longrightarrow> list_tail l = 0 \<longleftrightarrow> ns = []"
  using valid_nonzero path_valid by (auto simp: glist_def)

lemma glist_valid: "glist peek valid c l ns \<Longrightarrow> n \<in> set ns \<Longrightarrow> valid n"
  using path_valid by (auto simp: glist_def)

lemma glist_head: "glist peek valid c l (n # ns) \<Longrightarrow> list_head l = n"
  by (simp add: glist_def)

lemma prepend_ok:
  assumes "glist peek valid c l ns" "n \<notin> set ns" "valid n" "gl_prepend nset l n c = (l', c')"
  shows "glist peek valid c' l' (n # ns)" "a \<noteq> n \<Longrightarrow> c' a = c a"
proof -
  have e: "c' = nset n (list_head l) c" "list_head l' = n" "list_tail l' = (if ns = [] then n else list_tail l)"
    using assms(4) glist_tail [OF assms(1)] by (auto simp: gl_prepend_def Let_def)
  show fr: "c' a = c a" if "a \<noteq> n" for a using that by (simp add: e set_other)
  have "valid (list_head l) \<or> list_head l = 0" using assms(1) by (cases ns) (auto simp: glist_def)
  then have "peek c' n = list_head l" unfolding e(1) by (rule peek_set)
  moreover have "path peek valid c' (list_head l) ns 0"
  proof (rule path_cong [of c])
    show "path peek valid c (list_head l) ns 0" using assms(1) by (simp add: glist_def)
    show "c' m = c m" if "m \<in> set ns" for m using that assms(2) fr by metis
  qed
  ultimately show "glist peek valid c' l' (n # ns)" using assms(1-3) e(2,3) by (auto simp: glist_def)
qed

lemma link_last:
  assumes "glist peek valid c l ns" "ns \<noteq> []" "path peek valid c h ms 0" "distinct (ns @ ms)" "ms \<noteq> []"
  shows "path peek valid (nset (list_tail l) h c) (list_head l) (ns @ ms) 0"
proof -
  obtain xs p where ns: "ns = xs @ [p]" using assms(2) by (cases ns rule: rev_cases) auto
  have tl: "list_tail l = p" using assms(1) ns by (simp add: glist_def)
  have "valid h" using assms(3,5) by (cases ms) auto
  then have "path peek valid (nset p h c) (list_head l) ns h"
    using path_set_last [of c "list_head l" xs p 0 h] assms(1) ns by (simp add: glist_def)
  moreover have "path peek valid (nset p h c) h ms 0"
    using assms(3,4) ns by (intro path_cong [of c h ms 0 "nset p h c"] set_other) auto
  ultimately show ?thesis by (auto simp: path_append tl)
qed

lemma append_list_ok:
  assumes "glist peek valid c l ns" "path peek valid c h ms 0" "ms \<noteq> []" "t = last ms" "distinct (ns @ ms)"
    "gl_append_list nset l h t c = (l', c')"
  shows "glist peek valid c' l' (ns @ ms)" "a \<noteq> list_tail l \<Longrightarrow> c' a = c a"
proof -
  have "valid h" "valid t" using assms(2-4) path_valid by (cases ms, auto)+
  then have nz: "h \<noteq> 0" "t \<noteq> 0" using valid_nonzero by auto
  show "a \<noteq> list_tail l \<Longrightarrow> c' a = c a"
    using assms(6) by (auto simp: gl_append_list_def set_other split: if_splits)
  show "glist peek valid c' l' (ns @ ms)"
  proof (cases "ns = []")
    case True
    then have "list_tail l = 0" using glist_tail [OF assms(1)] by simp
    with True assms nz show ?thesis by (auto simp: glist_def gl_append_list_def)
  next
    case False
    then have "list_tail l \<noteq> 0" using glist_tail [OF assms(1)] by simp
    with assms nz link_last [OF assms(1) False assms(2,5,3)] show ?thesis by (auto simp: glist_def gl_append_list_def)
  qed
qed

lemma append_ok:
  assumes "glist peek valid c l ns" "n \<notin> set ns" "valid n" "gl_append nset l n c = (l', c')"
  shows "glist peek valid c' l' (ns @ [n])" "a \<noteq> n \<Longrightarrow> a \<noteq> list_tail l \<Longrightarrow> c' a = c a"
proof -
  let ?c = "nset n 0 c"
  have p: "peek ?c n = 0" "distinct ns" using peek_set assms(1) by (simp_all add: glist_def)
  have g: "glist peek valid ?c l ns" unfolding glist_def
    using assms(1,2) path_cong [of c "list_head l" ns 0 ?c] set_other [of _ n 0 c] by (metis glist_def)
  have e: "gl_append_list nset l n n ?c = (l', c')"
    using assms(4) glist_tail [OF assms(1)] valid_nonzero [OF assms(3)] by (auto simp: gl_append_def gl_append_list_def Let_def)
  show "glist peek valid c' l' (ns @ [n])" using append_list_ok(1) [OF g _ _ _ _ e, of "[n]"] p assms(2,3) by simp
  show "a \<noteq> n \<Longrightarrow> a \<noteq> list_tail l \<Longrightarrow> c' a = c a"
    using append_list_ok(2) [OF g _ _ _ _ e, of "[n]" a] p assms(2,3) by (simp add: set_other)
qed

lemma insert_ok:
  assumes "glist peek valid c l (xs @ p # ys)" "n \<notin> set (xs @ p # ys)" "valid n" "gl_insert peek nset l p n c = (l', c')"
  shows "glist peek valid c' l' (xs @ p # n # ys)" "a \<noteq> n \<Longrightarrow> a \<noteq> p \<Longrightarrow> c' a = c a"
proof -
  have vp: "valid p" using glist_valid [OF assms(1)] by simp
  have pth: "path peek valid c (list_head l) xs p" "path peek valid c (peek c p) ys 0" and d: "distinct (xs @ p # ys)"
    using assms(1) by (auto simp: glist_def path_append)
  have "glist peek valid c' l' (xs @ p # n # ys) \<and> (a \<noteq> n \<longrightarrow> a \<noteq> p \<longrightarrow> c' a = c a)"
  proof (cases "ys = []")
    case True
    then have "gl_append nset l n c = (l', c')" using assms(4) pth(2) valid_nonzero [OF vp] by (simp add: gl_insert_def)
    moreover have "list_tail l = p" using assms(1) True by (simp add: glist_def)
    ultimately show ?thesis using append_ok [OF assms(1-3)] True by auto
  next
    case False
    then obtain y ys' where ys: "ys = y # ys'" "peek c p = y" "valid y" using pth(2) by (cases ys) auto
    let ?c1 = "nset n y c"
    have e: "l' = l" "c' = nset p n ?c1"
      using assms(4) ys valid_nonzero vp by (auto simp: gl_insert_def)
    have fr: "c' b = c b" if "b \<noteq> n" "b \<noteq> p" for b using that by (simp add: e set_other)
    have "peek c' n = peek ?c1 n" using assms(2) by (intro peek_local) (simp add: e set_other)
    then have "peek c' n = y" "peek c' p = n" using ys(3) assms(3) by (simp_all add: e(2) peek_set)
    moreover have "path peek valid c' (list_head l) xs p" "path peek valid c' y ys 0"
      using path_cong [OF pth(1), of c'] path_cong [OF pth(2), of c'] ys(2) assms(2) d fr by (metis Un_iff distinct_append distinct.simps(2) disjoint_iff list.set_intros(1,2) set_append)+
    ultimately have "path peek valid c' (list_head l) (xs @ p # n # ys) 0" using vp assms(3) by (auto simp: path_append)
    then show ?thesis using assms(1,2) fr False e(1) by (auto simp: glist_def)
  qed
  then show "glist peek valid c' l' (xs @ p # n # ys)" "a \<noteq> n \<Longrightarrow> a \<noteq> p \<Longrightarrow> c' a = c a" by auto
qed

lemma get_ok:
  assumes "glist peek valid c l (n # ns)" "gl_get_not_empty peek l c = (r, l')"
  shows "r = n" "glist peek valid c l' ns"
  using assms by (auto simp: glist_def gl_get_not_empty_def Let_def split: if_splits)

lemma remove_ok:
  assumes "glist peek valid c l (xs @ n # ys)" "prev = (if xs = [] then 0 else last xs)" "gl_remove peek nset l prev n c = (l', c')"
  shows "glist peek valid c' l' (xs @ ys)" "a \<noteq> n \<Longrightarrow> a \<noteq> prev \<Longrightarrow> c' a = c a"
proof -
  have d: "distinct (xs @ n # ys)" and tl: "list_tail l = last (xs @ n # ys)" using assms(1) by (simp_all add: glist_def)
  have py: "path peek valid c (peek c n) ys 0" and px: "path peek valid c (list_head l) xs n"
    using assms(1) by (auto simp: glist_def path_append)
  have tn: "list_tail l = n \<longleftrightarrow> ys = []"
  proof (cases ys rule: rev_cases)
    case Nil
    then show ?thesis using tl by simp
  next
    case (snoc zs z)
    then show ?thesis using tl d by simp
  qed
  have nx: "peek c n = 0 \<longleftrightarrow> ys = []" using py path_valid valid_nonzero by (cases ys) auto
  have vx: "valid (peek c n) \<or> peek c n = 0" using py by (cases ys) auto
  have "glist peek valid c' l' (xs @ ys) \<and> (a \<noteq> n \<longrightarrow> a \<noteq> prev \<longrightarrow> c' a = c a)"
  proof (cases "xs = []")
    case True
    have e: "c' = nset n 0 c" "list_head l' = peek c n" "list_tail l' = (if ys = [] then 0 else last ys)"
      using assms(2,3) True tn nx tl by (auto simp: gl_remove_def Let_def split: if_splits)
    have "path peek valid c' (peek c n) ys 0"
    proof (rule path_cong [OF py])
      fix m assume "m \<in> set ys"
      then have "m \<noteq> n" using d by auto
      then show "c' m = c m" by (simp add: e(1) set_other)
    qed
    then show ?thesis using True d e by (auto simp: glist_def set_other)
  next
    case False
    obtain zs p where xs: "xs = zs @ [p]" using False by (cases xs rule: rev_cases) auto
    have vp: "valid p" using px xs by (auto simp: path_append)
    have pr: "prev = p" "prev \<noteq> 0" using assms(2) xs valid_nonzero [OF vp] by auto
    let ?c1 = "nset p (peek c n) c"
    have e: "c' = nset n 0 ?c1" "list_head l' = list_head l" "list_tail l' = (if ys = [] then p else last ys)"
      using assms(3) pr tn tl by (auto simp: gl_remove_def Let_def split: if_splits)
    have fr: "c' b = ?c1 b" if "b \<noteq> n" for b using that by (simp add: e(1) set_other)
    have "path peek valid ?c1 (list_head l) xs (peek c n)"
      unfolding xs using px xs d vx by (intro path_set_last [of _ _ _ _ n]) auto
    then have 1: "path peek valid c' (list_head l) xs (peek c n)"
    proof (rule path_cong)
      fix m assume "m \<in> set xs"
      then have "m \<noteq> n" using d by auto
      then show "c' m = ?c1 m" by (rule fr)
    qed
    have 2: "path peek valid c' (peek c n) ys 0"
    proof (rule path_cong [OF py])
      fix m assume "m \<in> set ys"
      then have "m \<noteq> n" "m \<noteq> p" using d xs by auto
      then show "c' m = c m" by (simp add: e(1) set_other)
    qed
    have "path peek valid c' (list_head l) (xs @ ys) 0" using 1 2 by (auto simp: path_append)
    moreover have "c' a = c a" if "a \<noteq> n" "a \<noteq> p" using that by (simp add: e(1) set_other)
    ultimately show ?thesis using d e(2,3) xs pr by (auto simp: glist_def)
  qed
  then show "glist peek valid c' l' (xs @ ys)" "a \<noteq> n \<Longrightarrow> a \<noteq> prev \<Longrightarrow> c' a = c a" by auto
qed

lemma find_loop_ok:
  assumes "path peek valid c test ys 0"
  shows "gl_find_loop peek nset l n c prev test =
     Some (if n \<in> set ys
           then (True, gl_remove peek nset l (last (prev # takeWhile (\<lambda>x. x \<noteq> n) ys)) n c)
           else (False, l, c))"
  using assms
proof (induction ys arbitrary: prev test)
  case Nil
  then show ?case by (simp add: gl_find_loop.simps)
next
  case (Cons y ys)
  then have "test = y" "y \<noteq> 0" "gl_peek_next peek c y = peek c y" "path peek valid c (peek c y) ys 0"
    using valid_nonzero by (auto simp: gl_peek_next_def gl_peek_next_no_check_def)
  then show ?case using Cons.IH [of "peek c y" y]
    by (subst gl_find_loop.simps) simp
qed

lemma find_and_remove_ok:
  assumes "glist peek valid c l ns"
  obtains l' c' where "gl_find_and_remove peek nset l n c = Some (n \<in> set ns, l', c')"
    "glist peek valid c' l' (remove1 n ns)" "n \<notin> set ns \<Longrightarrow> l' = l \<and> c' = c" "\<And>a. a \<notin> set ns \<Longrightarrow> c' a = c a"
proof (cases "n \<in> set ns")
  case True
  then obtain xs ys where ns: "ns = xs @ n # ys" "n \<notin> set xs" by (auto dest: split_list_first)
  have tk: "takeWhile (\<lambda>x. x \<noteq> n) ns = xs" using ns by (auto simp: takeWhile_tail)
  obtain l' c' where r: "gl_remove peek nset l (last (0 # xs)) n c = (l', c')" by fastforce
  have pv: "last (0 # xs) = (if xs = [] then 0 else last xs)" by simp
  note ro = remove_ok [OF assms [unfolded ns(1)] pv r]
  have "gl_find_and_remove peek nset l n c = Some (True, l', c')"
    using find_loop_ok [of c "list_head l" ns l n 0] assms True r tk by (simp add: gl_find_and_remove_def glist_def)
  moreover have "remove1 n ns = xs @ ys" using ns by (simp add: remove1_append)
  moreover have "c' a = c a" if "a \<notin> set ns" for a
  proof (cases "a = last (0 # xs)")
    case zero: True
    then have "xs = []" using that ns by (cases xs rule: rev_cases) auto
    then have "c' = nset n 0 c" using r by (auto simp: gl_remove_def Let_def split: if_splits)
    then show ?thesis using that ns by (simp add: set_other)
  next
    case False
    then show ?thesis using ro(2) [of a] that ns by auto
  qed
  ultimately show ?thesis using that [of l' c'] ro(1) True by simp
next
  case False
  then have "gl_find_and_remove peek nset l n c = Some (False, l, c)"
    using find_loop_ok [of c "list_head l" ns l n 0] assms by (simp add: gl_find_and_remove_def glist_def)
  then show ?thesis using that [of l c] False assms by (simp add: remove1_idem)
qed

end

section \<open>The two kinds of lists\<close>

definition snode_valid :: "nat \<Rightarrow> bool" where
  "snode_valid n \<longleftrightarrow> n \<noteq> 0"

text \<open>A node with flags is word-aligned, so that the flag bits of its address are free.\<close>

definition sfnode_valid :: "nat \<Rightarrow> bool" where
  "sfnode_valid n \<longleftrightarrow> n \<noteq> 0 \<and> n mod 4 = 0"

lemma flags_mask: "(w::nat) AND SYS_SFLIST_FLAGS_MASK = w mod 4"
proof -
  have "w AND SYS_SFLIST_FLAGS_MASK = take_bit 2 w" by (simp add: SYS_SFLIST_FLAGS_MASK_def take_bit_eq_mask mask_eq_exp_minus_1)
  then show ?thesis by (simp add: take_bit_eq_mod)
qed

lemma flags_or: "(f::nat) < 4 \<Longrightarrow> a mod 4 = 0 \<Longrightarrow> f OR a = f + a"
proof -
  assume f: "f < 4" "a mod 4 = 0"
  have "take_bit 2 f = f" "a = push_bit 2 (a div 4)" using f by (auto simp: take_bit_eq_mod push_bit_eq_mult)
  then have "f AND a = 0" by (metis (no_types) bit_and_iff bit_eqI bit_0_eq bit_push_bit_iff bit_take_bit_iff bot_apply bot_bool_def linorder_not_le)
  then show ?thesis by (simp add: disjunctive_add_eq_or)
qed

interpretation snode: gen_node z_snode_next_peek z_snode_next_set snode_valid
  by unfold_locales (auto simp: z_snode_next_peek_def z_snode_next_set_def snode_valid_def)

interpretation sfnode: gen_node z_sfnode_next_peek z_sfnode_next_set sfnode_valid
proof unfold_locales
  fix child p c
  assume "sfnode_valid child \<or> child = 0"
  then have "child mod 4 = 0" by (auto simp: sfnode_valid_def)
  then show "z_sfnode_next_peek (z_sfnode_next_set p child c) p = child"
    using flags_or [of "c p mod 4" child]
    by (simp add: z_sfnode_next_peek_def z_sfnode_next_set_def sys_sfnode_flags_get_def flags_mask mod_add_right_eq [symmetric])
qed (auto simp: z_sfnode_next_set_def z_sfnode_next_peek_def sfnode_valid_def)

text \<open>The flags of a node stay as they are whatever is linked.\<close>

lemma flags_next_set:
  assumes "child mod 4 = 0"
  shows "sys_sfnode_flags_get (z_sfnode_next_set p child c) a = sys_sfnode_flags_get c a"
  using flags_or [of "c p mod 4" child] assms
  by (simp add: sys_sfnode_flags_get_def z_sfnode_next_set_def flags_mask mod_add_right_eq [symmetric])

definition sflist_at :: "words \<Rightarrow> gen_list \<Rightarrow> nat list \<Rightarrow> bool" where
  "sflist_at = glist z_sfnode_next_peek sfnode_valid"

lemma next_peek_aligned: "z_sfnode_next_peek c a mod 4 = 0"
  by (simp add: z_sfnode_next_peek_def flags_mask minus_mod_eq_mult_div)

lemma sflist_ends_aligned:
  assumes "sflist_at c l ns"
  shows "list_head l mod 4 = 0" "list_tail l mod 4 = 0"
proof -
  have "n mod 4 = 0" if "n \<in> set ns" for n using sfnode.glist_valid [of c l ns n] assms that by (simp add: sflist_at_def sfnode_valid_def)
  then show "list_head l mod 4 = 0" "list_tail l mod 4 = 0" using assms
    by (cases ns; auto simp: sflist_at_def glist_def)+
qed

lemma sflist_keeps_flags:
  assumes "sflist_at c l ns"
  shows "n mod 4 = 0 \<Longrightarrow> sys_sflist_insert l p n c = (l', c') \<Longrightarrow> sys_sfnode_flags_get c' a = sys_sfnode_flags_get c a"
    "n mod 4 = 0 \<Longrightarrow> sys_sflist_append_list l n t c = (l', c') \<Longrightarrow> sys_sfnode_flags_get c' a = sys_sfnode_flags_get c a"
    "sys_sflist_remove l p n c = (l', c') \<Longrightarrow> sys_sfnode_flags_get c' a = sys_sfnode_flags_get c a"
  using sflist_ends_aligned [OF assms] next_peek_aligned
  by (auto simp: sflist_defs gl_insert_def gl_prepend_def gl_append_def gl_append_list_def gl_remove_def Let_def flags_next_set
      split: if_splits)

section \<open>Properties\<close>

text \<open>
  C37. Searching a node in a list with flags and removing it ends. The result says
  whether the node was in the list, the list then holds the other nodes in
  their order, the flags of all nodes stay, and no word outside the list is
  written.
\<close>

theorem sflist_find_and_remove_ends:
  assumes "sflist_at c l ns"
  shows "\<exists>l' c'. sys_sflist_find_and_remove l n c = Some (n \<in> set ns, l', c') \<and> sflist_at c' l' (remove1 n ns) \<and>
     (\<forall>a. sys_sfnode_flags_get c' a = sys_sfnode_flags_get c a) \<and> (\<forall>a. a \<notin> set ns \<longrightarrow> c' a = c a)"
proof -
  obtain l' c' where f: "gl_find_and_remove z_sfnode_next_peek z_sfnode_next_set l n c = Some (n \<in> set ns, l', c')"
    "sflist_at c' l' (remove1 n ns)" "n \<notin> set ns \<Longrightarrow> l' = l \<and> c' = c" "\<And>a. a \<notin> set ns \<Longrightarrow> c' a = c a"
    using sfnode.find_and_remove_ok [of c l ns n] assms by (metis sflist_at_def)
  have "sys_sfnode_flags_get c' a = sys_sfnode_flags_get c a" for a
  proof (cases "n \<in> set ns")
    case True
    then have "\<exists>p. sys_sflist_remove l p n c = (l', c')"
      using f(1) sfnode.find_loop_ok [of c "list_head l" ns l n 0] assms
      by (auto simp: gl_find_and_remove_def sflist_at_def glist_def sflist_defs)
    then show ?thesis using sflist_keeps_flags(3) [OF assms] by blast
  qed (use f(3) in simp)
  then show ?thesis using f(1,2,4) by (auto simp: sflist_defs)
qed

text \<open>Three nodes at 8, 16 and 24, the second with a flag.\<close>

definition words3 :: words where
  "words3 = (\<lambda>_. 0)(8 := 16, 16 := 24 + 1)"

theorem sflist_find_and_remove_ends_witness:
  "\<exists>l' c'. sys_sflist_find_and_remove \<lparr>list_head = 8, list_tail = 24\<rparr> 16 words3 = Some (True, l', c') \<and>
     sflist_at c' l' [8, 24] \<and> sys_sfnode_flags_get c' 16 = 1"
proof -
  have "sflist_at words3 \<lparr>list_head = 8, list_tail = 24\<rparr> [8, 16, 24]"
    by (simp add: sflist_at_def glist_def sfnode_valid_def z_sfnode_next_peek_def flags_mask words3_def)
  from sflist_find_and_remove_ends [OF this, of 16] show ?thesis
    by (auto simp: sys_sfnode_flags_get_def flags_mask words3_def)
qed

end
