(* ===== verification/Queue.thy ===== *)
theory Queue
  imports Waitq Genlist
begin

text \<open>
  Queues of data items, from \<^verbatim>\<open>kernel/queue.c\<close>, without \<open>CONFIG_POLL\<close>; FIFOs and LIFOs are queues. An item is
  linked through its own first word, or through a node that \<open>queue_insert\<close> allocates
  and marks by a flag. \<open>malloc\<close> stands for \<open>z_thread_malloc\<close> and returns 0 for \<open>NULL\<close>; an operation that
  frees a node gives its address as an extra result, 0 for none.
\<close>

section \<open>Operations\<close>

record k_queue =
  data_q :: gen_list
  queue_wait_q :: wq

text \<open>The data word of an allocated node, after the list node.\<close>

definition anode_data :: "addr \<Rightarrow> addr" where
  "anode_data anode = anode + 4"

definition z_queue_node_peek :: "addr \<Rightarrow> bool \<Rightarrow> words \<Rightarrow> addr \<times> addr" where
  "z_queue_node_peek node needs_free c =
     (if node \<noteq> 0 \<and> sys_sfnode_flags_get c node \<noteq> 0
      then (c (anode_data node), if needs_free then node else 0)
      else (node, 0))"

definition k_queue_init :: "k_queue \<Rightarrow> 'a kernel_scheme \<Rightarrow> k_queue \<times> 'a kernel_scheme" where
  "k_queue_init queue k = (queue\<lparr>data_q := gl_init (data_q queue)\<rparr>, k\<lparr>waitqs := (waitqs k)(queue_wait_q queue := [])\<rparr>)"

definition k_queue_cancel_wait :: "k_queue \<Rightarrow> 'a kernel_scheme \<Rightarrow> 'a kernel_scheme" where
  "k_queue_cancel_wait queue k =
     (let (key, k1) = k_spin_lock k in
      case z_unpend_first_thread (queue_wait_q queue) k1 of
        (Some first_pending_thread, k2) \<Rightarrow> z_reschedule key (wake_with_data first_pending_thread 0 0 k2)
      | (None, k2) \<Rightarrow> z_reschedule key k2)"

text \<open>The node for the item: its own first word, or a new node.\<close>

definition new_node :: "(nat \<Rightarrow> addr) \<Rightarrow> bool \<Rightarrow> addr \<Rightarrow> words \<Rightarrow> (addr \<times> words) option" where
  "new_node malloc alloc data c =
     (if alloc
      then let anode = malloc 8 in
           if anode = 0 then None else Some (anode, sys_sfnode_init anode 1 (c(anode_data anode := data)))
      else Some (data, sys_sfnode_init data 0 c))"

definition queue_insert ::
    "(nat \<Rightarrow> addr) \<Rightarrow> k_queue \<Rightarrow> addr \<Rightarrow> addr \<Rightarrow> bool \<Rightarrow> bool \<Rightarrow> 'a kernel_scheme \<Rightarrow> int \<times> k_queue \<times> 'a kernel_scheme" where
  "queue_insert malloc queue prev data alloc is_append k =
     (let (key, k1) = k_spin_lock k;
          prev = (if is_append then list_tail (data_q queue) else prev)
      in case z_unpend_first_thread (queue_wait_q queue) k1 of
           (Some first_pending_thread, k2) \<Rightarrow> (0, queue, z_reschedule key (wake_with_data first_pending_thread 0 data k2))
         | (None, k2) \<Rightarrow>
             (case new_node malloc alloc data (cells k2) of
                None \<Rightarrow> (- ENOMEM, queue, k_spin_unlock key k2)
              | Some (node, c) \<Rightarrow>
                  (let (list, c1) = sys_sflist_insert (data_q queue) prev node c
                   in (0, queue\<lparr>data_q := list\<rparr>, z_reschedule key (k2\<lparr>cells := c1\<rparr>)))))"

definition k_queue_insert :: "k_queue \<Rightarrow> addr \<Rightarrow> addr \<Rightarrow> 'a kernel_scheme \<Rightarrow> k_queue \<times> 'a kernel_scheme" where
  "k_queue_insert queue prev data k = snd (queue_insert (\<lambda>_. 0) queue prev data False False k)"

definition k_queue_append :: "k_queue \<Rightarrow> addr \<Rightarrow> 'a kernel_scheme \<Rightarrow> k_queue \<times> 'a kernel_scheme" where
  "k_queue_append queue data k = snd (queue_insert (\<lambda>_. 0) queue 0 data False True k)"

definition k_queue_prepend :: "k_queue \<Rightarrow> addr \<Rightarrow> 'a kernel_scheme \<Rightarrow> k_queue \<times> 'a kernel_scheme" where
  "k_queue_prepend queue data k = snd (queue_insert (\<lambda>_. 0) queue 0 data False False k)"

definition k_queue_alloc_append ::
    "(nat \<Rightarrow> addr) \<Rightarrow> k_queue \<Rightarrow> addr \<Rightarrow> 'a kernel_scheme \<Rightarrow> int \<times> k_queue \<times> 'a kernel_scheme" where
  "k_queue_alloc_append malloc queue data k = queue_insert malloc queue 0 data True True k"

definition k_queue_alloc_prepend ::
    "(nat \<Rightarrow> addr) \<Rightarrow> k_queue \<Rightarrow> addr \<Rightarrow> 'a kernel_scheme \<Rightarrow> int \<times> k_queue \<times> 'a kernel_scheme" where
  "k_queue_alloc_prepend malloc queue data k = queue_insert malloc queue 0 data True False k"

text \<open>
  The loop of \<open>k_queue_append_list\<close> gives the items of the list to waiting threads. Every
  round takes a thread from the wait queue, whose length bounds the rounds.
\<close>

fun append_list_loop ::
    "nat \<Rightarrow> wq \<Rightarrow> addr \<Rightarrow> tid option \<Rightarrow> 'a kernel_scheme \<Rightarrow> addr \<times> tid option \<times> 'a kernel_scheme" where
  "append_list_loop 0 q head thread k = (head, thread, k)"
| "append_list_loop (Suc n) q head thread k =
     (case thread of
        None \<Rightarrow> (head, None, k)
      | Some t \<Rightarrow>
          if head = 0 then (head, thread, k)
          else let k1 = wake_with_data t 0 head k;
                   head = cells k1 head;
                   (thread, k2) = z_unpend_first_thread q k1
               in append_list_loop n q head thread k2)"

definition k_queue_append_list :: "k_queue \<Rightarrow> addr \<Rightarrow> addr \<Rightarrow> 'a kernel_scheme \<Rightarrow> int \<times> k_queue \<times> 'a kernel_scheme" where
  "k_queue_append_list queue head tail k =
     (if head = 0 \<or> tail = 0 then (- EINVAL, queue, k)
      else
        let (key, k1) = k_spin_lock k;
            q = queue_wait_q queue;
            (thread, k2) = z_unpend_first_thread q k1;
            (head, thread, k3) = append_list_loop (length (waitqs k q)) q head thread k2;
            (list, c) = (if head \<noteq> 0 then sys_sflist_append_list (data_q queue) head tail (cells k3) else (data_q queue, cells k3))
        in (0, queue\<lparr>data_q := list\<rparr>, z_reschedule key (k3\<lparr>cells := c\<rparr>)))"

definition k_queue_merge_slist ::
    "k_queue \<Rightarrow> gen_list \<Rightarrow> 'a kernel_scheme \<Rightarrow> int \<times> gen_list \<times> k_queue \<times> 'a kernel_scheme" where
  "k_queue_merge_slist queue list k =
     (if gl_is_empty list then (- EINVAL, list, queue, k)
      else
        let (ret, queue1, k1) = k_queue_append_list queue (list_head list) (list_tail list) k
        in if ret \<noteq> 0 then (ret, list, queue1, k1) else (0, gl_init list, queue1, k1))"

definition k_queue_get :: "k_queue \<Rightarrow> ticks \<Rightarrow> 'a kernel_scheme \<Rightarrow> addr outcome \<times> addr \<times> k_queue \<times> 'a kernel_scheme" where
  "k_queue_get queue timeout k =
     (let (key, k1) = k_spin_lock k in
      if \<not> gl_is_empty (data_q queue)
      then let (node, list) = sys_sflist_get_not_empty (data_q queue) (cells k1);
               (data, freed) = z_queue_node_peek node True (cells k1)
           in (Ret data, freed, queue\<lparr>data_q := list\<rparr>, k_spin_unlock key k1)
      else if timeout = K_NO_WAIT then (Ret 0, 0, queue, k_spin_unlock key k1)
      else (Pend, 0, queue, z_pend_curr key (Some (queue_wait_q queue)) timeout k1))"

definition k_queue_get_resume :: "tid \<Rightarrow> 'a kernel_scheme \<Rightarrow> addr" where
  "k_queue_get_resume self k = (if swap_retval (threads k self) \<noteq> 0 then 0 else swap_data (threads k self))"

definition k_queue_remove :: "k_queue \<Rightarrow> addr \<Rightarrow> 'a kernel_scheme \<Rightarrow> (bool \<times> k_queue \<times> 'a kernel_scheme) option" where
  "k_queue_remove queue data k =
     map_option (\<lambda>(ret, list, c). (ret, queue\<lparr>data_q := list\<rparr>, k\<lparr>cells := c\<rparr>)) (sys_sflist_find_and_remove (data_q queue) data (cells k))"

partial_function (option) node_in_loop :: "words \<Rightarrow> addr \<Rightarrow> addr \<Rightarrow> bool option" where
  "node_in_loop c data test =
     (if test = 0 then Some False
      else if test = data then Some True
      else node_in_loop c data (gl_peek_next z_sfnode_next_peek c test))"

definition k_queue_unique_append :: "k_queue \<Rightarrow> addr \<Rightarrow> 'a kernel_scheme \<Rightarrow> (bool \<times> k_queue \<times> 'a kernel_scheme) option" where
  "k_queue_unique_append queue data k =
     (case node_in_loop (cells k) data (list_head (data_q queue)) of
        None \<Rightarrow> None
      | Some True \<Rightarrow> Some (False, queue, k)
      | Some False \<Rightarrow> (let (queue1, k1) = k_queue_append queue data k in Some (True, queue1, k1)))"

definition k_queue_is_empty :: "k_queue \<Rightarrow> bool" where
  "k_queue_is_empty queue = gl_is_empty (data_q queue)"

definition k_queue_peek_head :: "k_queue \<Rightarrow> 'a kernel_scheme \<Rightarrow> addr" where
  "k_queue_peek_head queue k = fst (z_queue_node_peek (list_head (data_q queue)) False (cells k))"

definition k_queue_peek_tail :: "k_queue \<Rightarrow> 'a kernel_scheme \<Rightarrow> addr" where
  "k_queue_peek_tail queue k = fst (z_queue_node_peek (list_tail (data_q queue)) False (cells k))"

section \<open>The queue as a list of items\<close>

definition item :: "words \<Rightarrow> addr \<Rightarrow> addr" where
  "item c n = (if sys_sfnode_flags_get c n \<noteq> 0 then c (anode_data n) else n)"

text \<open>The nodes of a queue; the data words of allocated nodes are not nodes. Threads only wait on an empty queue.\<close>

definition nodes_ok :: "words \<Rightarrow> gen_list \<Rightarrow> addr list \<Rightarrow> bool" where
  "nodes_ok c l ns \<longleftrightarrow> sflist_at c l ns \<and> (\<forall>n \<in> set ns. sys_sfnode_flags_get c n \<noteq> 0 \<longrightarrow> anode_data n \<notin> set ns)"

definition queue_ok :: "k_queue \<Rightarrow> addr list \<Rightarrow> 'a kernel_scheme \<Rightarrow> bool" where
  "queue_ok queue ns k \<longleftrightarrow> nodes_ok (cells k) (data_q queue) ns \<and> (waitqs k (queue_wait_q queue) \<noteq> [] \<longrightarrow> ns = [])"

text \<open>A node that can be added: aligned, not in the queue and apart from the words the queue uses.\<close>

definition addable :: "words \<Rightarrow> addr list \<Rightarrow> bool \<Rightarrow> addr \<Rightarrow> bool" where
  "addable c ns alloc m \<longleftrightarrow> sfnode_valid m \<and> m \<notin> set ns \<and> (\<forall>n \<in> set ns. sys_sfnode_flags_get c n \<noteq> 0 \<longrightarrow> anode_data n \<noteq> m) \<and>
     (alloc \<longrightarrow> anode_data m \<notin> set ns)"

lemma sflist_insert_at:
  assumes "sflist_at c l (xs @ ys)" "prev = (if xs = [] then 0 else last xs)" "n \<notin> set (xs @ ys)" "sfnode_valid n"
    "sys_sflist_insert l prev n c = (l', c')"
  shows "sflist_at c' l' (xs @ n # ys)" "a \<noteq> n \<Longrightarrow> a \<notin> set xs \<Longrightarrow> c' a = c a"
proof -
  have "sflist_at c' l' (xs @ n # ys) \<and> (a \<noteq> n \<longrightarrow> a \<notin> set xs \<longrightarrow> c' a = c a)"
  proof (cases xs rule: rev_cases)
    case Nil
    then have "gl_prepend z_sfnode_next_set l n c = (l', c')" using assms(2,5) by (simp add: sflist_defs gl_insert_def)
    then show ?thesis using sfnode.prepend_ok [of c l ys n l' c'] Nil assms by (simp add: sflist_at_def)
  next
    case (snoc zs p)
    then show ?thesis using sfnode.insert_ok [of c l zs p ys n l' c'] assms by (auto simp: sflist_at_def sflist_defs)
  qed
  then show "sflist_at c' l' (xs @ n # ys)" "a \<noteq> n \<Longrightarrow> a \<notin> set xs \<Longrightarrow> c' a = c a" by auto
qed

lemma sflist_cong: "sflist_at c l ns \<Longrightarrow> (\<And>n. n \<in> set ns \<Longrightarrow> c' n = c n) \<Longrightarrow> sflist_at c' l ns"
  using sfnode.path_cong [of c "list_head l" ns 0 c'] by (simp add: sflist_at_def glist_def)

lemma flags_local: "c' n = c n \<Longrightarrow> sys_sfnode_flags_get c' n = sys_sfnode_flags_get c n"
  by (simp add: sys_sfnode_flags_get_def)

lemma insert_new_node:
  assumes ok: "nodes_ok c l (xs @ ys)" and prev: "prev = (if xs = [] then 0 else last xs)"
    and new: "new_node malloc alloc data c = Some (m, c1)" "addable c (xs @ ys) alloc m"
    and ins: "sys_sflist_insert l prev m c1 = (l', c')"
  shows "nodes_ok c' l' (xs @ m # ys)" "map (item c') (xs @ m # ys) = map (item c) xs @ data # map (item c) ys"
proof -
  let ?ns = "xs @ ys"
  have m: "sfnode_valid m" "m \<notin> set ?ns" "m mod 4 = 0" using new(2) by (auto simp: addable_def sfnode_valid_def)
  have c1: "c1 a = c a" if "a \<noteq> m" "alloc \<longrightarrow> a \<noteq> anode_data m" for a
    using new(1) that by (auto simp: new_node_def sys_sfnode_init_def Let_def split: if_splits)
  have c1m: "sys_sfnode_flags_get c1 m \<noteq> 0 \<longleftrightarrow> alloc" "alloc \<Longrightarrow> c1 (anode_data m) = data" "\<not> alloc \<Longrightarrow> m = data"
    using new(1) by (auto simp: new_node_def sys_sfnode_init_def sys_sfnode_flags_get_def flags_mask anode_data_def Let_def split: if_splits)
  have c1n: "c1 n = c n" if "n \<in> set ?ns" for n using c1 [of n] that new(2) by (auto simp: addable_def)
  have at: "sflist_at c1 l ?ns" by (rule sflist_cong [of c]) (use ok c1n in \<open>auto simp: nodes_ok_def\<close>)
  note i = sflist_insert_at [OF at prev m(2,1) ins]
  have fl: "sys_sfnode_flags_get c' a = sys_sfnode_flags_get c1 a" for a
    using sflist_keeps_flags(1) [OF at m(3) ins] .
  have fln: "sys_sfnode_flags_get c' n = sys_sfnode_flags_get c n" if "n \<in> set ?ns" for n
    using fl flags_local [of c1 n c, OF c1n [OF that]] by simp
  have dn: "c' (anode_data n) = c (anode_data n)" if "n \<in> set ?ns" "sys_sfnode_flags_get c n \<noteq> 0" for n
  proof -
    have "anode_data n \<noteq> m" "anode_data n \<notin> set ?ns" "anode_data n \<noteq> anode_data m"
      using that ok new(2) by (auto simp: nodes_ok_def addable_def anode_data_def)
    then show ?thesis using i(2) [of "anode_data n"] c1 [of "anode_data n"] by simp
  qed
  have itn: "item c' n = item c n" if "n \<in> set ?ns" for n using fln [OF that] dn [OF that] by (simp add: item_def)
  have "c' (anode_data m) = c1 (anode_data m)" if alloc
    using i(2) [of "anode_data m"] that new(2) by (auto simp: addable_def anode_data_def)
  then have "item c' m = data" using fl [of m] c1m by (cases alloc) (auto simp: item_def)
  with itn show "map (item c') (xs @ m # ys) = map (item c) xs @ data # map (item c) ys" by simp
  show "nodes_ok c' l' (xs @ m # ys)"
    unfolding nodes_ok_def
  proof (intro conjI ballI impI)
    fix n assume n: "n \<in> set (xs @ m # ys)" "sys_sfnode_flags_get c' n \<noteq> 0"
    show "anode_data n \<notin> set (xs @ m # ys)"
    proof (cases "n = m")
      case True
      then have alloc using n(2) fl c1m(1) by simp
      then show ?thesis using True new(2) by (auto simp: addable_def anode_data_def)
    next
      case False
      then have "n \<in> set ?ns" using n(1) by auto
      then show ?thesis using n(2) fln ok new(2) by (auto simp: nodes_ok_def addable_def)
    qed
  qed (rule i(1))
qed

section \<open>Properties\<close>

text \<open>
  C20. An insertion into a queue puts the item where it is asked for, at the end, at the
  front or after the node given, and keeps the order of the others, whether
  the item is linked itself or through a node allocated for it. With a thread
  waiting, the item goes to the first one instead and nothing is allocated.
  If the allocation fails, nothing changes.
\<close>

theorem queue_insert_order:
  assumes "kinv k" "awake k" "queue_ok queue (xs @ ys) k" "prev = (if xs = [] then 0 else last xs)"
    "if alloc then malloc 8 = 0 \<or> addable (cells k) (xs @ ys) True (malloc 8) else addable (cells k) (xs @ ys) False data"
    "queue_insert malloc queue prev data alloc is_append k = (r, queue', k')"
  defines "items \<equiv> map (item (cells k))"
  shows "kinv k' \<and>
     (case waitqs k (queue_wait_q queue) of
        [] \<Rightarrow> if alloc \<and> malloc 8 = 0 then r = - ENOMEM \<and> queue' = queue \<and> k' = k
             else r = 0 \<and> (\<exists>ns. queue_ok queue' ns k' \<and>
                 map (item (cells k')) ns = (if is_append then items (xs @ ys) @ [data] else items xs @ data # items ys))
      | t # ts \<Rightarrow> r = 0 \<and> queue' = queue \<and> queue_ok queue [] k' \<and> waitqs k' = (waitqs k)(queue_wait_q queue := ts) \<and>
          k_queue_get_resume t k' = data \<and> released t k k')"
proof (cases "waitqs k (queue_wait_q queue)")
  case Nil
  let ?k = "k\<lparr>irq_unlocked := False\<rparr>" and ?q = "queue_wait_q queue"
  have u: "z_unpend_first_thread ?q ?k = (None, ?k)" using Nil by (simp add: unpend_first_none)
  show ?thesis
  proof (cases "new_node malloc alloc data (cells k)")
    case None
    then have f: "alloc" "malloc 8 = 0" by (auto simp: new_node_def Let_def split: if_splits)
    then show ?thesis using assms(1,6) u None Nil by (auto simp: queue_insert_def k_spin_lock_def k_spin_unlock_def)
  next
    case (Some nc)
    then obtain m c1 where n: "new_node malloc alloc data (cells k) = Some (m, c1)" by (cases nc) auto
    have ad: "addable (cells k) (xs @ ys) alloc m" "\<not> (alloc \<and> malloc 8 = 0)"
      using n assms(5) by (auto simp: new_node_def Let_def split: if_splits)
    have ok: "nodes_ok (cells k) (data_q queue) (xs @ ys)" using assms(3) by (simp add: queue_ok_def)
    define xs' ys' where "xs' = (if is_append then xs @ ys else xs)" and "ys' = (if is_append then [] else ys)"
    define p where "p = (if is_append then list_tail (data_q queue) else prev)"
    have sp: "xs @ ys = xs' @ ys'" by (simp add: xs'_def ys'_def)
    have p: "p = (if xs' = [] then 0 else last xs')"
      using ok assms(4) by (auto simp: p_def xs'_def nodes_ok_def sflist_at_def glist_def)
    obtain l' c' where ins: "sys_sflist_insert (data_q queue) p m c1 = (l', c')" by fastforce
    note i = insert_new_node [OF ok [unfolded sp] p n ad(1) [unfolded sp] ins]
    have e: "r = 0" "queue' = queue\<lparr>data_q := l'\<rparr>" "k' = z_reschedule (irq_unlocked k) (?k\<lparr>cells := c'\<rparr>)"
      using assms(6) u n ins by (auto simp: queue_insert_def k_spin_lock_def p_def)
    have "kinv k'" unfolding e(3) using assms(1) by (intro kinv_reschedule) simp
    moreover have "queue_ok queue' (xs' @ m # ys') k'" using i(1) Nil by (simp add: queue_ok_def e(2,3))
    moreover have "map (item (cells k')) (xs' @ m # ys') = (if is_append then items (xs @ ys) @ [data] else items xs @ data # items ys)"
      using i(2) by (simp add: e(3) items_def xs'_def ys'_def)
    ultimately show ?thesis using Nil e(1) ad(2) by auto
  qed
next
  case (Cons t ts)
  obtain u k1 where u: "z_unpend_first_thread (queue_wait_q queue) (k\<lparr>irq_unlocked := False\<rparr>) = (u, k1)" by fastforce
  note h = handed_over_plain [where key = "irq_unlocked k" and v = 0 and d = data, OF assms(1,2) Cons u disjI2 [OF refl]]
  have "r = 0 \<and> queue' = queue \<and> k' = z_reschedule (irq_unlocked k) (wake_with_data t 0 data k1)"
    using assms(6) u h(1) by (auto simp: queue_insert_def k_spin_lock_def)
  then show ?thesis using h Cons assms(3) by (auto simp: queue_ok_def k_queue_get_resume_def)
qed

text \<open>
  C21. A get takes the first item of the queue and frees the node that was allocated
  for it, and only such a node. On an empty queue it returns \<open>NULL\<close> or blocks.
\<close>

theorem queue_get_first:
  assumes "kinv k" "queue_ok queue ns k" "timeout \<noteq> K_NO_WAIT \<longrightarrow> runs k" "k_queue_get queue timeout k = (res, freed, queue', k')"
  shows "kinv k' \<and>
     (case ns of
        n # ns' \<Rightarrow> res = Ret (item (cells k) n) \<and> freed = (if sys_sfnode_flags_get (cells k) n \<noteq> 0 then n else 0) \<and>
          queue_ok queue' ns' k' \<and> k' = k
      | [] \<Rightarrow> queue' = queue \<and> freed = 0 \<and> queue_ok queue [] k' \<and>
          (if timeout = K_NO_WAIT then res = Ret 0 \<and> k' = k
           else res = Pend \<and> current_thread k \<in> set (waitqs k' (queue_wait_q queue))))"
proof (cases ns)
  case (Cons n ns')
  have at: "glist z_sfnode_next_peek sfnode_valid (cells k) (data_q queue) (n # ns')"
    using assms(2) Cons by (simp add: queue_ok_def nodes_ok_def sflist_at_def)
  obtain m l where g: "sys_sflist_get_not_empty (data_q queue) (cells k) = (m, l)" by fastforce
  have m: "m = n" "sflist_at (cells k) l ns'" using sfnode.get_ok [OF at] g by (auto simp: sflist_defs sflist_at_def)
  have "list_head (data_q queue) \<noteq> 0" "n \<noteq> 0" using sfnode.glist_head [OF at] sfnode.glist_valid [OF at, of n] by (auto simp: sfnode_valid_def)
  then have "res = Ret (item (cells k) n) \<and> freed = (if sys_sfnode_flags_get (cells k) n \<noteq> 0 then n else 0) \<and>
      queue' = queue\<lparr>data_q := l\<rparr> \<and> k' = k"
    using assms(4) g m(1) by (auto simp: k_queue_get_def k_spin_lock_def k_spin_unlock_def gl_is_empty_def z_queue_node_peek_def item_def)
  moreover have "waitqs k (queue_wait_q queue) = []" using assms(2) Cons by (auto simp: queue_ok_def)
  ultimately show ?thesis using assms(1,2) Cons m(2) by (auto simp: queue_ok_def nodes_ok_def)
next
  case Nil
  then have h: "list_head (data_q queue) = 0" using assms(2) by (simp add: queue_ok_def nodes_ok_def sflist_at_def glist_def)
  show ?thesis
  proof (cases "timeout = K_NO_WAIT")
    case True
    then show ?thesis using assms(1,2,4) h Nil by (auto simp: k_queue_get_def k_spin_lock_def k_spin_unlock_def gl_is_empty_def)
  next
    case False
    have i: "kinv (k\<lparr>irq_unlocked := False\<rparr>)" "runs (k\<lparr>irq_unlocked := False\<rparr>)"
      using assms(1,3) False by (simp_all add: runs_def)
    note p = pend_curr_waitqs [OF i, where q = "queue_wait_q queue" and timeout = timeout and key = "irq_unlocked k"]
    then show ?thesis using assms(2,4) h Nil False
      by (auto simp: k_queue_get_def k_spin_lock_def gl_is_empty_def queue_ok_def dumb_add_split)
  qed
qed

text \<open>The items of a list that is passed to \<open>k_queue_append_list\<close>, linked by their first words.\<close>

fun linked_items :: "words \<Rightarrow> addr \<Rightarrow> addr list \<Rightarrow> bool" where
  "linked_items c a [] \<longleftrightarrow> a = 0"
| "linked_items c a (x # xs) \<longleftrightarrow> a = x \<and> x \<noteq> 0 \<and> linked_items c (c x) xs"

text \<open>With more threads waiting than there are items, the loop ends with one thread unpended and left over.\<close>

lemma append_list_left_over:
  assumes "kinv k" "waitqs k q = us @ t # ts" "linked_items (cells k) head xs" "length us = length xs" "length xs \<le> n"
    "z_unpend_first_thread q k = (th, k1)"
  shows "\<exists>k'. append_list_loop n q head th k1 = (0, Some t, k') \<and> kinv_ex {t} k' \<and> waitqs k' q = ts \<and>
     pended_on (threads k' t) = None \<and> \<not> to_linked (ThreadTO t) k' \<and> threads k' t = (z_mark_thread_as_not_pending (threads k t))\<lparr>pended_on := None\<rparr> \<and>
     cells k' = cells k \<and> current_thread k' = current_thread k \<and>
     (\<forall>i < length xs. swap_retval (threads k' (us ! i)) = 0 \<and> swap_data (threads k' (us ! i)) = xs ! i) \<and>
     (\<forall>u. u \<notin> set (us @ [t]) \<longrightarrow> threads k' u = threads k u)"
  using assms
proof (induction xs arbitrary: us k n head th k1)
  case Nil
  then have q: "waitqs k q = t # ts" and h: "head = 0" by simp_all
  note f = kinv_unpend_first [OF Nil.prems(1) q, unfolded Nil.prems(6) fst_conv snd_conv]
  have "append_list_loop n q head th k1 = (0, Some t, k1)" using f(1) h by (cases n) simp_all
  then show ?case using f Nil.prems(4) by simp
next
  case (Cons x xs)
  obtain u us' where us: "us = u # us'" using Cons.prems(4) by (cases us) auto
  obtain m where n: "n = Suc m" using Cons.prems(5) by (cases n) auto
  have q: "waitqs k q = u # us' @ t # ts" using Cons.prems(2) us by simp
  have x: "head = x" "x \<noteq> 0" "linked_items (cells k) (cells k x) xs" using Cons.prems(3) by auto
  have d: "distinct (u # us' @ t # ts)" using sched_wfD(8) [OF kinv_exD(1) [OF Cons.prems(1)], of q] q by simp
  have th: "th = Some u" using kinv_unpend_first(1) [OF Cons.prems(1) q] Cons.prems(6) by simp
  let ?k2 = "wake_with_data u 0 x k1"
  note w = unpend_first_woken [OF Cons.prems(1) q, unfolded Cons.prems(6) snd_conv, OF disjI2 [OF refl], where v = 0 and d = x and m = "mem k1", simplified]
  obtain th2 k3 where u2: "z_unpend_first_thread q ?k2 = (th2, k3)" by fastforce
  have step: "append_list_loop n q head th k1 = append_list_loop m q (cells k x) th2 k3"
    using x(1,2) th u2 w(9) by (simp add: n Let_def)
  have c2: "cells k1 = cells k" using w(9) by simp
  have "linked_items (cells ?k2) (cells k x) xs" "waitqs ?k2 q = us' @ t # ts" using x(3) c2 w(2) by simp_all
  note ih = Cons.IH [OF w(1) this(2,1) _ _ u2, of m]
  then obtain k' where k': "append_list_loop m q (cells k x) th2 k3 = (0, Some t, k')" "kinv_ex {t} k'" "waitqs k' q = ts"
    "pended_on (threads k' t) = None" "\<not> to_linked (ThreadTO t) k'"
    "threads k' t = (z_mark_thread_as_not_pending (threads ?k2 t))\<lparr>pended_on := None\<rparr>"
    "cells k' = cells ?k2" "current_thread k' = current_thread ?k2"
    "\<forall>i < length xs. swap_retval (threads k' (us' ! i)) = 0 \<and> swap_data (threads k' (us' ! i)) = xs ! i"
    "\<forall>u. u \<notin> set (us' @ [t]) \<longrightarrow> threads k' u = threads ?k2 u"
    using Cons.prems(4,5) us n by auto
  have "threads k' u = threads ?k2 u" using k'(10) d by auto
  then have "swap_retval (threads k' u) = 0" "swap_data (threads k' u) = x" by simp_all
  moreover have "threads ?k2 t = threads k t" using w(10) [of t] d by auto
  moreover have "threads k' v = threads k v" if "v \<notin> set (us @ [t])" for v using that k'(10) w(10) [of v] us by auto
  moreover have "current_thread k' = current_thread k" using k'(8) w(5) by simp
  ultimately show ?case using k' step c2 us by (auto simp: nth_Cons split: nat.splits)
qed

text \<open>
  C38. If more threads wait on a queue than the list passed to \<open>k_queue_append_list\<close> has items, the
  first threads get the items in order, and the next thread is lost: it is
  taken off the wait queue and its timeout is cancelled, but it is not made
  ready, so that it is in no queue of the kernel and never runs again.
\<close>

theorem queue_append_list_loses_waiter:
  assumes "kinv k" "awake k" "waitqs k (queue_wait_q queue) = us @ t # ts" "linked_items (cells k) head xs" "xs \<noteq> []"
    "length us = length xs" "tail \<noteq> 0" "thread_state (threads k t) = THREAD_PENDING"
    "k_queue_append_list queue head tail k = (r, queue', k')"
  shows "r = 0 \<and> queue' = queue \<and> (\<forall>i < length xs. k_queue_get_resume (us ! i) k' = xs ! i) \<and>
     waitqs k' (queue_wait_q queue) = ts \<and> (\<forall>q. t \<notin> set (waitqs k' q)) \<and> \<not> to_linked (ThreadTO t) k' \<and>
     z_is_thread_ready t k' \<and> t \<notin> set (runq k')"
proof -
  let ?q = "queue_wait_q queue" and ?k = "k\<lparr>irq_unlocked := False\<rparr>"
  have i: "kinv ?k" "waitqs ?k ?q = us @ t # ts" "linked_items (cells ?k) head xs" "length xs \<le> length (waitqs k ?q)"
    using assms(1,3,4,6) by simp_all
  obtain th k1 where u: "z_unpend_first_thread ?q ?k = (th, k1)" by fastforce
  obtain k3 where k3: "append_list_loop (length (waitqs k ?q)) ?q head th k1 = (0, Some t, k3)" "kinv_ex {t} k3" "waitqs k3 ?q = ts"
    "pended_on (threads k3 t) = None" "\<not> to_linked (ThreadTO t) k3"
    "threads k3 t = (z_mark_thread_as_not_pending (threads k t))\<lparr>pended_on := None\<rparr>"
    "cells k3 = cells k" "current_thread k3 = current_thread k"
    "\<forall>i < length xs. swap_retval (threads k3 (us ! i)) = 0 \<and> swap_data (threads k3 (us ! i)) = xs ! i"
    using append_list_left_over [OF i(1-3) assms(6) i(4) u] by auto
  have hd: "head \<noteq> 0" using assms(4,5) by (cases xs) auto
  have e: "r = 0" "queue' = queue" "k' = z_reschedule (irq_unlocked k) k3"
    using assms(7,9) hd u k3(1) by (auto simp: k_queue_append_list_def k_spin_lock_def)
  note wf = kinv_exD(1) [OF k3(2)]
  have "us ! i \<noteq> current_thread k3" if "i < length xs" for i
    using assms(2,3,6) that k3(8) sched_wfD(9) [OF kinv_exD(1) [OF assms(1)], of "us ! i" ?q] by (auto simp: awake_def)
  then have "k_queue_get_resume (us ! i) k' = xs ! i" if "i < length xs" for i
    using that k3(9) by (simp add: e(3) k_queue_get_resume_def reschedule_retval)
  moreover have l: "\<not> to_linked (ThreadTO t) k'" using k3(5) sched_wfD(12) [OF wf] by (simp add: e(3) reschedule_linked)
  moreover have "z_is_thread_ready t k'"
    using l assms(8) k3(6) by (auto simp: ready_iff e(3) state_flags flag_defs)
  moreover have "t \<notin> set (runq k')" using sched_wfD(3) [OF wf, of t] not_queued_ex [OF wf, of t] by (simp add: e(3))
  moreover have "t \<notin> set (waitqs k' q)" for q using sched_wfD(9) [OF wf, of t q] k3(4) by (simp add: e(3))
  ultimately show ?thesis using e k3(3) by simp
qed

text \<open>Concrete runs: an allocated append, a get of it, and a list of one item for the two threads of \<open>two_waiting\<close>.\<close>

definition queue0 :: k_queue where
  "queue0 = \<lparr>data_q = \<lparr>list_head = 0, list_tail = 0\<rparr>, queue_wait_q = WQ 0\<rparr>"

definition queue1 :: k_queue where
  "queue1 = \<lparr>data_q = \<lparr>list_head = 64, list_tail = 64\<rparr>, queue_wait_q = WQ 0\<rparr>"

theorem queue_insert_order_witness:
  "let (r, queue', k') = queue_insert (\<lambda>n. if n = 8 then 64 else 0) queue0 0 40 True True busy
   in r = 0 \<and> (\<exists>ns. queue_ok queue' ns k' \<and> map (item (cells k')) ns = [40])"
proof -
  obtain r q' k' where p: "queue_insert (\<lambda>n. if n = 8 then 64 else 0) queue0 0 40 True True busy = (r, q', k')" by (rule prod_cases3)
  have ok: "queue_ok queue0 ([] @ []) busy"
    by (simp add: queue_ok_def nodes_ok_def sflist_at_def glist_def queue0_def)
  have "if True then (\<lambda>n. if n = 8 then 64 else 0) (8::nat) = (0::nat) \<or> addable (cells busy) ([] @ []) True ((\<lambda>n. if n = 8 then 64 else 0) (8::nat))
      else addable (cells busy) ([] @ []) False 40"
    by (simp add: addable_def sfnode_valid_def)
  from queue_insert_order [OF busy_kinv busy_facts(2) ok _ this p] busy_facts(3)
  show ?thesis unfolding p by (simp add: queue0_def)
qed

theorem queue_get_first_witness:
  "let k = busy\<lparr>cells := (\<lambda>_. 0)(64 := 1, 68 := 40)\<rparr>; (res, freed, queue', k') = k_queue_get queue1 K_NO_WAIT k
   in res = Ret 40 \<and> freed = 64"
proof -
  let ?k = "busy\<lparr>cells := (\<lambda>_. 0)(64 := 1, 68 := 40)\<rparr>"
  obtain res fr q' k' where p: "k_queue_get queue1 K_NO_WAIT ?k = (res, fr, q', k')" by (rule prod_cases4)
  have "queue_ok queue1 [64] ?k" using busy_facts(3)
    by (simp add: queue_ok_def nodes_ok_def sflist_at_def glist_def queue1_def sfnode_valid_def z_sfnode_next_peek_def flags_mask anode_data_def)
  from queue_get_first [OF _ this _ p] busy_kinv show ?thesis unfolding Let_def p
    by (simp add: item_def sys_sfnode_flags_get_def flags_mask anode_data_def)
qed

theorem queue_append_list_loses_waiter_witness:
  "let (r, queue', k') = k_queue_append_list queue0 40 40 two_waiting
   in r = 0 \<and> k_queue_get_resume 3 k' = 40 \<and> z_is_thread_ready 5 k' \<and> 5 \<notin> set (runq k') \<and> 5 \<notin> set (waitqs k' (WQ 0))"
proof -
  obtain r q' k' where p: "k_queue_append_list queue0 40 40 two_waiting = (r, q', k')" by (rule prod_cases3)
  have c: "cells two_waiting 40 = 0" "thread_state (threads two_waiting 5) = THREAD_PENDING" by code_simp+
  have "waitqs two_waiting (queue_wait_q queue0) = [3] @ 5 # []" using two_waiting_facts(2) by (simp add: queue0_def)
  from queue_append_list_loses_waiter [OF two_waiting_kinv two_waiting_facts(1) this, of 40 "[40]" 40] c p
  show ?thesis unfolding p by (simp add: queue0_def)
qed

end
