(* ===== verification/Events.thy ===== *)
theory Events
  imports Waitq
begin

text \<open>
  Event objects, from \<^verbatim>\<open>kernel/events.c\<close>: 32 flags that threads wait for, any or all of a set of
  them. A post walks the wait queue, collects the threads whose condition is met
  in a list linked through the thread objects, and then wakes this list.
\<close>

section \<open>Operations\<close>

record k_event =
  event_wait_q :: wq
  evts :: u32

definition K_EVENT_WAIT_ANY :: u32 where "K_EVENT_WAIT_ANY = 0"
definition K_EVENT_WAIT_ALL :: u32 where "K_EVENT_WAIT_ALL = 1"
definition K_EVENT_WAIT_MASK :: u32 where "K_EVENT_WAIT_MASK = 1"
definition K_EVENT_WAIT_RESET :: u32 where "K_EVENT_WAIT_RESET = 2"

definition k_event_init :: "k_event \<Rightarrow> 'a kernel_scheme \<Rightarrow> k_event \<times> 'a kernel_scheme" where
  "k_event_init event k = (event\<lparr>evts := 0\<rparr>, k\<lparr>waitqs := (waitqs k)(event_wait_q event := [])\<rparr>)"

definition are_wait_conditions_met :: "u32 \<Rightarrow> u32 \<Rightarrow> u32 \<Rightarrow> bool" where
  "are_wait_conditions_met desired current wait_condition \<longleftrightarrow>
     (let match = current AND desired in
      if wait_condition = K_EVENT_WAIT_ALL then match = desired else match \<noteq> 0)"

definition event_walk_op :: "u32 \<Rightarrow> tid \<Rightarrow> tid option \<times> 'a kernel_scheme \<Rightarrow> int \<times> tid option \<times> 'a kernel_scheme" where
  "event_walk_op es thread d =
     (let (head, k) = d;
          wait_condition = event_options (threads k thread) AND K_EVENT_WAIT_MASK
      in if are_wait_conditions_met (events (threads k thread)) es wait_condition
         then (0, Some thread,
               snd (z_abort_timeout (ThreadTO thread)
                 (upd_thread thread (\<lambda>th. th\<lparr>no_wake_on_timeout := True, next_event_link := head\<rparr>) k)))
         else (0, head, k))"

text \<open>The list of threads is not longer than the wait queue, which bounds the rounds of the wake-up loop.\<close>

fun event_wake_loop :: "nat \<Rightarrow> u32 \<Rightarrow> tid option \<Rightarrow> 'a kernel_scheme \<Rightarrow> 'a kernel_scheme" where
  "event_wake_loop 0 es thread k = k"
| "event_wake_loop (Suc n) es thread k =
     (case thread of
        None \<Rightarrow> k
      | Some t \<Rightarrow>
          let k1 = upd_thread t (\<lambda>th. th\<lparr>events := es\<rparr>) (arch_thread_return_value_set t 0 k);
              next_t = next_event_link (threads k1 t)
          in event_wake_loop n es next_t (z_sched_wake_thread t False k1))"

definition k_event_post_internal :: "k_event \<Rightarrow> u32 \<Rightarrow> u32 \<Rightarrow> 'a kernel_scheme \<Rightarrow> k_event \<times> 'a kernel_scheme" where
  "k_event_post_internal event new events_mask k =
     (let (key, k1) = k_spin_lock k;
          es = (evts event AND NOT events_mask) OR (new AND events_mask);
          q = event_wait_q event;
          (head, k2) = snd (waitq_walk (event_walk_op es) (waitqs k1 q) (None, k1))
      in (event\<lparr>evts := es\<rparr>, z_reschedule key (event_wake_loop (length (waitqs k1 q)) es head k2)))"

definition k_event_post :: "k_event \<Rightarrow> u32 \<Rightarrow> 'a kernel_scheme \<Rightarrow> k_event \<times> 'a kernel_scheme" where
  "k_event_post event es k = k_event_post_internal event es es k"

definition k_event_set :: "k_event \<Rightarrow> u32 \<Rightarrow> 'a kernel_scheme \<Rightarrow> k_event \<times> 'a kernel_scheme" where
  "k_event_set event es k = k_event_post_internal event es (NOT 0) k"

definition k_event_set_masked :: "k_event \<Rightarrow> u32 \<Rightarrow> u32 \<Rightarrow> 'a kernel_scheme \<Rightarrow> k_event \<times> 'a kernel_scheme" where
  "k_event_set_masked event es events_mask k = k_event_post_internal event es events_mask k"

definition k_event_clear :: "k_event \<Rightarrow> u32 \<Rightarrow> 'a kernel_scheme \<Rightarrow> k_event \<times> 'a kernel_scheme" where
  "k_event_clear event es k = k_event_post_internal event 0 es k"

definition k_event_wait_internal ::
    "k_event \<Rightarrow> u32 \<Rightarrow> u32 \<Rightarrow> ticks \<Rightarrow> 'a kernel_scheme \<Rightarrow> u32 outcome \<times> k_event \<times> 'a kernel_scheme" where
  "k_event_wait_internal event es options timeout k =
     (if es = 0 then (Ret 0, event, k)
      else
        let wait_condition = options AND K_EVENT_WAIT_MASK;
            thread = current_thread k;
            (key, k1) = k_spin_lock k;
            event1 = (if options AND K_EVENT_WAIT_RESET \<noteq> 0 then event\<lparr>evts := 0\<rparr> else event)
        in if are_wait_conditions_met es (evts event1) wait_condition
           then (Ret (evts event1 AND es), event1, k_spin_unlock key k1)
           else if timeout = K_NO_WAIT then (Ret (0 AND es), event1, k_spin_unlock key k1)
           else (Pend, event1,
                 z_pend_curr key (Some (event_wait_q event1)) timeout
                   (upd_thread thread (\<lambda>th. th\<lparr>events := es, event_options := options\<rparr>) k1)))"

definition k_event_wait_resume :: "tid \<Rightarrow> u32 \<Rightarrow> 'a kernel_scheme \<Rightarrow> u32" where
  "k_event_wait_resume self es k =
     (let rv = (if swap_retval (threads k self) = 0 then events (threads k self) else 0) in rv AND es)"

definition k_event_wait :: "k_event \<Rightarrow> u32 \<Rightarrow> bool \<Rightarrow> ticks \<Rightarrow> 'a kernel_scheme \<Rightarrow> u32 outcome \<times> k_event \<times> 'a kernel_scheme" where
  "k_event_wait event es do_reset timeout k =
     k_event_wait_internal event es (if do_reset then K_EVENT_WAIT_RESET else 0) timeout k"

definition k_event_wait_all :: "k_event \<Rightarrow> u32 \<Rightarrow> bool \<Rightarrow> ticks \<Rightarrow> 'a kernel_scheme \<Rightarrow> u32 outcome \<times> k_event \<times> 'a kernel_scheme" where
  "k_event_wait_all event es do_reset timeout k =
     k_event_wait_internal event es (if do_reset then K_EVENT_WAIT_RESET OR K_EVENT_WAIT_ALL else K_EVENT_WAIT_ALL) timeout k"

section \<open>The marks on the threads to wake\<close>

text \<open>
  Between the walk and the wake-up the threads to wake are marked so that their
  timeout does not wake them. The wake-up does not depend on the marks and
  removes them.
\<close>

definition retag :: "(tid \<Rightarrow> bool) \<Rightarrow> 'a kernel_scheme \<Rightarrow> 'a kernel_scheme" where
  "retag w k = k\<lparr>threads := \<lambda>t. (threads k t)\<lparr>no_wake_on_timeout := w t\<rparr>\<rparr>"

lemma retag_abort: "z_abort_timeout t (retag w k) = (let (r, k') = z_abort_timeout t k in (r, retag w k'))"
  by (simp add: retag_def z_abort_timeout_def remove_timeout_def Let_def split: option.split)

lemma retag_upd:
  assumes "\<And>th b. f (th\<lparr>no_wake_on_timeout := b\<rparr>) = (f th)\<lparr>no_wake_on_timeout := b\<rparr>"
  shows "upd_thread t f (retag w k) = retag w (upd_thread t f k)"
  using assms by (simp add: retag_def upd_thread_def fun_eq_iff)

lemma retag_mark: "upd_thread t (\<lambda>th. th\<lparr>no_wake_on_timeout := b\<rparr>) (retag w k) = retag (w(t := b)) k"
  by (simp add: retag_def upd_thread_def fun_eq_iff)

lemma retag_add: "z_add_timeout t f n (retag w k) = retag w (z_add_timeout t f n k)"
  by (simp add: retag_def z_add_timeout_def Let_def elapsed_def case_prod_beta first_def next_timeout_def to_linked_def)

lemma retag_reads [simp]:
  "current_thread (retag w k) = current_thread k" "waitqs (retag w k) = waitqs k" "runq (retag w k) = runq k"
  "cells (retag w k) = cells k" "mem (retag w k) = mem k" "in_isr (retag w k) = in_isr k"
  "threads (retag w k) t = (threads k t)\<lparr>no_wake_on_timeout := w t\<rparr>"
  by (simp_all add: retag_def)

lemma tag_flags [simp]:
  "z_is_thread_prevented_from_running (th\<lparr>no_wake_on_timeout := b\<rparr>) = z_is_thread_prevented_from_running th"
  "is_preempt (th\<lparr>no_wake_on_timeout := b\<rparr>) = is_preempt th"
  by (simp_all add: state_flags is_preempt_def preempt_def)

lemma retag_slice: "z_reset_time_slice t (retag w k) = retag w (z_reset_time_slice t k)"
proof -
  have "sliceable t (retag w k') = sliceable t k'" "slice_time t (retag w k') = slice_time t k'" for k' :: "'a kernel_scheme"
    by (simp_all add: sliceable_def slice_time_def) (simp_all add: retag_def)
  moreover have "(retag w k')\<lparr>slice_expired := b\<rparr> = retag w (k'\<lparr>slice_expired := b\<rparr>)" for k' :: "'a kernel_scheme" and b
    by (simp add: retag_def)
  ultimately show ?thesis by (simp add: z_reset_time_slice_def retag_abort Let_def case_prod_beta retag_add)
qed

lemma retag_cache: "update_cache b (retag w k) = retag w (update_cache b k)"
proof -
  have "next_up (retag w k) = next_up k" by (simp add: next_up_def runq_best_def)
  moreover have "should_preempt t b (retag w k) = should_preempt t b k" for t by (simp add: should_preempt_def is_metairq_def)
  moreover have "(retag w k')\<lparr>cache := t\<rparr> = retag w (k'\<lparr>cache := t\<rparr>)" for k' :: "'a kernel_scheme" and t by (simp add: retag_def)
  ultimately show ?thesis by (simp add: update_cache_def Let_def retag_slice)
qed

lemma priq_add_tag: "z_priq_dumb_add (\<lambda>t. (T t)\<lparr>no_wake_on_timeout := w t\<rparr>) t xs = z_priq_dumb_add T t xs"
  by (rule dumb_add_cong) simp_all

lemma retag_queue: "queue_thread t (retag w k) = retag w (queue_thread t k)"
proof -
  have "upd_thread t (z_set_thread_states THREAD_QUEUED) (retag w k) = retag w (upd_thread t (z_set_thread_states THREAD_QUEUED) k)"
    by (rule retag_upd) (simp add: z_set_thread_states_def)
  moreover have "runq_add t (retag w k') = retag w (runq_add t k')" for k' :: "'a kernel_scheme"
    by (simp add: runq_add_def retag_def priq_add_tag)
  ultimately show ?thesis by (simp add: queue_thread_def)
qed

lemma retag_ready: "ready_thread t (retag w k) = retag w (ready_thread t k)"
proof -
  have "z_is_thread_ready t (retag w k) = z_is_thread_ready t k"
    by (simp add: ready_iff) (simp add: retag_def)
  then show ?thesis by (simp add: ready_thread_def retag_queue retag_cache state_flags)
qed

lemma retag_unpend: "unpend_thread_no_timeout t (retag w k) = retag w (unpend_thread_no_timeout t k)"
proof (cases "pended_on (threads k t)")
  case None
  then show ?thesis by (simp add: unpend_thread_no_timeout_def) (simp add: retag_def)
next
  case (Some q)
  have "waitq_remove q t (retag w k) = retag w (waitq_remove q t k)" by (simp add: waitq_remove_def retag_def)
  then show ?thesis using Some
    by (simp add: unpend_thread_no_timeout_def) (rule retag_upd, simp add: z_mark_thread_as_not_pending_def)
qed

lemma retag_wake: "z_sched_wake_thread t False (retag w k) = retag (w(t := False)) (z_sched_wake_thread t False k)"
proof -
  have clear: "upd_thread t (\<lambda>th. th\<lparr>no_wake_on_timeout := False\<rparr>) (retag w k) = retag (w(t := False)) (upd_thread t (\<lambda>th. th\<lparr>no_wake_on_timeout := False\<rparr>) k)"
    by (simp add: retag_def upd_thread_def fun_eq_iff)
  have started: "upd_thread t z_mark_thread_as_started (retag v k') = retag v (upd_thread t z_mark_thread_as_started k')"
    for v and k' :: "'a kernel_scheme"
    by (rule retag_upd) (simp add: z_mark_thread_as_started_def)
  show ?thesis by (simp add: z_sched_wake_thread_def Let_def clear started retag_unpend retag_ready if_distrib)
qed

section \<open>Waking one thread of the list\<close>

lemma wake_thread_fields:
  assumes i: "kinv k" and p: "pended_on (threads k t) = Some q" and alive: "\<not> bit (thread_state (threads k t)) 3"
  defines "k' \<equiv> z_sched_wake_thread t False k"
  shows "kinv k'" "waitqs k' = (waitqs k)(q := remove1 t (waitqs k q))" "current_thread k' = current_thread k"
    "mem k' = mem k" "cells k' = cells k" "\<And>u. u \<noteq> t \<Longrightarrow> threads k' u = threads k u"
    "pended_on (threads k' t) = None" "\<not> z_is_thread_pending (threads k' t)" "swap_retval (threads k' t) = swap_retval (threads k t)"
    "events (threads k' t) = events (threads k t)" "\<And>u. to_linked (ThreadTO u) k' = to_linked (ThreadTO u) k"
    "thread_state (threads k t) = THREAD_PENDING \<Longrightarrow> \<not> to_linked (ThreadTO t) k \<Longrightarrow> t \<in> set (runq k')"
proof -
  note D = kinv_exD [OF i] and W = sched_wfD [OF kinv_exD(1) [OF i]]
  have prev: "z_is_thread_prevented_from_running (threads k t)" using W(10) [of t] p by (simp add: state_flags)
  then have nr: "\<not> z_is_thread_ready t k" by (simp add: ready_iff)
  then have t: "t \<noteq> z_idle_thread" "\<not> queued k t" using W(4) [of t] W(7) by auto
  show kk: "kinv k'" unfolding k'_def using kinv_wake_thread i t by blast
  have "\<not> bit (thread_state (threads k t)) 5" using D(4) by (simp add: quiet_def)
  then have e: "k' = ready_thread t (upd_thread t z_mark_thread_as_started (unpend_thread_no_timeout t
      (upd_thread t (\<lambda>th. th\<lparr>no_wake_on_timeout := False\<rparr>) k)))"
    using alive p by (simp add: k'_def z_sched_wake_thread_def Let_def flag_defs)
  let ?u = "unpend_thread_no_timeout t (upd_thread t (\<lambda>th. th\<lparr>no_wake_on_timeout := False\<rparr>) k)"
  have u: "waitqs ?u = (waitqs k)(q := remove1 t (waitqs k q))"
    "threads ?u = (threads k)(t := (z_mark_thread_as_not_pending (threads k t))\<lparr>no_wake_on_timeout := False, pended_on := None\<rparr>)"
    using p by (auto simp: unpend_thread_no_timeout_def waitq_remove_def z_priq_dumb_remove_def z_mark_thread_as_not_pending_def fun_eq_iff)
  have twf: "timeout_wf ?u" using W(12) p by (simp add: unpend_thread_no_timeout_def waitq_remove_def)
  show "waitqs k' = (waitqs k)(q := remove1 t (waitqs k q))" "current_thread k' = current_thread k" "mem k' = mem k" "cells k' = cells k"
    using u(1) p by (simp_all add: e unpend_thread_no_timeout_def waitq_remove_def)
  show "threads k' x = threads k x" if "x \<noteq> t" for x using that u(2) by (simp add: e ready_thread_other)
  show "pended_on (threads k' t) = None" using u(2) by (simp add: e)
  show "\<not> z_is_thread_pending (threads k' t)" using u(2) by (simp add: e) (simp add: state_flags)
  show "swap_retval (threads k' t) = swap_retval (threads k t)"
    using u(2) by (simp add: e z_mark_thread_as_not_pending_def z_mark_thread_as_started_def)
  show "events (threads k' t) = events (threads k t)"
    using u(2) by (simp add: e ready_thread_def queue_thread_def runq_add_def z_mark_thread_as_started_def z_mark_thread_as_not_pending_def z_set_thread_states_def)
  show l: "to_linked (ThreadTO x) k' = to_linked (ThreadTO x) k" for x
    using twf p by (simp add: e ready_thread_linked unpend_thread_no_timeout_def waitq_remove_def)
  show "t \<in> set (runq k')" if "thread_state (threads k t) = THREAD_PENDING" "\<not> to_linked (ThreadTO t) k"
  proof -
    have "\<not> z_is_thread_prevented_from_running (threads k' t)"
      using that u(2) by (simp add: e) (simp add: state_flags flag_defs)
    then have "z_is_thread_ready t k'" using that(2) l by (simp add: ready_iff)
    then show ?thesis using ready_in_runq [OF kk _ t(1)] by simp
  qed
qed

section \<open>The walk and the wake-up\<close>

definition met :: "u32 \<Rightarrow> k_thread \<Rightarrow> bool" where
  "met es th \<longleftrightarrow> are_wait_conditions_met (events th) es (event_options th AND K_EVENT_WAIT_MASK)"

text \<open>The list of threads that starts at \<open>h\<close>.\<close>

fun event_list :: "(tid \<Rightarrow> k_thread) \<Rightarrow> tid option \<Rightarrow> tid list \<Rightarrow> bool" where
  "event_list T h [] \<longleftrightarrow> h = None"
| "event_list T h (t # ts) \<longleftrightarrow> h = Some t \<and> event_list T (next_event_link (T t)) ts"

lemma event_list_cong: "event_list T h ts \<Longrightarrow> (\<And>t. t \<in> set ts \<Longrightarrow> next_event_link (T' t) = next_event_link (T t)) \<Longrightarrow> event_list T' h ts"
  by (induction ts arbitrary: h) auto

lemma kinv_walk_step:
  assumes "kinv k" "pended_on (threads k t) = Some q"
  shows "kinv (snd (z_abort_timeout (ThreadTO t) (upd_thread t (\<lambda>th. th\<lparr>next_event_link := h\<rparr>) k)))"
proof -
  note W = sched_wfD [OF kinv_exD(1) [OF assms(1)]]
  have prev: "z_is_thread_prevented_from_running (threads k t)" using W(10) [of t] assms(2) by (simp add: state_flags)
  then have t: "t \<noteq> z_idle_thread" "\<not> queued k t" using W(4) [of t] W(7) by (auto simp: ready_iff)
  let ?u = "upd_thread t (\<lambda>th. th\<lparr>next_event_link := h\<rparr>) k"
  have "kinv ?u" by (rule kinv_upd_other [OF assms(1)]) simp_all
  then have "kinv_ex {t} ?u" using t by (intro kinv_transit) (simp_all add: state_flags)
  then have "kinv_ex {t} (snd (z_abort_timeout (ThreadTO t) ?u))" by (rule kinv_abort_timeout) simp
  then show ?thesis by (rule kinv_land) (use prev in \<open>simp add: ready_iff state_flags\<close>)
qed

lemma event_walk:
  fixes es :: u32
  assumes "kinv k" "distinct ts" "\<forall>t \<in> set ts. pended_on (threads k t) = Some q" "event_list (threads k) h acc" "set acc \<inter> set ts = {}"
  defines "ms \<equiv> filter (\<lambda>t. met es (threads k t)) ts"
  shows "\<exists>h' k'. waitq_walk (event_walk_op es) ts (h, retag w k) = (0, h', retag (\<lambda>t. w t \<or> t \<in> set ms) k') \<and> kinv k' \<and>
     event_list (threads k') h' (rev ms @ acc) \<and> waitqs k' = waitqs k \<and> current_thread k' = current_thread k \<and>
     mem k' = mem k \<and> cells k' = cells k \<and>
     (\<forall>t. \<exists>l. threads k' t = (threads k t)\<lparr>next_event_link := l\<rparr>) \<and>
     (\<forall>t. to_linked (ThreadTO t) k' \<longleftrightarrow> to_linked (ThreadTO t) k \<and> t \<notin> set ms)"
  using assms(1-5) unfolding ms_def
proof (induction ts arbitrary: k h acc w)
  case Nil
  have ex: "\<exists>l. threads k t = (threads k t)\<lparr>next_event_link := l\<rparr>" for t by (rule exI [of _ "next_event_link (threads k t)"]) simp
  show ?case using Nil.prems(1,4) by (intro exI [of _ h] exI [of _ k]) (simp add: ex)
next
  case (Cons t ts)
  have op_met: "event_walk_op es t (h, retag w k) =
      (if met es (threads k t)
       then (0, Some t, retag (w(t := True)) (snd (z_abort_timeout (ThreadTO t) (upd_thread t (\<lambda>th. th\<lparr>next_event_link := h\<rparr>) k))))
       else (0, h, retag w k))"
  proof -
    have "upd_thread t (\<lambda>th. th\<lparr>no_wake_on_timeout := True, next_event_link := h\<rparr>) (retag w k) =
        retag (w(t := True)) (upd_thread t (\<lambda>th. th\<lparr>next_event_link := h\<rparr>) k)"
      by (simp add: retag_def upd_thread_def fun_eq_iff)
    then show ?thesis by (simp add: event_walk_op_def met_def Let_def retag_abort case_prod_beta)
  qed
  show ?case
  proof (cases "met es (threads k t)")
    case False
    obtain h' k' where "waitq_walk (event_walk_op es) ts (h, retag w k) = (0, h', retag (\<lambda>u. w u \<or> u \<in> set (filter (\<lambda>u. met es (threads k u)) ts)) k')"
      "kinv k'" "event_list (threads k') h' (rev (filter (\<lambda>u. met es (threads k u)) ts) @ acc)" "waitqs k' = waitqs k"
      "current_thread k' = current_thread k" "mem k' = mem k" "cells k' = cells k" "\<forall>t. \<exists>l. threads k' t = (threads k t)\<lparr>next_event_link := l\<rparr>"
      "\<forall>t. to_linked (ThreadTO t) k' \<longleftrightarrow> to_linked (ThreadTO t) k \<and> t \<notin> set (filter (\<lambda>u. met es (threads k u)) ts)"
      using Cons.IH [OF Cons.prems(1) _ _ Cons.prems(4), of w] Cons.prems(2,3,5) by auto
    then show ?thesis using False op_met by (intro exI [of _ h'] exI [of _ k']) simp
  next
    case True
    let ?k = "snd (z_abort_timeout (ThreadTO t) (upd_thread t (\<lambda>th. th\<lparr>next_event_link := h\<rparr>) k))"
    have kk: "kinv ?k" using kinv_walk_step Cons.prems(1,3) by auto
    have th: "threads ?k u = (if u = t then (threads k t)\<lparr>next_event_link := h\<rparr> else threads k u)" for u by simp
    have m: "met es (threads ?k u) = met es (threads k u)" for u by (simp add: met_def)
    have "event_list (threads ?k) h acc" by (rule event_list_cong [OF Cons.prems(4)]) (use Cons.prems(5) in auto)
    then have el: "event_list (threads ?k) (Some t) (t # acc)" by simp
    have pr: "distinct ts" "\<forall>u \<in> set ts. pended_on (threads ?k u) = Some q" "set (t # acc) \<inter> set ts = {}"
      using Cons.prems(2,3,5) by auto
    from Cons.IH [OF kk pr(1,2) el pr(3), of "w(t := True)", unfolded m] obtain h' k' where r:
      "waitq_walk (event_walk_op es) ts (Some t, retag (w(t := True)) ?k) = (0, h', retag (\<lambda>u. (w(t := True)) u \<or> u \<in> set (filter (\<lambda>u. met es (threads k u)) ts)) k')"
      "kinv k'" "event_list (threads k') h' (rev (filter (\<lambda>u. met es (threads k u)) ts) @ t # acc)" "waitqs k' = waitqs ?k"
      "current_thread k' = current_thread ?k" "mem k' = mem ?k" "cells k' = cells ?k" "\<forall>u. \<exists>l. threads k' u = (threads ?k u)\<lparr>next_event_link := l\<rparr>"
      "\<forall>u. to_linked (ThreadTO u) k' \<longleftrightarrow> to_linked (ThreadTO u) ?k \<and> u \<notin> set (filter (\<lambda>u. met es (threads k u)) ts)"
      by (elim exE conjE)
    have lk: "to_linked (ThreadTO u) ?k \<longleftrightarrow> to_linked (ThreadTO u) k \<and> u \<noteq> t" for u
      using sched_wfD(12) [OF kinv_exD(1) [OF Cons.prems(1)]] by (simp add: linked_abort)
    have "(\<lambda>u. (w(t := True)) u \<or> u \<in> set (filter (\<lambda>u. met es (threads k u)) ts)) = (\<lambda>u. w u \<or> u \<in> set (filter (\<lambda>u. met es (threads k u)) (t # ts)))"
      using True by (auto simp: fun_eq_iff)
    moreover have "\<exists>l. threads k' u = (threads k u)\<lparr>next_event_link := l\<rparr>" for u
      using r(8) [rule_format, of u] by (auto simp: th split: if_splits)
    ultimately show ?thesis using r True op_met lk by (intro exI [of _ h'] exI [of _ k']) auto
  qed
qed

lemma event_wake:
  assumes "kinv k" "distinct ys" "event_list (threads k) h ys" "length ys \<le> n"
    "\<forall>t \<in> set ys. pended_on (threads k t) = Some q \<and> \<not> bit (thread_state (threads k t)) 3 \<and> \<not> to_linked (ThreadTO t) k"
  shows "\<exists>k'. event_wake_loop n es h (retag w k) = retag (\<lambda>t. w t \<and> t \<notin> set ys) k' \<and> kinv k' \<and>
     waitqs k' = (waitqs k)(q := filter (\<lambda>t. t \<notin> set ys) (waitqs k q)) \<and> current_thread k' = current_thread k \<and>
     mem k' = mem k \<and> cells k' = cells k \<and> (\<forall>u. u \<notin> set ys \<longrightarrow> threads k' u = threads k u) \<and>
     (\<forall>u. to_linked (ThreadTO u) k' = to_linked (ThreadTO u) k) \<and>
     (\<forall>t \<in> set ys. pended_on (threads k' t) = None \<and> \<not> z_is_thread_pending (threads k' t) \<and> swap_retval (threads k' t) = 0 \<and>
        events (threads k' t) = es \<and> (thread_state (threads k t) = THREAD_PENDING \<longrightarrow> z_is_thread_ready t k'))"
  using assms
proof (induction ys arbitrary: k h n w)
  case Nil
  have "event_wake_loop n es h (retag w k) = retag w k" using Nil by (cases n) simp_all
  with Nil.prems(1) show ?case by (intro exI [of _ k]) simp
next
  case (Cons y ys)
  obtain m where n: "n = Suc m" using Cons.prems(4) by (cases n) auto
  let ?f = "\<lambda>th. th\<lparr>events := es\<rparr>" and ?l = "next_event_link (threads k y)"
  let ?k1 = "upd_thread y ?f (arch_thread_return_value_set y 0 k)"
  let ?k2 = "z_sched_wake_thread y False ?k1"
  have y: "pended_on (threads k y) = Some q" "\<not> bit (thread_state (threads k y)) 3" "\<not> to_linked (ThreadTO y) k" "h = Some y"
    using Cons.prems(3,5) by auto
  have tag: "upd_thread y ?f (arch_thread_return_value_set y 0 (retag w k)) = retag w ?k1"
    by (simp add: arch_thread_return_value_set_def) (simp add: retag_def upd_thread_def fun_eq_iff)
  have step: "event_wake_loop n es h (retag w k) = event_wake_loop m es ?l (retag (w(y := False)) ?k2)"
    using y(4) by (simp add: n Let_def tag retag_wake) (simp add: arch_thread_return_value_set_def)
  have k1: "kinv ?k1" using Cons.prems(1) by (intro kinv_upd_other kinv_return_value) simp_all
  have y1: "pended_on (threads ?k1 y) = Some q" "\<not> bit (thread_state (threads ?k1 y)) 3"
    using y by (simp_all add: arch_thread_return_value_set_def)
  note f = wake_thread_fields [OF k1 y1]
  have th: "threads ?k2 u = threads k u" if "u \<noteq> y" for u using f(6) [OF that] that by (simp add: arch_thread_return_value_set_def)
  have lk: "to_linked (ThreadTO u) ?k2 = to_linked (ThreadTO u) k" for u using f(11) by (simp add: arch_thread_return_value_set_def)
  have el: "event_list (threads ?k2) ?l ys"
  proof (rule event_list_cong [of "threads k"])
    fix t assume "t \<in> set ys"
    then have "t \<noteq> y" using Cons.prems(2) by auto
    then show "next_event_link (threads ?k2 t) = next_event_link (threads k t)" using th by simp
  qed (use Cons.prems(3) in simp)
  have ys: "\<forall>t \<in> set ys. pended_on (threads ?k2 t) = Some q \<and> \<not> bit (thread_state (threads ?k2 t)) 3 \<and> \<not> to_linked (ThreadTO t) ?k2"
  proof
    fix t assume t: "t \<in> set ys"
    then have "t \<noteq> y" using Cons.prems(2) by auto
    then show "pended_on (threads ?k2 t) = Some q \<and> \<not> bit (thread_state (threads ?k2 t)) 3 \<and> \<not> to_linked (ThreadTO t) ?k2"
      using t th Cons.prems(5) lk by simp
  qed
  have "distinct ys" "length ys \<le> m" using Cons.prems(2,4) n by auto
  from Cons.IH [OF f(1) this(1) el this(2) ys, of "w(y := False)"] obtain k' where r:
    "event_wake_loop m es ?l (retag (w(y := False)) ?k2) = retag (\<lambda>t. (w(y := False)) t \<and> t \<notin> set ys) k'" "kinv k'"
    "waitqs k' = (waitqs ?k2)(q := filter (\<lambda>t. t \<notin> set ys) (waitqs ?k2 q))" "current_thread k' = current_thread ?k2"
    "mem k' = mem ?k2" "cells k' = cells ?k2" "\<forall>u. u \<notin> set ys \<longrightarrow> threads k' u = threads ?k2 u"
    "\<forall>u. to_linked (ThreadTO u) k' = to_linked (ThreadTO u) ?k2"
    "\<forall>t \<in> set ys. pended_on (threads k' t) = None \<and> \<not> z_is_thread_pending (threads k' t) \<and> swap_retval (threads k' t) = 0 \<and>
        events (threads k' t) = es \<and> (thread_state (threads ?k2 t) = THREAD_PENDING \<longrightarrow> z_is_thread_ready t k')"
    by (elim exE conjE)
  have "distinct (waitqs k q)" using sched_wfD(8) [OF kinv_exD(1) [OF Cons.prems(1)]] .
  then have "waitqs k' = (waitqs k)(q := filter (\<lambda>t. t \<notin> set (y # ys)) (waitqs k q))"
    using r(3) f(2) by (simp add: arch_thread_return_value_set_def distinct_remove1_removeAll removeAll_filter_not_eq fun_eq_iff)
      (auto intro!: filter_cong)
  moreover have "(\<lambda>t. (w(y := False)) t \<and> t \<notin> set ys) = (\<lambda>t. w t \<and> t \<notin> set (y # ys))" by (auto simp: fun_eq_iff)
  moreover have "threads k' u = threads k u" if "u \<notin> set (y # ys)" for u using that r(7) th by auto
  moreover have yk: "threads k' y = threads ?k2 y" using r(7) Cons.prems(2) by auto
  moreover have "z_is_thread_ready y k'" if "thread_state (threads k y) = THREAD_PENDING"
  proof -
    have "y \<in> set (runq ?k2)" using f(12) that y(3) by (simp add: arch_thread_return_value_set_def)
    then have "z_is_thread_ready y ?k2" using sched_wfD(3,4) [OF kinv_exD(1) [OF f(1)]] by blast
    then show ?thesis using yk r(8) by (simp add: ready_iff)
  qed
  moreover have "thread_state (threads ?k2 t) = thread_state (threads k t)" if "t \<in> set ys" for t
    using th [of t] that Cons.prems(2) by (cases "t = y") simp_all
  ultimately show ?case using step r(1,2,4-6,8,9) f(3-5,7-10) lk
    by (intro exI [of _ k']) (simp add: arch_thread_return_value_set_def)
qed

section \<open>Properties\<close>

lemma retag_none: "kinv k \<Longrightarrow> retag (\<lambda>_. False) k = k"
proof -
  assume "kinv k"
  from kinv_exD(4) [OF this] have "\<not> no_wake_on_timeout (threads k t)" for t by (simp add: quiet_def)
  then have "(\<lambda>t. (threads k t)\<lparr>no_wake_on_timeout := False\<rparr>) = threads k" by (simp add: fun_eq_iff)
  then show ?thesis by (simp add: retag_def)
qed

text \<open>The state before the scheduling point of a post, with \<open>ms\<close> the threads to wake.\<close>

lemma event_post_state:
  fixes new emask :: u32
  assumes "kinv k" "k_event_post_internal event new emask k = (event', k')"
    "\<forall>t \<in> set (waitqs k (event_wait_q event)). \<not> bit (thread_state (threads k t)) 3"
  defines "q \<equiv> event_wait_q event" and "es \<equiv> (evts event AND NOT emask) OR (new AND emask)"
    and "ms \<equiv> filter (\<lambda>t. met ((evts event AND NOT emask) OR (new AND emask)) (threads k t)) (waitqs k (event_wait_q event))"
  obtains k3 where "event' = event\<lparr>evts := es\<rparr>" "k' = z_reschedule (irq_unlocked k) k3" "kinv k3"
    "waitqs k3 = (waitqs k)(q := filter (\<lambda>t. t \<notin> set ms) (waitqs k q))" "current_thread k3 = current_thread k"
    "\<And>t. to_linked (ThreadTO t) k3 \<longleftrightarrow> to_linked (ThreadTO t) k \<and> t \<notin> set ms"
    "\<And>t. t \<in> set ms \<Longrightarrow> pended_on (threads k3 t) = None \<and> swap_retval (threads k3 t) = 0 \<and> events (threads k3 t) = es \<and>
       (thread_state (threads k t) = THREAD_PENDING \<longrightarrow> z_is_thread_ready t k3)"
proof -
  let ?k = "k\<lparr>irq_unlocked := False\<rparr>"
  have ms: "ms = filter (\<lambda>t. met es (threads k t)) (waitqs k q)" by (simp add: ms_def es_def q_def)
  note W = sched_wfD [OF kinv_exD(1) [OF assms(1)]]
  have i: "kinv ?k" "distinct (waitqs k q)" "\<forall>t \<in> set (waitqs k q). pended_on (threads ?k t) = Some q"
    using assms(1) W(8,9) by auto
  obtain h k2 where w: "waitq_walk (event_walk_op es) (waitqs k q) (None, retag (\<lambda>_. False) ?k) = (0, h, retag (\<lambda>t. False \<or> t \<in> set ms) k2)"
    "kinv k2" "event_list (threads k2) h (rev ms @ [])" "waitqs k2 = waitqs ?k" "current_thread k2 = current_thread ?k"
    "mem k2 = mem ?k" "cells k2 = cells ?k" "\<forall>t. \<exists>l. threads k2 t = (threads ?k t)\<lparr>next_event_link := l\<rparr>"
    "\<forall>t. to_linked (ThreadTO t) k2 \<longleftrightarrow> to_linked (ThreadTO t) ?k \<and> t \<notin> set ms"
    using event_walk [OF i, of None "[]" es "\<lambda>_. False"] by (auto simp: ms)
  have t2: "pended_on (threads k2 t) = pended_on (threads k t)" "thread_state (threads k2 t) = thread_state (threads k t)" for t
    using w(8) [rule_format, of t] by auto
  have ys: "\<forall>t \<in> set (rev ms). pended_on (threads k2 t) = Some q \<and> \<not> bit (thread_state (threads k2 t)) 3 \<and> \<not> to_linked (ThreadTO t) k2"
    using assms(3) i(3) t2 w(9) by (auto simp: ms q_def)
  have "event_list (threads k2) h (rev ms)" "distinct (rev ms)" "length (rev ms) \<le> length (waitqs k q)"
    using w(3) i(2) by (auto simp: ms)
  from event_wake [OF w(2) this(2,1,3) ys, of es "\<lambda>t. False \<or> t \<in> set ms"] obtain k3 where r:
    "event_wake_loop (length (waitqs k q)) es h (retag (\<lambda>t. False \<or> t \<in> set ms) k2) = retag (\<lambda>t. (False \<or> t \<in> set ms) \<and> t \<notin> set (rev ms)) k3"
    "kinv k3" "waitqs k3 = (waitqs k2)(q := filter (\<lambda>t. t \<notin> set (rev ms)) (waitqs k2 q))" "current_thread k3 = current_thread k2"
    "\<forall>u. u \<notin> set (rev ms) \<longrightarrow> threads k3 u = threads k2 u" "\<forall>u. to_linked (ThreadTO u) k3 = to_linked (ThreadTO u) k2"
    "\<forall>t \<in> set (rev ms). pended_on (threads k3 t) = None \<and> \<not> z_is_thread_pending (threads k3 t) \<and> swap_retval (threads k3 t) = 0 \<and>
        events (threads k3 t) = es \<and> (thread_state (threads k2 t) = THREAD_PENDING \<longrightarrow> z_is_thread_ready t k3)"
    by (elim exE conjE)
  have "(\<lambda>t. (False \<or> t \<in> set ms) \<and> t \<notin> set (rev ms)) = (\<lambda>_. False)" by auto
  then have loop: "event_wake_loop (length (waitqs k q)) es h (retag (\<lambda>t. False \<or> t \<in> set ms) k2) = k3"
    using r(1) retag_none [OF r(2)] by simp
  have e: "event' = event\<lparr>evts := es\<rparr>" "k' = z_reschedule (irq_unlocked k) k3"
    using assms(2) w(1) loop retag_none [OF i(1)] by (auto simp: k_event_post_internal_def k_spin_lock_def q_def es_def)
  show ?thesis
  proof (rule that [OF e r(2)])
    show "waitqs k3 = (waitqs k)(q := filter (\<lambda>t. t \<notin> set ms) (waitqs k q))" "current_thread k3 = current_thread k"
      using r(3,4) w(4,5) by simp_all
    show "to_linked (ThreadTO t) k3 \<longleftrightarrow> to_linked (ThreadTO t) k \<and> t \<notin> set ms" for t using r(6) w(9) by simp
    show "pended_on (threads k3 t) = None \<and> swap_retval (threads k3 t) = 0 \<and> events (threads k3 t) = es \<and>
       (thread_state (threads k t) = THREAD_PENDING \<longrightarrow> z_is_thread_ready t k3)" if "t \<in> set ms" for t
      using r(7) that t2(2) [of t] by simp
  qed
qed

text \<open>
  C16. A change of the events wakes exactly the waiting threads whose condition then
  holds, all of them in one step: each gets those of the events it asked for,
  at least one and with \<open>k_event_wait_all\<close> all of them, its timeout is cancelled and it is
  ready. The other threads wait on in their order with their timeouts.
\<close>

theorem event_post_wakes:
  assumes "kinv k" "awake k" "k_event_post_internal event new emask k = (event', k')"
    "\<forall>t \<in> set (waitqs k (event_wait_q event)). \<not> bit (thread_state (threads k t)) 3 \<and> events (threads k t) \<noteq> 0"
  defines "q \<equiv> event_wait_q event" and "es \<equiv> (evts event AND NOT emask) OR (new AND emask)"
  shows "kinv k' \<and> evts event' = es \<and> waitqs k' = (waitqs k)(q := filter (\<lambda>t. \<not> met es (threads k t)) (waitqs k q)) \<and>
     (\<forall>t \<in> set (waitqs k q). let desired = events (threads k t); got = k_event_wait_resume t desired k' in
        if met es (threads k t)
        then got = es AND desired \<and> got \<noteq> 0 \<and>
          (event_options (threads k t) AND K_EVENT_WAIT_MASK = K_EVENT_WAIT_ALL \<longrightarrow> got = desired) \<and>
          pended_on (threads k' t) = None \<and> \<not> to_linked (ThreadTO t) k' \<and>
          (thread_state (threads k t) = THREAD_PENDING \<longrightarrow> t \<in> set (runq k'))
        else to_linked (ThreadTO t) k' = to_linked (ThreadTO t) k)"
proof -
  define ms where "ms = filter (\<lambda>t. met es (threads k t)) (waitqs k q)"
  note W = sched_wfD [OF kinv_exD(1) [OF assms(1)]]
  obtain k3 where r: "event' = event\<lparr>evts := es\<rparr>" "k' = z_reschedule (irq_unlocked k) k3" "kinv k3"
    "waitqs k3 = (waitqs k)(q := filter (\<lambda>t. t \<notin> set ms) (waitqs k q))" "current_thread k3 = current_thread k"
    "\<And>t. to_linked (ThreadTO t) k3 \<longleftrightarrow> to_linked (ThreadTO t) k \<and> t \<notin> set ms"
    "\<And>t. t \<in> set ms \<Longrightarrow> pended_on (threads k3 t) = None \<and> swap_retval (threads k3 t) = 0 \<and> events (threads k3 t) = es \<and>
       (thread_state (threads k t) = THREAD_PENDING \<longrightarrow> z_is_thread_ready t k3)"
    using event_post_state [OF assms(1,3)] assms(4) unfolding ms_def q_def es_def by blast
  have kk: "kinv k'" using kinv_reschedule(1) [OF r(3)] by (simp add: r(2))
  have wq: "waitqs k' = (waitqs k)(q := filter (\<lambda>t. \<not> met es (threads k t)) (waitqs k q))"
    using r(4) by (auto simp: r(2) ms_def intro!: filter_cong)
  have lk: "to_linked (ThreadTO t) k' \<longleftrightarrow> to_linked (ThreadTO t) k \<and> t \<notin> set ms" for t
    using r(6) sched_wfD(12) [OF kinv_exD(1) [OF r(3)]] by (simp add: r(2) reschedule_linked)
  have ev: "events (threads (z_reschedule b s) t) = events (threads s t)" for b t and s :: "'a kernel_scheme"
    by (auto simp: z_reschedule_def z_swap_def do_swap_def Let_def k_spin_unlock_def)
  have woken: "swap_retval (threads k' t) = 0 \<and> events (threads k' t) = es \<and> pended_on (threads k' t) = None \<and>
      (thread_state (threads k t) = THREAD_PENDING \<longrightarrow> t \<in> set (runq k'))" if "t \<in> set ms" for t
  proof -
    have p: "pended_on (threads k t) = Some q" using that W(9) [of t q] by (auto simp: ms_def)
    have "t \<noteq> current_thread k3" using p assms(2) r(5) by (auto simp: awake_def)
    moreover have "t \<noteq> z_idle_thread" using p W(7) W(10) [of t] by (auto simp: ready_iff state_flags)
    ultimately show ?thesis using r(7) that ready_in_runq [OF r(3)] by (auto simp: r(2) ev reschedule_retval)
  qed
  show ?thesis
  proof (intro conjI ballI)
    fix t assume t: "t \<in> set (waitqs k q)"
    show "let desired = events (threads k t); got = k_event_wait_resume t desired k' in
        if met es (threads k t)
        then got = es AND desired \<and> got \<noteq> 0 \<and>
          (event_options (threads k t) AND K_EVENT_WAIT_MASK = K_EVENT_WAIT_ALL \<longrightarrow> got = desired) \<and>
          pended_on (threads k' t) = None \<and> \<not> to_linked (ThreadTO t) k' \<and>
          (thread_state (threads k t) = THREAD_PENDING \<longrightarrow> t \<in> set (runq k'))
        else to_linked (ThreadTO t) k' = to_linked (ThreadTO t) k"
    proof (cases "met es (threads k t)")
      case True
      then have tm: "t \<in> set ms" using t by (simp add: ms_def)
      have "es AND events (threads k t) \<noteq> 0"
        "event_options (threads k t) AND K_EVENT_WAIT_MASK = K_EVENT_WAIT_ALL \<longrightarrow> es AND events (threads k t) = events (threads k t)"
        using True assms(4) t by (auto simp: met_def are_wait_conditions_met_def Let_def q_def split: if_splits)
      then show ?thesis using woken [OF tm] lk [of t] tm True by (auto simp: k_event_wait_resume_def Let_def)
    next
      case False
      then show ?thesis using lk [of t] by (auto simp: ms_def)
    qed
  qed (use kk wq r(1) in simp_all)
qed

text \<open>
  A concrete run: thread 3 of \<open>two_waiting\<close> waits for two events and thread 5 for any of
  them; one event is posted.
\<close>

definition event0 :: k_event where
  "event0 = \<lparr>event_wait_q = WQ 0, evts = 0\<rparr>"

definition event_waiters :: kernel where
  "event_waiters = upd_thread 3 (\<lambda>th. th\<lparr>events := 3, event_options := 1\<rparr>) (upd_thread 5 (\<lambda>th. th\<lparr>events := 3, event_options := 0\<rparr>) two_waiting)"

theorem event_post_wakes_witness:
  "let (event', k') = k_event_post_internal event0 1 1 event_waiters
   in kinv k' \<and> waitqs k' (WQ 0) = [3] \<and> k_event_wait_resume 5 3 k' = 1"
proof -
  obtain e' k' where p: "k_event_post_internal event0 1 1 event_waiters = (e', k')" by fastforce
  have i: "kinv event_waiters" unfolding event_waiters_def by (intro kinv_upd_other two_waiting_kinv) simp_all
  have wq: "waitqs event_waiters (WQ 0) = [3, 5]" "awake event_waiters"
    using two_waiting_facts by (auto simp: event_waiters_def awake_def)
  have st: "thread_state (threads two_waiting 5) = THREAD_PENDING" "thread_state (threads two_waiting 3) = THREAD_PENDING" by code_simp+
  then have "\<forall>t \<in> set (waitqs event_waiters (event_wait_q event0)). \<not> bit (thread_state (threads event_waiters t)) 3 \<and> events (threads event_waiters t) \<noteq> 0"
    using wq(1) by (simp add: event0_def) (simp add: event_waiters_def flag_defs)
  note e = event_post_wakes [OF i wq(2) p this]
  have m: "met 1 (threads event_waiters 5)" "\<not> met 1 (threads event_waiters 3)"
    by (simp_all add: met_def event_waiters_def are_wait_conditions_met_def K_EVENT_WAIT_ALL_def K_EVENT_WAIT_MASK_def)
  have "events (threads event_waiters 5) = 3" by (simp add: event_waiters_def)
  then show ?thesis unfolding p using e wq(1) m by (simp add: event0_def Let_def)
qed

end
