(* ===== verification/Timer.thy ===== *)
theory Timer
  imports Waitq
begin

text \<open>
  Kernel timers, from \<^verbatim>\<open>kernel/timer.c\<close>, and the announcement of ticks to the whole kernel, from
  \<^verbatim>\<open>kernel/timeout.c\<close>: the callbacks of threads, of the time slice and of timers. The functions
  of the application that a timer calls on expiry and on stop are arguments; a
  timer has a flag for each that says whether its pointer is set.
\<close>

section \<open>Operations\<close>

record k_timer =
  timer_wait_q :: wq
  expiry_set :: bool
  stop_set :: bool
  period :: ticks
  status :: u32
  user_data :: addr

record timer_kernel = kernel +
  timers :: "nat \<Rightarrow> k_timer"

definition upd_timer :: "nat \<Rightarrow> (k_timer \<Rightarrow> k_timer) \<Rightarrow> 'a timer_kernel_scheme \<Rightarrow> 'a timer_kernel_scheme" where
  "upd_timer n f k = k\<lparr>timers := (timers k)(n := f (timers k n))\<rparr>"

definition K_TIMEOUT_ABS_TICKS :: "ticks \<Rightarrow> ticks" where
  "K_TIMEOUT_ABS_TICKS t = Z_TICK_ABS (max t 0)"

type_synonym 'a timer_fn = "nat \<Rightarrow> 'a timer_kernel_scheme \<Rightarrow> 'a timer_kernel_scheme"

definition timer_rearm :: "nat \<Rightarrow> 'a timer_kernel_scheme \<Rightarrow> 'a timer_kernel_scheme" where
  "timer_rearm n k =
     (let p = period (timers k n) in
      if p \<noteq> K_NO_WAIT \<and> p \<noteq> K_FOREVER
      then let next_ticks = max (p - 1) 0
           in z_add_timeout (TimerTO n) Z_timer_expiration_handler
                (K_TIMEOUT_ABS_TICKS (sys_clock_tick_get k + 1 + next_ticks)) k
      else k)"

definition timer_wake :: "nat \<Rightarrow> 'a timer_kernel_scheme \<Rightarrow> 'a timer_kernel_scheme" where
  "timer_wake n k =
     (case z_waitq_head (timer_wait_q (timers k n)) k of
        None \<Rightarrow> k
      | Some thread \<Rightarrow> z_ready_thread thread (arch_thread_return_value_set thread 0 (z_unpend_thread_no_timeout thread k)))"

definition z_timer_expiration_handler :: "'a timer_fn \<Rightarrow> nat \<Rightarrow> 'a timer_kernel_scheme \<Rightarrow> 'a timer_kernel_scheme" where
  "z_timer_expiration_handler expiry_fn n k =
     (if to_linked (TimerTO n) k then k
      else
        let k1 = upd_timer n (\<lambda>timer. timer\<lparr>status := status timer + 1\<rparr>) (timer_rearm n k);
            k2 = (if expiry_set (timers k1 n) then expiry_fn n k1 else k1)
        in timer_wake n k2)"

definition k_timer_init :: "nat \<Rightarrow> bool \<Rightarrow> bool \<Rightarrow> 'a timer_kernel_scheme \<Rightarrow> 'a timer_kernel_scheme" where
  "k_timer_init n expiry stop k =
     upd_timer n (\<lambda>timer. timer\<lparr>expiry_set := expiry, stop_set := stop, status := 0, user_data := 0\<rparr>)
       (k\<lparr>waitqs := (waitqs k)(timer_wait_q (timers k n) := [])\<rparr>)"

definition k_timer_start :: "nat \<Rightarrow> ticks \<Rightarrow> ticks \<Rightarrow> 'a timer_kernel_scheme \<Rightarrow> 'a timer_kernel_scheme" where
  "k_timer_start n duration p k =
     (if duration = K_FOREVER then k
      else
        let d = (if Z_TICK_ABS duration < 0 then max (duration - 1) 0 else duration);
            k1 = snd (z_abort_timeout (TimerTO n) k);
            k2 = upd_timer n (\<lambda>timer. timer\<lparr>period := p, status := 0\<rparr>) k1
        in z_add_timeout (TimerTO n) Z_timer_expiration_handler d k2)"

definition k_timer_stop :: "'a timer_fn \<Rightarrow> nat \<Rightarrow> 'a timer_kernel_scheme \<Rightarrow> 'a timer_kernel_scheme" where
  "k_timer_stop stop_fn n k =
     (let (r, k1) = z_abort_timeout (TimerTO n) k in
      if r \<noteq> 0 then k1
      else
        let k2 = (if stop_set (timers k1 n) then stop_fn n k1 else k1) in
        case z_unpend1_no_timeout (timer_wait_q (timers k2 n)) k2 of
          (None, k3) \<Rightarrow> k3
        | (Some pending_thread, k3) \<Rightarrow> z_reschedule_unlocked (z_ready_thread pending_thread k3))"

definition k_timer_status_get :: "nat \<Rightarrow> 'a timer_kernel_scheme \<Rightarrow> u32 \<times> 'a timer_kernel_scheme" where
  "k_timer_status_get n k = (status (timers k n), upd_timer n (\<lambda>timer. timer\<lparr>status := 0\<rparr>) k)"

definition k_timer_status_sync :: "nat \<Rightarrow> 'a timer_kernel_scheme \<Rightarrow> u32 outcome \<times> 'a timer_kernel_scheme" where
  "k_timer_status_sync n k =
     (let (key, k1) = k_spin_lock k;
          result = status (timers k1 n)
      in if result = 0 \<and> \<not> z_is_inactive_timeout (TimerTO n) k1
         then (Pend, z_pend_curr key (Some (timer_wait_q (timers k1 n))) K_FOREVER k1)
         else (Ret result, k_spin_unlock key (upd_timer n (\<lambda>timer. timer\<lparr>status := 0\<rparr>) k1)))"

definition k_timer_status_sync_resume :: "nat \<Rightarrow> 'a timer_kernel_scheme \<Rightarrow> u32 \<times> 'a timer_kernel_scheme" where
  "k_timer_status_sync_resume n k = (status (timers k n), upd_timer n (\<lambda>timer. timer\<lparr>status := 0\<rparr>) k)"

definition k_timer_expires_ticks :: "nat \<Rightarrow> 'a timer_kernel_scheme \<Rightarrow> ticks" where
  "k_timer_expires_ticks n k = z_timeout_expires (TimerTO n) k"

definition k_timer_remaining_ticks :: "nat \<Rightarrow> 'a timer_kernel_scheme \<Rightarrow> ticks" where
  "k_timer_remaining_ticks n k = z_timeout_remaining (TimerTO n) k"

definition k_timer_remaining_get :: "clock_config \<Rightarrow> nat \<Rightarrow> 'a timer_kernel_scheme \<Rightarrow> u32" where
  "k_timer_remaining_get c n k = k_ticks_to_ms_floor32 c (word_of_int (k_timer_remaining_ticks n k))"

definition k_timer_user_data_set :: "nat \<Rightarrow> addr \<Rightarrow> 'a timer_kernel_scheme \<Rightarrow> 'a timer_kernel_scheme" where
  "k_timer_user_data_set n data k = upd_timer n (\<lambda>timer. timer\<lparr>user_data := data\<rparr>) k"

definition k_timer_user_data_get :: "nat \<Rightarrow> 'a timer_kernel_scheme \<Rightarrow> addr" where
  "k_timer_user_data_get n k = user_data (timers k n)"

text \<open>The call through the function pointer of an expired timeout; a pointer of another kind of object is a fault.\<close>

definition run_timeout :: "'a timer_fn \<Rightarrow> timeout_fn \<Rightarrow> timeout_id \<Rightarrow> 'a timer_kernel_scheme \<Rightarrow> 'a timer_kernel_scheme" where
  "run_timeout expiry_fn fn t k =
     (case (fn, t) of
        (Z_thread_timeout, ThreadTO thread) \<Rightarrow> z_thread_timeout thread k
      | (Slice_timeout, SliceTO) \<Rightarrow> slice_timeout k
      | (Z_timer_expiration_handler, TimerTO n) \<Rightarrow> z_timer_expiration_handler expiry_fn n k
      | _ \<Rightarrow> k\<lparr>fault := True\<rparr>)"

definition sys_clock_announce :: "'a timer_fn \<Rightarrow> int \<Rightarrow> 'a timer_kernel_scheme \<Rightarrow> 'a timer_kernel_scheme option" where
  "sys_clock_announce expiry_fn ticks k = map_option z_time_slice (announce_timeouts (run_timeout expiry_fn) ticks k)"

section \<open>Callbacks do not go back in time\<close>

definition fn_of :: "timeout_id \<Rightarrow> timeout_fn" where
  "fn_of t = (case t of ThreadTO _ \<Rightarrow> Z_thread_timeout | SliceTO \<Rightarrow> Slice_timeout | TimerTO _ \<Rightarrow> Z_timer_expiration_handler)"

definition fn_ok :: "'a timeout_state_scheme \<Rightarrow> bool" where
  "fn_ok s \<longleftrightarrow> (\<forall>t. to_linked t s \<longrightarrow> to_fn (timeouts s t) = fn_of t)"

text \<open>
  A step of the kernel inside a callback: the clock stands, and every timeout it
  links expires later than now.
\<close>

definition later :: "'a timeout_state_scheme \<Rightarrow> 'a timeout_state_scheme \<Rightarrow> bool" where
  "later s s' \<longleftrightarrow> curr_tick s' = curr_tick s \<and> announce_remaining s' = announce_remaining s \<and> clk_elapsed s' = clk_elapsed s \<and>
     (fn_ok s \<longrightarrow> fn_ok s') \<and>
     (\<forall>u. to_linked u s' \<longrightarrow> to_linked u s \<and> deadline s' u = deadline s u \<or> curr_tick s < deadline s' u)"

lemma later_refl: "later s s"
  by (simp add: later_def)

lemma later_trans: "later s1 s2 \<Longrightarrow> later s2 s3 \<Longrightarrow> later s1 s3"
  by (auto simp: later_def) metis+

lemma later_frame:
  assumes "curr_tick s' = curr_tick s" "announce_remaining s' = announce_remaining s" "clk_elapsed s' = clk_elapsed s"
    "timeouts s' = timeouts s" "timeout_list s' = timeout_list s"
  shows "later s s'"
  using assms by (simp add: later_def fn_ok_def to_linked_def deadline_def)

lemma abort_fn: "to_fn (timeouts (snd (z_abort_timeout t s)) u) = to_fn (timeouts s u)"
  by (simp add: z_abort_timeout_def remove_timeout_def Let_def split: option.split)

lemma later_abort: "timeout_wf s \<Longrightarrow> later s (snd (z_abort_timeout t s))"
  by (auto simp: later_def fn_ok_def abort_fn deadline_abort)

lemma later_add:
  assumes "timeout_wf s" "\<not> to_linked t s" "0 \<le> clk_elapsed s"
  shows "later s (z_add_timeout t (fn_of t) n s)"
proof (cases "n = K_FOREVER")
  case True
  then show ?thesis by (simp add: z_add_timeout_def later_refl)
next
  case False
  obtain T l where a: "add_loop ((timeouts s)(t := \<lparr>to_fn = fn_of t, dticks = new_dticks n s\<rparr>)) t (timeout_list s) = (T, l)"
    "timeouts (z_add_timeout t (fn_of t) n s) = T"
    by (rule add_timeout_unfold [OF False])
  have "\<forall>u. to_fn (T u) = to_fn (((timeouts s)(t := \<lparr>to_fn = fn_of t, dticks = new_dticks n s\<rparr>)) u)"
    using add_loop_spec [OF a(1)] assms by (simp add: timeout_wf_def to_linked_def)
  then have "fn_ok s \<Longrightarrow> fn_ok (z_add_timeout t (fn_of t) n s)"
    using assms False a(2) by (auto simp: fn_ok_def)
  moreover have "1 \<le> new_dticks n s" using new_dticks_pos [OF False assms(3)] .
  ultimately show ?thesis using deadline_add_timeout [OF assms(1,2) False] assms False by (auto simp: later_def)
qed

lemma later_slice:
  assumes "timeout_wf k" "0 \<le> clk_elapsed k"
  shows "later k (z_reset_time_slice t k)"
proof -
  let ?k1 = "(snd (z_abort_timeout SliceTO k))\<lparr>slice_expired := False\<rparr>"
  have "later k (snd (z_abort_timeout SliceTO k))" by (rule later_abort [OF assms(1)])
  moreover have "later (snd (z_abort_timeout SliceTO k)) ?k1" by (rule later_frame) simp_all
  moreover have "later ?k1 (z_add_timeout SliceTO (fn_of SliceTO) n ?k1)" for n
    using assms by (intro later_add) simp_all
  ultimately show ?thesis using later_trans by (simp add: z_reset_time_slice_def Let_def fn_of_def) blast
qed


lemma later_update_cache:
  assumes "timeout_wf k" "0 \<le> clk_elapsed k"
  shows "later k (update_cache p k)"
proof -
  have c: "later x (x\<lparr>cache := c\<rparr>)" for x :: "'a kernel_scheme" and c
    by (rule later_frame) simp_all
  show ?thesis
    using c later_trans [OF later_slice [OF assms] c] by (simp add: update_cache_def Let_def)
qed

lemma later_ready:
  assumes "timeout_wf k" "0 \<le> clk_elapsed k"
  shows "later k (ready_thread t k)"
proof -
  have q: "later k (queue_thread t k)" by (rule later_frame) (simp_all add: queue_thread_def runq_add_def upd_thread_def)
  have "timeout_wf (queue_thread t k)" "0 \<le> clk_elapsed (queue_thread t k)"
    using assms by (simp_all add: queue_thread_def runq_add_def timeout_wf_def)
  with q show ?thesis using later_trans [OF q later_update_cache] by (simp add: ready_thread_def later_refl)
qed

lemma later_unpend: "later k (unpend_thread_no_timeout t k)"
  by (rule later_frame) (auto simp: unpend_thread_no_timeout_def waitq_remove_def upd_thread_def split: option.split)

lemma later_upd_thread: "later k (upd_thread t f k)"
  by (rule later_frame) (simp_all add: upd_thread_def)

lemma later_wake_thread:
  assumes "timeout_wf k" "0 \<le> clk_elapsed k"
  shows "later k (z_sched_wake_thread t b k)"
proof -
  have r: "later k (ready_thread t k')" if "later k k'" "timeout_wf k'" for k' :: "'a kernel_scheme"
    using later_trans [OF that(1) later_ready [OF that(2)]] that(1) assms(2) by (simp add: later_def)
  have u: "later k (upd_thread t f k')" if "later k k'" for f and k' :: "'a kernel_scheme"
    using later_trans [OF that later_upd_thread] .
  have p: "later k (unpend_thread_no_timeout t k')" if "later k k'" for k' :: "'a kernel_scheme"
    using later_trans [OF that later_unpend] .
  show ?thesis using assms(1) unfolding z_sched_wake_thread_def Let_def
    by (auto intro!: r u p later_refl)
qed

section \<open>Timers in the invariant\<close>

lemma upd_timer_simps [simp]:
  "threads (upd_timer n f k) = threads k" "runq (upd_timer n f k) = runq k" "waitqs (upd_timer n f k) = waitqs k"
  "current_thread (upd_timer n f k) = current_thread k" "cache (upd_timer n f k) = cache k"
  "in_isr (upd_timer n f k) = in_isr k" "irq_unlocked (upd_timer n f k) = irq_unlocked k"
  "timeouts (upd_timer n f k) = timeouts k" "timeout_list (upd_timer n f k) = timeout_list k"
  "curr_tick (upd_timer n f k) = curr_tick k" "clk_elapsed (upd_timer n f k) = clk_elapsed k"
  "announce_remaining (upd_timer n f k) = announce_remaining k" "fault (upd_timer n f k) = fault k"
  "mem (upd_timer n f k) = mem k" "cells (upd_timer n f k) = cells k"
  "timers (upd_timer n f k) = (timers k)(n := f (timers k n))"
  by (simp_all add: upd_timer_def)

lemma upd_timer_linked [simp]:
  "to_linked u (upd_timer n f k) = to_linked u k" "timeout_wf (upd_timer n f k) = timeout_wf k"
  "deadline (upd_timer n f k) u = deadline k u" "fn_ok (upd_timer n f k) = fn_ok k"
  by (simp_all add: to_linked_def timeout_wf_def deadline_def fn_ok_def)

lemma kinv_frame_timeouts:
  assumes "kinv_ex S k" "threads k' = threads k" "runq k' = runq k" "waitqs k' = waitqs k"
    "current_thread k' = current_thread k" "cache k' = cache k"
    "\<And>t. to_linked (ThreadTO t) k' = to_linked (ThreadTO t) k"
    "timeout_wf k'" "clk_elapsed k' = clk_elapsed k" "fault k' = fault k"
  shows "kinv_ex S k'"
proof -
  note D = kinv_exD [OF assms(1)]
  have "sched_wf S k'" using assms by (intro sched_wf_frame [OF D(1)]) simp_all
  moreover have "cache_ok k'" using assms by (intro cache_ok_frame [OF D(2)]) simp_all
  moreover have "quiet k'" using assms by (intro quiet_frame [OF D(4)]) simp
  ultimately show ?thesis using D(3) assms(5,7) by (simp add: kinv_ex_def)
qed

lemma kinv_upd_timer [simp]:
  assumes "kinv k"
  shows "kinv (upd_timer n f k)"
  using sched_wfD(12) [OF kinv_exD(1) [OF assms]] by (intro kinv_frame_timeouts [OF assms]) simp_all

lemma kinv_add_timer:
  assumes "kinv k" "\<not> to_linked (TimerTO n) k"
  shows "kinv (z_add_timeout (TimerTO n) Z_timer_expiration_handler d k)"
  using sched_wfD(12,13) [OF kinv_exD(1) [OF assms(1)]] assms(2)
  by (intro kinv_frame_timeouts [OF assms(1)]) (simp_all add: fault_add_timeout wf_add_timeout)

lemma kinv_abort_timer:
  assumes "kinv k"
  shows "kinv (snd (z_abort_timeout (TimerTO n) k))"
  using sched_wfD(12) [OF kinv_exD(1) [OF assms]] by (intro kinv_frame_timeouts [OF assms]) simp_all

lemma kinv_timer_wake:
  assumes "kinv k"
  shows "kinv (timer_wake n k)"
proof (cases "waitqs k (timer_wait_q (timers k n))")
  case Nil
  with assms show ?thesis by (simp add: timer_wake_def z_waitq_head_def z_priq_dumb_best_def)
next
  case (Cons t ts)
  note p = head_pended [OF kinv_exD(1) [OF assms] Cons]
  have "kinv_ex {t} (unpend_thread_no_timeout t k)" using kinv_unpend [OF assms p] by simp
  then have "kinv (ready_thread t (arch_thread_return_value_set t 0 (unpend_thread_no_timeout t k)))"
    by (intro kinv_ready_one kinv_return_value)
  with p Cons show ?thesis
    by (simp add: timer_wake_def z_waitq_head_def z_priq_dumb_best_def z_unpend_thread_no_timeout_def z_ready_thread_def)
qed

lemma timer_wake_isr: "in_isr (timer_wake n k) = in_isr k"
  by (simp add: timer_wake_def z_ready_thread_def arch_thread_return_value_set_def z_unpend_thread_no_timeout_def
      split: option.split)

lemma later_timer_wake:
  assumes "timeout_wf k" "0 \<le> clk_elapsed k"
  shows "later k (timer_wake n k)"
proof (cases "z_waitq_head (timer_wait_q (timers k n)) k")
  case None
  then show ?thesis by (simp add: timer_wake_def later_refl)
next
  case (Some t)
  let ?k1 = "z_unpend_thread_no_timeout t k"
  have a: "later k ?k1" by (simp add: z_unpend_thread_no_timeout_def later_unpend later_refl)
  have b: "later k (arch_thread_return_value_set t 0 ?k1)"
    unfolding arch_thread_return_value_set_def by (rule later_trans [OF a later_upd_thread])
  have "timeout_wf (arch_thread_return_value_set t 0 ?k1)"
    using assms(1) by (simp add: arch_thread_return_value_set_def z_unpend_thread_no_timeout_def)
  with b assms(2) have "later k (ready_thread t (arch_thread_return_value_set t 0 ?k1))"
    using later_trans [OF b later_ready] by (simp add: later_def)
  with Some show ?thesis by (simp add: timer_wake_def z_ready_thread_def)
qed

text \<open>What an announcement keeps, and what it asks of the application's expiry functions.\<close>

definition ticking :: "'a timer_kernel_scheme \<Rightarrow> bool" where
  "ticking k \<longleftrightarrow> kinv k \<and> fn_ok k \<and> in_isr k"

definition well_behaved :: "'a timer_fn \<Rightarrow> bool" where
  "well_behaved expiry_fn \<longleftrightarrow> (\<forall>n k. ticking k \<longrightarrow> ticking (expiry_fn n k) \<and> later k (expiry_fn n k))"

lemma tickingD: "ticking k \<Longrightarrow> kinv k" "ticking k \<Longrightarrow> timeout_wf k" "ticking k \<Longrightarrow> 0 \<le> clk_elapsed k"
  "ticking k \<Longrightarrow> fn_ok k" "ticking k \<Longrightarrow> in_isr k"
  using sched_wfD(12,13) [of "{}" k] kinv_exD(1) [of "{}" k] by (simp_all add: ticking_def)

lemma ticking_later: "ticking k \<Longrightarrow> later k k' \<Longrightarrow> kinv k' \<Longrightarrow> in_isr k' \<Longrightarrow> ticking k'"
  by (simp add: ticking_def later_def)

lemma timer_rearm_ok:
  assumes "ticking k" "\<not> to_linked (TimerTO n) k"
  shows "later k (timer_rearm n k)" "ticking (timer_rearm n k)"
proof -
  note T = tickingD [OF assms(1)]
  have a: "later k (z_add_timeout (TimerTO n) Z_timer_expiration_handler d k)" for d
    using later_add [OF T(2) assms(2) T(3)] by (simp add: fn_of_def)
  then show l: "later k (timer_rearm n k)" by (simp add: timer_rearm_def Let_def later_refl)
  show "ticking (timer_rearm n k)"
    by (rule ticking_later [OF assms(1) l]) (simp_all add: timer_rearm_def Let_def T kinv_add_timer assms(2))
qed

text \<open>The state in which the handler calls the expiry function.\<close>

definition called :: "nat \<Rightarrow> 'a timer_kernel_scheme \<Rightarrow> 'a timer_kernel_scheme" where
  "called n k = upd_timer n (\<lambda>timer. timer\<lparr>status := status timer + 1\<rparr>) (timer_rearm n k)"

lemma called_ok:
  assumes "ticking k" "\<not> to_linked (TimerTO n) k"
  shows "later k (called n k)" "ticking (called n k)"
proof -
  note r = timer_rearm_ok [OF assms]
  show "later k (called n k)" unfolding called_def by (rule later_trans [OF r(1)], rule later_frame) simp_all
  show "ticking (called n k)" using r(2) by (simp add: ticking_def called_def)
qed

lemma handler_ok:
  assumes k: "ticking k" and w: "\<not> to_linked (TimerTO n) k \<Longrightarrow>
    later (called n k) (expiry_fn n (called n k)) \<and> ticking (expiry_fn n (called n k))"
  shows "later k (z_timer_expiration_handler expiry_fn n k)" "ticking (z_timer_expiration_handler expiry_fn n k)"
proof -
  let ?k2 = "if expiry_set (timers (called n k) n) then expiry_fn n (called n k) else called n k"
  have "later k (z_timer_expiration_handler expiry_fn n k) \<and> ticking (z_timer_expiration_handler expiry_fn n k)"
  proof (cases "to_linked (TimerTO n) k")
    case True
    with k show ?thesis by (simp add: z_timer_expiration_handler_def later_refl)
  next
    case False
    note c = called_ok [OF k False]
    have l2: "later k ?k2" and t2: "ticking ?k2" using w [OF False] c later_trans [OF c(1)] by auto
    have "later k (timer_wake n ?k2)" using later_trans [OF l2 later_timer_wake] tickingD [OF t2] by blast
    moreover have "in_isr (timer_wake n ?k2)" using tickingD(5) [OF t2] by (simp only: timer_wake_isr)
    ultimately have "later k (timer_wake n ?k2) \<and> ticking (timer_wake n ?k2)"
      using ticking_later [OF k] kinv_timer_wake [OF tickingD(1) [OF t2]] by blast
    with False show ?thesis unfolding z_timer_expiration_handler_def Let_def called_def by simp
  qed
  then show "later k (z_timer_expiration_handler expiry_fn n k)" "ticking (z_timer_expiration_handler expiry_fn n k)"
    by blast+
qed

lemma fire_keeps:
  assumes "ticking k" "first k = Some t"
  shows "to_fn (timeouts k t) = fn_of t" "fn_ok (fire t k)" "in_isr (fire t k)"
    "timeout_wf (fire t k)" "0 \<le> clk_elapsed (fire t k)" "\<not> to_linked t (fire t k)"
proof -
  note T = tickingD [OF assms(1)]
  from assms(2) obtain ts where l: "timeout_list k = t # ts" by (auto simp: first_Some)
  show "to_fn (timeouts k t) = fn_of t" using T(4) l by (simp add: fn_ok_def to_linked_def)
  have "to_fn (timeouts (fire t k) u) = to_fn (timeouts k u)" for u
    by (simp add: fire_def remove_timeout_def Let_def set_dticks_def split: option.split)
  then show "fn_ok (fire t k)" using T(4) by (simp add: fn_ok_def fire_linked [OF T(2) assms(2)])
  show "in_isr (fire t k)" using T(5) by simp
  show "timeout_wf (fire t k)" using wf_fire [OF l T(2)] by simp
  show "0 \<le> clk_elapsed (fire t k)" using T(3) fire_simps(4) [OF l T(2)] by simp
  show "\<not> to_linked t (fire t k)" by (simp add: fire_linked [OF T(2) assms(2)])
qed

lemma run_timeout_ok:
  assumes k: "ticking k" and f: "first k = Some t"
    and w: "\<And>n. t = TimerTO n \<Longrightarrow> later (called n (fire t k)) (expiry_fn n (called n (fire t k))) \<and>
      ticking (expiry_fn n (called n (fire t k)))"
  shows "later (fire t k) (run_timeout expiry_fn (to_fn (timeouts k t)) t (fire t k))"
    and "ticking (run_timeout expiry_fn (to_fn (timeouts k t)) t (fire t k))"
proof -
  note F = fire_keeps [OF k f] and K = kinv_fire [OF tickingD(1) [OF k] f]
  let ?k' = "run_timeout expiry_fn (to_fn (timeouts k t)) t (fire t k)"
  have "later (fire t k) ?k' \<and> ticking ?k'"
  proof (cases t)
    case (ThreadTO u)
    then have e: "?k' = z_thread_timeout u (fire t k)" unfolding F(1) by (simp add: fn_of_def run_timeout_def)
    have l: "later (fire t k) ?k'" unfolding e z_thread_timeout_def by (rule later_wake_thread [OF F(4,5)])
    have "kinv ?k'" unfolding e using K ThreadTO by (intro kinv_thread_timeout) simp
    moreover have "in_isr ?k'" unfolding e z_thread_timeout_def z_sched_wake_thread_def Let_def using F(3) by simp
    ultimately show ?thesis using l F(2) by (simp add: ticking_def later_def)
  next
    case SliceTO
    then have e: "?k' = (fire t k)\<lparr>slice_expired := True\<rparr>"
      unfolding F(1) by (simp add: fn_of_def run_timeout_def slice_timeout_def)
    have "later (fire t k) ?k'" unfolding e by (rule later_frame) simp_all
    moreover have "kinv ?k'" unfolding e using K SliceTO by simp
    moreover have "in_isr ?k'" unfolding e using F(3) by simp
    ultimately show ?thesis using F(2) by (simp add: ticking_def later_def)
  next
    case (TimerTO n)
    then have e: "?k' = z_timer_expiration_handler expiry_fn n (fire t k)"
      unfolding F(1) by (simp add: fn_of_def run_timeout_def)
    have "ticking (fire t k)" using K TimerTO F by (simp add: ticking_def)
    then show ?thesis unfolding e using handler_ok [of "fire t k" n expiry_fn] w [OF TimerTO] by blast
  qed
  then show "later (fire t k) ?k'" "ticking ?k'" by blast+
qed

lemma timer_handlers:
  assumes "well_behaved expiry_fn"
  shows "timeout_handlers (run_timeout expiry_fn) ticking"
proof unfold_locales
  fix k :: "'a timer_kernel_scheme" and t u r
  show "ticking k \<Longrightarrow> timeout_wf k" by (rule tickingD)
  show "ticking k \<Longrightarrow> ticking (k\<lparr>announce_remaining := r\<rparr>)"
  proof -
    assume k: "ticking k"
    have "kinv (k\<lparr>announce_remaining := r\<rparr>)"
      using tickingD(2) [OF k] by (intro kinv_frame_timeouts [OF tickingD(1) [OF k]]) simp_all
    then show ?thesis using k by (simp add: ticking_def fn_ok_def)
  qed
  assume k: "ticking k" "first k = Some t"
  have "later (called n (fire t k)) (expiry_fn n (called n (fire t k))) \<and> ticking (expiry_fn n (called n (fire t k)))"
    if "t = TimerTO n" for n
  proof -
    have "ticking (fire t k)" using kinv_fire [OF tickingD(1) [OF k(1)] k(2)] fire_keeps [OF k] that by (simp add: ticking_def)
    with called_ok(2) [of "fire t k" n] fire_keeps(6) [OF k] that assms show ?thesis by (simp add: well_behaved_def)
  qed
  note r = run_timeout_ok [of k t expiry_fn, OF k this]
  show "ticking (run_timeout expiry_fn (to_fn (timeouts k t)) t (fire t k))" by (rule r(2))
  show "curr_tick (run_timeout expiry_fn (to_fn (timeouts k t)) t (fire t k)) = curr_tick (fire t k) \<and>
      announce_remaining (run_timeout expiry_fn (to_fn (timeouts k t)) t (fire t k)) = announce_remaining k"
    using r(1) k by (auto simp: later_def fire_def)
  assume "to_linked u (run_timeout expiry_fn (to_fn (timeouts k t)) t (fire t k))"
  then show "to_linked u (fire t k) \<and> deadline (run_timeout expiry_fn (to_fn (timeouts k t)) t (fire t k)) u = deadline (fire t k) u \<or>
      curr_tick (fire t k) < deadline (run_timeout expiry_fn (to_fn (timeouts k t)) t (fire t k)) u"
    using r(1) by (simp add: later_def)
qed

lemma later_time_slice:
  assumes "kinv k"
  shows "later k (z_time_slice k)"
proof (cases "slice_expired k \<and> sliceable (current_thread k) k")
  case False
  then show ?thesis by (auto simp: z_time_slice_def Let_def later_refl)
next
  case True
  let ?c = "current_thread k"
  let ?k1 = "if z_is_thread_queued (threads k ?c) then dequeue_thread ?c k else k"
  let ?k2 = "queue_thread ?c ?k1"
  note wf = sched_wfD(12,13) [OF kinv_exD(1) [OF assms]]
  have q: "later k ?k2" "timeout_wf ?k2" "0 \<le> clk_elapsed ?k2"
    using wf by (auto simp: queue_thread_def runq_add_def dequeue_thread_def runq_remove_def timeout_wf_def
        intro!: later_frame)
  have u: "later k (update_cache b ?k2)" for b using later_trans [OF q(1) later_update_cache] q by blast
  have wu: "timeout_wf (update_cache b ?k2)" "0 \<le> clk_elapsed (update_cache b ?k2)" for b
    using q by (auto simp: update_cache_def Let_def reset_slice_linked)
  have "later k (z_reset_time_slice ?c (move_thread_to_end_of_prio_q ?c k))"
    unfolding move_thread_to_end_of_prio_q_def Let_def by (rule later_trans [OF u later_slice [OF wu]])
  with True show ?thesis by (auto simp: z_time_slice_def Let_def sliceable_def)
qed

lemma finish_kernel [simp]:
  "threads (announce_finish k) = threads k" "runq (announce_finish k) = runq k" "waitqs (announce_finish k) = waitqs k"
  "current_thread (announce_finish k) = current_thread k" "cache (announce_finish k) = cache k"
  "in_isr (announce_finish k) = in_isr k"
  by (simp_all add: announce_finish_def Let_def)

lemma finish_ticking:
  assumes "ticking k" "timeout_wf (announce_finish k)"
  shows "kinv (announce_finish k)" "in_isr (announce_finish k)"
proof -
  have "to_linked u (announce_finish k) = to_linked u k" for u by (simp add: to_linked_def finish_frame)
  with assms(2) show "kinv (announce_finish k)"
    by (intro kinv_frame_timeouts [OF tickingD(1) [OF assms(1)]]) (simp_all add: finish_frame)
  show "in_isr (announce_finish k)" using tickingD(5) [OF assms(1)] by simp
qed

section \<open>What the operations keep\<close>

definition timer_kept :: "nat \<Rightarrow> 'a timeout_state_scheme \<Rightarrow> 'a timeout_state_scheme \<Rightarrow> bool" where
  "timer_kept n k k' \<longleftrightarrow> (to_linked (TimerTO n) k \<longrightarrow> to_linked (TimerTO n) k' \<and> deadline k' (TimerTO n) = deadline k (TimerTO n))"

lemma kept_trans: "timer_kept n k1 k2 \<Longrightarrow> timer_kept n k2 k3 \<Longrightarrow> timer_kept n k1 k3"
  by (simp add: timer_kept_def)

lemma kept_frame:
  "curr_tick k' = curr_tick k \<Longrightarrow> timeouts k' = timeouts k \<Longrightarrow> timeout_list k' = timeout_list k \<Longrightarrow> timer_kept n k k'"
  by (simp add: timer_kept_def to_linked_def deadline_def)

lemma kept_abort: "timeout_wf k \<Longrightarrow> t \<noteq> TimerTO n \<Longrightarrow> timer_kept n k (snd (z_abort_timeout t k))"
  by (simp add: timer_kept_def deadline_abort)

lemma kept_add:
  assumes "timeout_wf k" "\<not> to_linked t k"
  shows "timer_kept n k (z_add_timeout t fn d k)"
proof (cases "d = K_FOREVER")
  case True
  then show ?thesis by (simp add: z_add_timeout_def timer_kept_def)
next
  case False
  then show ?thesis using assms deadline_add_timeout(1) [OF assms False] by (simp add: timer_kept_def)
qed

lemma kept_slice:
  assumes "timeout_wf k"
  shows "timer_kept n k (z_reset_time_slice t k)"
proof -
  let ?k1 = "(snd (z_abort_timeout SliceTO k))\<lparr>slice_expired := False\<rparr>"
  have "timer_kept n k (snd (z_abort_timeout SliceTO k))" using assms by (simp add: kept_abort)
  then have a: "timer_kept n k ?k1" by (rule kept_trans) (rule kept_frame; simp)
  have "timer_kept n ?k1 (z_add_timeout SliceTO Slice_timeout d ?k1)" for d using assms by (intro kept_add) simp_all
  with a show ?thesis using kept_trans [OF a] by (simp add: z_reset_time_slice_def Let_def)
qed

lemma kept_ready:
  assumes "timeout_wf k"
  shows "timer_kept n k (ready_thread t k)"
proof -
  have c: "timer_kept n x (x\<lparr>cache := c\<rparr>)" for x :: "'a kernel_scheme" and c by (rule kept_frame) simp_all
  have u: "timer_kept n x (update_cache b x)" if "timeout_wf x" for x :: "'a kernel_scheme" and b
    using c kept_trans [OF kept_slice [OF that] c] by (simp add: update_cache_def Let_def)
  have q: "timer_kept n k (queue_thread t k)" "timeout_wf (queue_thread t k)"
    using assms by (auto simp: queue_thread_def runq_add_def timeout_wf_def intro: kept_frame)
  then show ?thesis using kept_trans [OF q(1) u [OF q(2)]] by (auto simp: ready_thread_def timer_kept_def)
qed

lemma kept_timer_wake:
  assumes "timeout_wf k"
  shows "timer_kept n k (timer_wake m k)"
proof (cases "z_waitq_head (timer_wait_q (timers k m)) k")
  case None
  then show ?thesis by (simp add: timer_wake_def timer_kept_def)
next
  case (Some t)
  let ?k1 = "arch_thread_return_value_set t 0 (z_unpend_thread_no_timeout t k)"
  have "timer_kept n k ?k1"
    by (rule kept_frame) (auto simp: arch_thread_return_value_set_def z_unpend_thread_no_timeout_def
        unpend_thread_no_timeout_def waitq_remove_def split: option.split)
  moreover have "timeout_wf ?k1"
    using assms by (simp add: arch_thread_return_value_set_def z_unpend_thread_no_timeout_def)
  ultimately show ?thesis using kept_trans [OF _ kept_ready] Some by (simp add: timer_wake_def z_ready_thread_def)
qed

text \<open>An expiry function that leaves its own timer running, and one that wakes a thread.\<close>

definition spares :: "nat \<Rightarrow> 'a timer_fn \<Rightarrow> bool" where
  "spares n expiry_fn \<longleftrightarrow> (\<forall>k. ticking k \<longrightarrow> timer_kept n k (expiry_fn n k))"

definition wake_expiry :: "tid \<Rightarrow> 'a timer_fn" where
  "wake_expiry t n k = k_wakeup t k"

lemma wakeup_isr:
  assumes "in_isr k"
  shows "k_wakeup t k = k \<or> k_wakeup t k = snd (z_abort_timeout (ThreadTO t) k) \<or>
    k_wakeup t k = ready_thread t (upd_thread t z_mark_thread_as_not_suspended (snd (z_abort_timeout (ThreadTO t) k)))"
  using assms by (simp add: k_wakeup_def z_abort_thread_timeout_def z_ready_thread_def case_prod_beta Let_def)

lemma wake_expiry_ok:
  assumes t: "t \<noteq> z_idle_thread"
  shows "well_behaved (wake_expiry t :: 'a timer_fn)" "spares n (wake_expiry t :: 'a timer_fn)"
proof -
  have l: "later k (k_wakeup t k) \<and> timer_kept n k (k_wakeup t k)" if k: "ticking k" for k :: "'a timer_kernel_scheme" and n
  proof -
    note T = tickingD [OF k]
    let ?k1 = "snd (z_abort_timeout (ThreadTO t) k)"
    let ?k2 = "upd_thread t z_mark_thread_as_not_suspended ?k1"
    have a: "later k ?k1" "timer_kept n k ?k1" using T by (simp_all add: later_abort kept_abort)
    have b: "later k ?k2" "timer_kept n k ?k2"
      using later_trans [OF a(1) later_upd_thread] kept_trans [OF a(2) kept_frame] by simp_all
    have w: "timeout_wf ?k2" "0 \<le> clk_elapsed ?k2" using T by simp_all
    show ?thesis
      using wakeup_isr [OF T(5), of t] a b later_trans [OF b(1) later_ready [OF w]] kept_trans [OF b(2) kept_ready [OF w(1)]]
      by (auto simp: later_refl timer_kept_def)
  qed
  have i: "in_isr (k_wakeup t k)" if "in_isr k" for k :: "'a timer_kernel_scheme"
    using wakeup_isr [OF that, of t] that by auto
  show "well_behaved (wake_expiry t :: 'a timer_fn)"
    unfolding well_behaved_def wake_expiry_def
  proof (intro allI impI conjI)
    fix m :: nat and k :: "'a timer_kernel_scheme"
    assume k: "ticking k"
    show lk: "later k (k_wakeup t k)" using l [OF k] by blast
    show "ticking (k_wakeup t k)"
      by (rule ticking_later [OF k lk kinv_wakeup [OF tickingD(1) [OF k] t] i [OF tickingD(5) [OF k]]])
  qed
  show "spares n (wake_expiry t :: 'a timer_fn)" using l by (simp add: spares_def wake_expiry_def)
qed

lemma kinv_timer_start:
  assumes "kinv k"
  shows "kinv (k_timer_start n d p k)"
proof -
  let ?k = "upd_timer n (\<lambda>timer. timer\<lparr>period := p, status := 0\<rparr>) (snd (z_abort_timeout (TimerTO n) k))"
  have "kinv ?k" "\<not> to_linked (TimerTO n) ?k"
    using kinv_abort_timer [OF assms] sched_wfD(12) [OF kinv_exD(1) [OF assms]] by simp_all
  then have "kinv (z_add_timeout (TimerTO n) Z_timer_expiration_handler d' ?k)" for d' by (rule kinv_add_timer)
  with assms show ?thesis by (simp add: k_timer_start_def Let_def)
qed

lemma kinv_timer_stop:
  assumes "kinv k" and s: "\<And>k'. kinv k' \<Longrightarrow> kinv (stop_fn n k')"
  shows "kinv (k_timer_stop stop_fn n k)"
proof -
  have u: "kinv (case z_unpend1_no_timeout q k' of (None, k3) \<Rightarrow> k3
      | (Some t, k3) \<Rightarrow> z_reschedule_unlocked (z_ready_thread t k3))" if "kinv k'" for q and k' :: "'a timer_kernel_scheme"
  proof (cases "waitqs k' q")
    case Nil
    with that show ?thesis by (simp add: z_unpend1_no_timeout_def z_waitq_head_def z_priq_dumb_best_def)
  next
    case (Cons t ts)
    have "kinv_ex {t} (unpend_thread_no_timeout t k')"
      using kinv_unpend [OF that head_pended [OF kinv_exD(1) [OF that] Cons]] by simp
    then have "kinv (ready_thread t (unpend_thread_no_timeout t k'))" by (rule kinv_ready_one)
    with Cons show ?thesis
      by (simp add: z_unpend1_no_timeout_def z_waitq_head_def z_priq_dumb_best_def z_ready_thread_def kinv_reschedule)
  qed
  show ?thesis
    using kinv_abort_timer [OF assms(1), of n] u [OF s [OF kinv_abort_timer [OF assms(1)]]] u [OF kinv_abort_timer [OF assms(1)]]
    by (simp add: k_timer_stop_def split_beta Let_def)
qed

lemma kinv_timer_status_sync:
  assumes "kinv k" "runs k"
  shows "kinv (snd (k_timer_status_sync n k))"
proof -
  let ?k = "k\<lparr>irq_unlocked := False\<rparr>"
  have "kinv ?k" "runs ?k" using assms by (simp_all add: runs_def)
  from kinv_pend_curr(1) [OF this] show ?thesis
    using assms(1) by (simp add: k_timer_status_sync_def k_spin_lock_def k_spin_unlock_def Let_def)
qed

section \<open>Properties\<close>

text \<open>
  C15. Announcing ticks ends, whatever expires: thread timeouts, the time slice and
  timers, periodic ones included, whose callbacks link themselves again. It
  moves the clock by exactly the ticks announced, leaves nothing due behind, and keeps
  the scheduler's invariant. Of the application's expiry functions it asks that they
  keep the invariant and link no timeout in the past.
\<close>

theorem announce_ends:
  assumes "ticking k" "well_behaved expiry_fn" "0 \<le> ticks"
  shows "\<exists>k'. sys_clock_announce expiry_fn ticks k = Some k' \<and> kinv k' \<and> curr_tick k' = curr_tick k + ticks \<and>
    announce_remaining k' = 0 \<and> (\<forall>u. to_linked u k' \<longrightarrow> curr_tick k' < deadline k' u)"
proof -
  from timeout_handlers.announce_total [OF timer_handlers [OF assms(2)] assms(1,3)] obtain s1 s' where
    s: "ticking s1" "announce_timeouts (run_timeout expiry_fn) ticks k = Some s'" "s' = announce_finish s1"
      "curr_tick s' = curr_tick k + ticks" "timeout_wf s'" "\<And>u. to_linked u s' \<Longrightarrow> curr_tick s' < deadline s' u"
    by blast
  have i: "kinv s'" using finish_ticking(1) [OF s(1)] s(3,5) by simp
  have "kinv (z_time_slice s')" by (rule kinv_time_slice [OF i])
  moreover have "later s' (z_time_slice s')" by (rule later_time_slice [OF i])
  ultimately show ?thesis
    using s(2-4,6) by (fastforce simp: sys_clock_announce_def later_def finish_frame)
qed

text \<open>Timer 0 runs with a period of 4 ticks, and wakes thread 3.\<close>

definition timer_busy :: "timer_kernel" where
  "timer_busy = k_timer_start 0 4 4
     ((kernel.extend busy \<lparr>timers = \<lambda>_. \<lparr>timer_wait_q = WQ 0, expiry_set = True, stop_set = False, period = 0,
        status = 0, user_data = 0\<rparr>\<rparr>)\<lparr>in_isr := True\<rparr>)"

lemma timer_busy_ticking: "ticking timer_busy"
proof -
  let ?k = "(kernel.extend busy \<lparr>timers = \<lambda>_. \<lparr>timer_wait_q = WQ 0, expiry_set = True, stop_set = False, period = 0,
        status = 0, user_data = 0\<rparr>\<rparr>)\<lparr>in_isr := True\<rparr>"
  have "kinv ?k"
    using sched_wfD(12) [OF kinv_exD(1) [OF busy_kinv]]
    by (intro kinv_frame_timeouts [OF busy_kinv]) (simp_all add: kernel.defs to_linked_def timeout_wf_def)
  then have "kinv timer_busy" unfolding timer_busy_def by (rule kinv_timer_start)
  moreover have "fn_ok timer_busy"
  proof -
    have "timeout_list timer_busy = [TimerTO 0]" by code_simp
    moreover have "to_fn (timeouts timer_busy (TimerTO 0)) = Z_timer_expiration_handler" by code_simp
    ultimately show ?thesis by (simp add: fn_ok_def to_linked_def fn_of_def)
  qed
  moreover have "in_isr timer_busy" by code_simp
  ultimately show ?thesis by (simp add: ticking_def)
qed

theorem announce_ends_witness:
  "\<exists>k'. sys_clock_announce (wake_expiry 3) 10 timer_busy = Some k' \<and> kinv k' \<and> curr_tick k' = curr_tick timer_busy + 10 \<and>
    announce_remaining k' = 0 \<and> (\<forall>u. to_linked u k' \<longrightarrow> curr_tick k' < deadline k' u)"
  using announce_ends [OF timer_busy_ticking wake_expiry_ok(1), of 3 10] by (simp add: tid_defs)

text \<open>
  C36. A periodic timer strides regularly: its handler links it again one period after the
  tick it expired at, however late the handler runs, as long as ticks of the
  announcement remain. For a timeout that expires at the last announced tick behind
  another one none remain, and the ticks that went by unannounced are added to the period.
\<close>

theorem timer_stride:
  assumes k: "ticking k" "\<not> to_linked (TimerTO n) k" and p: "1 \<le> period (timers k n)" "0 \<le> curr_tick k"
    and f: "well_behaved expiry_fn" "spares n expiry_fn"
  defines "k' \<equiv> z_timer_expiration_handler expiry_fn n k"
  shows "to_linked (TimerTO n) k' \<and>
    deadline k' (TimerTO n) = curr_tick k + period (timers k n) + (if announce_remaining k = 0 then clk_elapsed k else 0)"
proof -
  note T = tickingD [OF k(1)]
  let ?p = "period (timers k n)"
  let ?r = "timer_rearm n k"
  let ?k1 = "upd_timer n (\<lambda>timer. timer\<lparr>status := status timer + 1\<rparr>) ?r"
  let ?k2 = "if expiry_set (timers ?k1 n) then expiry_fn n ?k1 else ?k1"
  let ?e = "if announce_remaining k = 0 then clk_elapsed k else 0"
  let ?a = "K_TIMEOUT_ABS_TICKS (sys_clock_tick_get k + 1 + max (?p - 1) 0)"
  have a: "?a = - 2 - (curr_tick k + ?p + ?e)" and n: "?a \<noteq> K_FOREVER"
    using p T(3) by (auto simp: K_TIMEOUT_ABS_TICKS_def timeout_consts sys_clock_tick_get_def elapsed_def)
  have r: "?r = z_add_timeout (TimerTO n) Z_timer_expiration_handler ?a k"
    using p by (simp add: timer_rearm_def Let_def timeout_consts)
  have d: "new_dticks ?a k = ?p + ?e" unfolding a using p T(3) by (simp add: new_dticks_def timeout_consts)
  have l: "to_linked (TimerTO n) ?r" "deadline ?r (TimerTO n) = curr_tick k + ?p + ?e"
    using k(2) T n deadline_add_timeout(2) [OF T(2) k(2) n, of Z_timer_expiration_handler] d by (simp_all add: r)
  have t1: "ticking ?k1" using timer_rearm_ok(2) [OF k] by (simp add: ticking_def)
  have t2: "ticking ?k2" "timer_kept n ?k1 ?k2" using f t1 by (auto simp: well_behaved_def spares_def timer_kept_def)
  have "timer_kept n ?k1 (timer_wake n ?k2)"
    by (rule kept_trans [OF t2(2) kept_timer_wake [OF tickingD(2) [OF t2(1)]]])
  moreover have "k' = timer_wake n ?k2" using k(2) by (simp add: k'_def z_timer_expiration_handler_def Let_def)
  ultimately show ?thesis using l by (simp add: timer_kept_def)
qed

definition timer_due :: "timer_kernel" where
  "timer_due = (fire (TimerTO 0) timer_busy)\<lparr>clk_elapsed := 2\<rparr>"

lemma kinv_elapsed:
  assumes "kinv k" "0 \<le> e"
  shows "kinv (k\<lparr>clk_elapsed := e\<rparr>)"
proof -
  note D = kinv_exD [OF assms(1)]
  let ?k = "k\<lparr>clk_elapsed := e\<rparr>"
  have f: "threads ?k = threads k" "runq ?k = runq k" "waitqs ?k = waitqs k" "\<And>u. to_linked u ?k = to_linked u k"
    "timeout_wf ?k = timeout_wf k" "fault ?k = fault k" by simp_all
  have "0 \<le> clk_elapsed ?k" using assms(2) by simp
  with D(1) [unfolded sched_wf_def ready_iff] have "sched_wf {} ?k"
    unfolding sched_wf_def ready_iff f by (elim conjE) (intro conjI, assumption+)
  moreover have "cache_ok (k\<lparr>clk_elapsed := e\<rparr>)" by (rule cache_ok_frame [OF D(2)]) simp_all
  moreover have "quiet (k\<lparr>clk_elapsed := e\<rparr>)" by (rule quiet_frame [OF D(4)]) simp
  ultimately show ?thesis using D(3) by (simp add: kinv_ex_def)
qed

lemma timer_due_facts: "ticking timer_due" "\<not> to_linked (TimerTO 0) timer_due" "period (timers timer_due 0) = 4"
  "curr_tick timer_due = 4" "announce_remaining timer_due = 0" "clk_elapsed timer_due = 2"
proof -
  have f: "first timer_busy = Some (TimerTO 0)" by code_simp
  note F = fire_keeps [OF timer_busy_ticking f] and K = kinv_fire [OF tickingD(1) [OF timer_busy_ticking] f]
  show "ticking timer_due" "\<not> to_linked (TimerTO 0) timer_due"
    using F K by (simp_all add: timer_due_def ticking_def fn_ok_def kinv_elapsed)
  show "period (timers timer_due 0) = 4" "curr_tick timer_due = 4" "announce_remaining timer_due = 0" "clk_elapsed timer_due = 2"
    by code_simp+
qed

theorem timer_stride_witness:
  "deadline (z_timer_expiration_handler (wake_expiry 3) 0 timer_due) (TimerTO 0) = 10"
  using timer_stride [OF timer_due_facts(1,2) _ _ wake_expiry_ok, of 3] timer_due_facts by (simp add: tid_defs)

end
