(* ===== verification/Kernel_Inv.thy ===== *)
theory Kernel_Inv
  imports Condvar Sem Msgq Stack Mem_Slab Queue Events Timer
begin

text \<open>
  Every operation of the kernel objects keeps the invariant of the scheduler, together
  with two facts about all threads and timeouts. One rule per operation, collected
  in \<open>sane_intro\<close> and \<open>sys_intro\<close>.
\<close>

section \<open>Two facts about all threads and timeouts\<close>

text \<open>
  Every linked timeout has the callback of its object, and no dead thread waits. The
  scheduler leaves the objects \<open>M\<close> that extend its state alone.
\<close>

definition sane :: "'a \<Rightarrow> 'a kernel_scheme \<Rightarrow> bool" where
  "sane M k \<longleftrightarrow> (\<forall>t \<in> set (timeout_list k). to_fn (timeouts k t) = fn_of t) \<and>
     (\<forall>t. pended_on (threads k t) \<noteq> None \<longrightarrow> \<not> bit (thread_state (threads k t)) 3) \<and> kernel.more k = M"

lemma sane_fn_ok: "sane M k \<Longrightarrow> fn_ok k"
  by (simp add: sane_def fn_ok_def to_linked_def)

lemma sane_upds [simp]:
  "sane M (k\<lparr>current_thread := c\<rparr>) = sane M k" "sane M (k\<lparr>cache := c\<rparr>) = sane M k" "sane M (k\<lparr>runq := r\<rparr>) = sane M k"
  "sane M (k\<lparr>waitqs := w\<rparr>) = sane M k" "sane M (k\<lparr>irq_unlocked := b\<rparr>) = sane M k" "sane M (k\<lparr>in_isr := b\<rparr>) = sane M k"
  "sane M (k\<lparr>slice_expired := b\<rparr>) = sane M k" "sane M (k\<lparr>slice_ticks := i\<rparr>) = sane M k" "sane M (k\<lparr>slice_max_prio := i\<rparr>) = sane M k"
  "sane M (k\<lparr>mem := m\<rparr>) = sane M k" "sane M (k\<lparr>cells := m'\<rparr>) = sane M k" "sane M (k\<lparr>fault := b\<rparr>) = sane M k"
  "sane M (k\<lparr>announce_remaining := i\<rparr>) = sane M k" "sane M (k\<lparr>curr_tick := i\<rparr>) = sane M k"
  "sane M (k\<lparr>clk_next := i\<rparr>) = sane M k" "sane M (k\<lparr>clk_elapsed := i\<rparr>) = sane M k"
  by (simp_all add: sane_def)

lemma more_kernel [simp]:
  "kernel.more (upd_thread t f k) = kernel.more k" "kernel.more (z_add_timeout to fn n k) = kernel.more k"
  "kernel.more (snd (z_abort_timeout to k)) = kernel.more k"
  by (auto simp: upd_thread_def z_add_timeout_def z_abort_timeout_def remove_timeout_def Let_def split: prod.splits)

lemma sane_upd_thread:
  assumes "sane M k" "pended_on (f (threads k t)) \<noteq> None \<Longrightarrow> pended_on (threads k t) \<noteq> None"
    "pended_on (f (threads k t)) \<noteq> None \<Longrightarrow> bit (thread_state (f (threads k t))) 3 \<Longrightarrow> bit (thread_state (threads k t)) 3"
  shows "sane M (upd_thread t f k)"
  using assms by (auto simp: sane_def)

lemma add_loop_fn: "add_loop T t l = (T', l') \<Longrightarrow> (\<forall>u. to_fn (T' u) = to_fn (T u)) \<and> set l' = insert t (set l)"
proof (induction l arbitrary: T T' l')
  case (Cons u us)
  show ?case
  proof (cases "dticks (T t) < dticks (T u)")
    case True
    with Cons.prems show ?thesis by auto
  next
    case False
    obtain T1 l1 where r: "add_loop (set_dticks t (dticks (T t) - dticks (T u)) T) t us = (T1, l1)" by fastforce
    with Cons.prems False have "T' = T1" "l' = u # l1" by auto
    with Cons.IH [OF r] show ?thesis by auto
  qed
qed auto

lemma sane_add [intro]: "sane M k \<Longrightarrow> fn = fn_of t \<Longrightarrow> sane M (z_add_timeout t fn n k)"
proof (cases "n = K_FOREVER")
  case True
  then show "sane M k \<Longrightarrow> fn = fn_of t \<Longrightarrow> sane M (z_add_timeout t fn n k)" by (simp add: z_add_timeout_def)
next
  case False
  assume s: "sane M k" "fn = fn_of t"
  obtain T l where a: "add_loop ((timeouts k)(t := \<lparr>to_fn = fn, dticks = new_dticks n k\<rparr>)) t (timeout_list k) = (T, l)"
    "timeouts (z_add_timeout t fn n k) = T" "timeout_list (z_add_timeout t fn n k) = l"
    by (rule add_timeout_unfold [OF False])
  with add_loop_fn [OF a(1)] s show "sane M (z_add_timeout t fn n k)" by (auto simp: sane_def)
qed

lemma sane_abort [intro]: "sane M k \<Longrightarrow> sane M (snd (z_abort_timeout t k))"
  by (auto simp: sane_def z_abort_timeout_def remove_timeout_def Let_def set_dticks_def dest: notin_set_remove1 split: option.splits)

named_theorems sane_intro \<open>preservation of sane\<close>

lemma sane_prims [sane_intro]:
  "sane M k \<Longrightarrow> sane M (upd_thread t (z_set_thread_states THREAD_QUEUED) k)"
  "sane M k \<Longrightarrow> sane M (upd_thread t (z_reset_thread_states THREAD_QUEUED) k)"
  "sane M k \<Longrightarrow> sane M (upd_thread t z_mark_thread_as_started k)"
  "sane M k \<Longrightarrow> sane M (upd_thread t z_mark_thread_as_suspended k)"
  "sane M k \<Longrightarrow> sane M (upd_thread t z_mark_thread_as_not_suspended k)"
  "sane M k \<Longrightarrow> sane M (upd_thread t z_mark_thread_as_pending k)"
  "sane M k \<Longrightarrow> sane M (upd_thread t (\<lambda>th. th\<lparr>no_wake_on_timeout := b\<rparr>) k)"
  "sane M k \<Longrightarrow> sane M (upd_thread t (\<lambda>th. th\<lparr>swap_retval := v\<rparr>) k)"
  "sane M k \<Longrightarrow> sane M (upd_thread t (\<lambda>th. th\<lparr>swap_data := d\<rparr>) k)"
  "sane M k \<Longrightarrow> sane M (upd_thread t (\<lambda>th. th\<lparr>swap_key := b\<rparr>) k)"
  "sane M k \<Longrightarrow> sane M (upd_thread t (\<lambda>th. th\<lparr>prio := p\<rparr>) k)"
  "sane M k \<Longrightarrow> sane M (upd_thread t (\<lambda>th. th\<lparr>events := es\<rparr>) k)"
  "sane M k \<Longrightarrow> sane M (upd_thread t (\<lambda>th. th\<lparr>events := es, event_options := es'\<rparr>) k)"
  "sane M k \<Longrightarrow> sane M (upd_thread t (\<lambda>th. th\<lparr>no_wake_on_timeout := b, next_event_link := h\<rparr>) k)"
  "sane M k \<Longrightarrow> sane M (upd_thread t (\<lambda>th. th\<lparr>sched_locked := g th\<rparr>) k)"
  by (rule sane_upd_thread; simp)+

lemma sane_kernel [sane_intro]:
  "sane M k \<Longrightarrow> sane M (z_add_timeout (ThreadTO u) Z_thread_timeout n k)"
  "sane M k \<Longrightarrow> sane M (z_add_timeout SliceTO Slice_timeout n k)"
  "sane M k \<Longrightarrow> sane M (z_add_timeout (TimerTO m) Z_timer_expiration_handler n k)"
  "sane M k \<Longrightarrow> sane M (snd (z_abort_timeout t k))"
  by (auto simp: fn_of_def)

lemma sane_slice [sane_intro]: "sane M k \<Longrightarrow> sane M (z_reset_time_slice t k)"
  by (simp add: z_reset_time_slice_def Let_def sane_intro)

lemma sane_cache [sane_intro]: "sane M k \<Longrightarrow> sane M (update_cache b k)"
  by (simp add: update_cache_def Let_def sane_intro)

lemma sane_queue [sane_intro]: "sane M k \<Longrightarrow> sane M (queue_thread t k)" "sane M k \<Longrightarrow> sane M (dequeue_thread t k)"
  by (simp_all add: queue_thread_def dequeue_thread_def runq_add_def runq_remove_def sane_intro)

lemma sane_ready [sane_intro]: "sane M k \<Longrightarrow> sane M (ready_thread t k)" "sane M k \<Longrightarrow> sane M (z_ready_thread t k)"
    "sane M k \<Longrightarrow> sane M (unready_thread t k)"
  by (simp_all add: ready_thread_def z_ready_thread_def unready_thread_def Let_def sane_intro)

lemma sane_unpend [sane_intro]: "sane M k \<Longrightarrow> sane M (unpend_thread_no_timeout t k)"
  by (auto simp: unpend_thread_no_timeout_def waitq_remove_def intro!: sane_upd_thread split: option.split)

lemma sane_swap [sane_intro]: "sane M k \<Longrightarrow> sane M (do_swap key k)"
  by (simp add: do_swap_def Let_def sane_intro)

lemma sane_spin [simp]: "sane M (snd (k_spin_lock k)) = sane M k" "sane M (k_spin_unlock key k) = sane M k"
  by (simp_all add: k_spin_lock_def k_spin_unlock_def)

lemma sane_reschedule [sane_intro]: "sane M k \<Longrightarrow> sane M (z_reschedule key k)" "sane M k \<Longrightarrow> sane M (z_reschedule_unlocked k)"
    "sane M k \<Longrightarrow> sane M (z_reschedule_irqlock key k)"
  by (simp_all add: z_reschedule_def z_reschedule_unlocked_def z_reschedule_irqlock_def z_swap_def z_swap_irqlock_def
      k_spin_lock_def sane_intro)

lemma sane_values [sane_intro]: "sane M k \<Longrightarrow> sane M (arch_thread_return_value_set t v k)"
    "sane M k \<Longrightarrow> sane M (z_thread_return_value_set_with_data t v d k)" "sane M k \<Longrightarrow> sane M (wake_with t v k)"
    "sane M k \<Longrightarrow> sane M (wake_with_data t v d k)"
  by (simp_all add: arch_thread_return_value_set_def z_thread_return_value_set_with_data_def wake_with_def wake_with_data_def sane_intro)

lemma sane_unpend_first [sane_intro]: "sane M k \<Longrightarrow> sane M (snd (z_unpend_first_thread q k))"
  by (simp add: z_unpend_first_thread_def z_abort_thread_timeout_def sane_intro split: option.split)

lemma sane_drain: "(\<And>t k. sane M k \<Longrightarrow> sane M (body t k)) \<Longrightarrow> sane M k \<Longrightarrow> sane M (drain body n q k)"
  by (induction n arbitrary: k) (auto split: option.split)

lemma sane_unpend_each [sane_intro]: "sane M k \<Longrightarrow> sane M (snd (unpend_each n q v k))"
proof (induction n arbitrary: k)
  case (Suc n)
  then show ?case
    using sane_unpend_first [OF Suc.prems, of q] by (auto simp: case_prod_beta Let_def intro: sane_intro split: option.split prod.split)
qed simp

text \<open>Only the running thread starts to wait.\<close>

lemma sane_pend_locked:
  assumes "sane M k" "\<not> bit (thread_state (threads k t)) 3"
  shows "sane M (pend_locked t wait_q n k)"
proof -
  let ?k = "upd_thread t z_mark_thread_as_pending (unready_thread t k)"
  have "sane M ?k" using assms(1) by (intro sane_intro)
  moreover have "\<not> bit (thread_state (threads ?k t)) 3"
    using assms(2) by (simp add: unready_thread_def Let_def)
  moreover have "sane M (upd_thread t (\<lambda>th. th\<lparr>pended_on := Some q\<rparr>) k')" if "sane M k'" "\<not> bit (thread_state (threads k' t)) 3"
    for q and k' :: "'a kernel_scheme"
    using that by (simp add: sane_def)
  ultimately have "sane M (add_to_waitq_locked t wait_q k)"
    by (simp add: add_to_waitq_locked_def waitq_add_def Let_def split: option.split)
  then show ?thesis by (simp add: pend_locked_def add_thread_timeout_def z_add_thread_timeout_def sane_intro)
qed

lemma sane_pend_curr [sane_intro]:
  assumes "sane M k" "kinv k" "runs k"
  shows "sane M (z_pend_curr key wait_q n k)"
proof -
  have "queued k (current_thread k)" using assms(2,3) sched_wfD(3) [OF kinv_exD(1)] by (auto simp: runs_def)
  then have "\<not> prevented k (current_thread k)" using sched_wfD(4) [OF kinv_exD(1) [OF assms(2)]] by (auto simp: ready_iff)
  then have "\<not> bit (thread_state (threads k (current_thread k))) 3" by (simp add: state_flags)
  with assms(1) show ?thesis by (simp add: z_pend_curr_def k_spin_lock_def z_swap_def sane_intro sane_pend_locked)
qed

section \<open>Calls on threads\<close>

lemma sane_sched_start [sane_intro]: "sane M k \<Longrightarrow> sane M (z_sched_start t k)"
  by (simp add: z_sched_start_def k_spin_lock_def sane_intro)

lemma sane_thread_calls [sane_intro]:
  "sane M k \<Longrightarrow> sane M (k_thread_suspend t k)"
  "sane M k \<Longrightarrow> sane M (k_thread_resume t k)"
  "sane M k \<Longrightarrow> sane M (k_wakeup t k)"
  "sane M k \<Longrightarrow> sane M (k_sched_lock k)"
  "sane M k \<Longrightarrow> sane M (k_sched_unlock k)"
  "sane M k \<Longrightarrow> sane M (k_yield k)"
  "sane M k \<Longrightarrow> sane M (k_sched_time_slice_set c ms p k)"
  by (simp_all add: k_thread_suspend_def k_thread_resume_def k_wakeup_def k_sched_lock_def k_sched_unlock_def k_yield_def
      k_sched_time_slice_set_def z_abort_thread_timeout_def k_spin_lock_def z_swap_def Let_def case_prod_beta sane_intro)

lemma sane_set_prio [sane_intro]: "sane M k \<Longrightarrow> sane M (snd (z_set_prio t p k))"
  by (simp add: z_set_prio_def Let_def sane_intro)

lemma sane_priority_set [sane_intro]: "sane M k \<Longrightarrow> sane M (k_thread_priority_set t p k)"
  by (simp add: k_thread_priority_set_def z_thread_priority_set_def case_prod_beta sane_intro)

lemma sane_tick_sleep [sane_intro]: "sane M k \<Longrightarrow> sane M (snd (z_tick_sleep n k))"
  by (simp add: z_tick_sleep_def k_spin_lock_def z_add_thread_timeout_def z_swap_def Let_def sane_intro)

lemma sane_sleep [sane_intro]: "sane M k \<Longrightarrow> sane M (snd (k_sleep c n k))" "sane M k \<Longrightarrow> sane M (snd (k_usleep c us k))"
  using sane_tick_sleep [of M k n] sane_tick_sleep [of M k "usleep_ticks c us"]
  by (simp_all add: k_sleep_def k_usleep_def case_prod_beta sane_intro split: outcome.split)

lemma sane_end_thread [sane_intro]:
  assumes "sane M k"
  shows "sane M (end_thread t k)"
proof (cases "thread_state (threads k t) AND THREAD_DEAD = 0")
  case False
  with assms show ?thesis by (simp add: end_thread_def)
next
  case True
  let ?f = "z_reset_thread_states THREAD_ABORTING o z_set_thread_states THREAD_DEAD"
  let ?k1 = "upd_thread t ?f k"
  let ?k2 = "if z_is_thread_queued (threads ?k1 t) then dequeue_thread t ?k1 else ?k1"
  let ?k3 = "if pended_on (threads ?k2 t) \<noteq> None then unpend_thread_no_timeout t ?k2 else ?k2"
  have u: "pended_on (threads (if pended_on (threads x t) \<noteq> None then unpend_thread_no_timeout t x else x) t) = None"
    "y \<noteq> t \<Longrightarrow> threads (if pended_on (threads x t) \<noteq> None then unpend_thread_no_timeout t x else x) y = threads x y"
    "timeouts (if pended_on (threads x t) \<noteq> None then unpend_thread_no_timeout t x else x) = timeouts x"
    "timeout_list (if pended_on (threads x t) \<noteq> None then unpend_thread_no_timeout t x else x) = timeout_list x"
    "kernel.more (if pended_on (threads x t) \<noteq> None then unpend_thread_no_timeout t x else x) = kernel.more x"
    for x :: "'a kernel_scheme" and y
    by (auto simp: unpend_thread_no_timeout_def waitq_remove_def split: option.split)
  have "pended_on (threads ?k3 t) = None" by (rule u(1))
  moreover have "threads ?k3 x = threads k x" if "x \<noteq> t" for x
    unfolding u(2) [OF that] using that by simp
  moreover have "timeouts ?k3 = timeouts k" "timeout_list ?k3 = timeout_list k" "kernel.more ?k3 = kernel.more k"
    unfolding u(3-5) by (simp_all add: dequeue_thread_def runq_remove_def)
  ultimately have "sane M ?k3" using assms unfolding sane_def by metis
  then have "sane M (unpend_all (JoinQ t) (snd (z_abort_thread_timeout t ?k3)))"
    unfolding unpend_all_def z_abort_thread_timeout_def by (intro sane_drain sane_intro)
  with True show ?thesis unfolding end_thread_def Let_def by (simp add: sane_cache)
qed

lemma sane_abort_thread [sane_intro]: "sane M k \<Longrightarrow> sane M (z_thread_abort t k)"
  by (simp add: z_thread_abort_def k_spin_lock_def z_swap_def Let_def sane_intro)

lemma sane_join [sane_intro]:
  assumes "sane M k" "kinv k" "runs k"
  shows "sane M (snd (k_thread_join t n k))"
proof -
  have "sane M (z_pend_curr (irq_unlocked k) (Some (JoinQ t)) n k)" using assms by (rule sane_pend_curr)
  with assms(1) show ?thesis
    by (simp add: k_thread_join_def k_spin_lock_def k_spin_unlock_def z_pend_curr_def pend_locked_def Let_def)
qed

lemma sane_create [sane_intro]: "sane M k \<Longrightarrow> sane M (k_thread_create t p opts n k)"
proof -
  assume "sane M k"
  then have "sane M (z_setup_new_thread t p opts k)"
    unfolding z_setup_new_thread_def by (intro sane_upd_thread) (simp_all add: z_init_thread_base_def)
  then show ?thesis
    by (simp add: k_thread_create_def schedule_new_thread_def k_thread_start_def z_add_thread_timeout_def Let_def sane_intro)
qed

section \<open>Calls on kernel objects\<close>

definition sys_inv :: "'a \<Rightarrow> 'a kernel_scheme \<Rightarrow> bool" where
  "sys_inv M k \<longleftrightarrow> kinv k \<and> sane M k"

named_theorems sys_intro \<open>preservation of the invariant of the system\<close>

lemma sys_inv_upds [simp]:
  "sys_inv M (k\<lparr>irq_unlocked := b\<rparr>) = sys_inv M k" "sys_inv M (k\<lparr>in_isr := b\<rparr>) = sys_inv M k"
  "sys_inv M (k\<lparr>mem := m\<rparr>) = sys_inv M k" "sys_inv M (k\<lparr>cells := m'\<rparr>) = sys_inv M k"
  "sys_inv M (snd (k_spin_lock k)) = sys_inv M k" "sys_inv M (k_spin_unlock key k) = sys_inv M k"
  by (simp_all add: sys_inv_def)

text \<open>An object takes the first waiting thread, may write to memory, and wakes the thread.\<close>

lemma sys_inv_hand_over:
  assumes "sys_inv M k" "z_unpend_first_thread q k = (r, k1)"
  shows "r = None \<Longrightarrow> k1 = k"
    and "r = Some t \<Longrightarrow> sys_inv M (z_reschedule key (wake_with t v (k1\<lparr>mem := m\<rparr>)))"
    and "r = Some t \<Longrightarrow> sys_inv M (z_reschedule key (wake_with t v k1))"
    and "r = Some t \<Longrightarrow> sys_inv M (z_reschedule key (wake_with_data t v d k1))"
    and "r = Some t \<Longrightarrow> t \<noteq> z_idle_thread"
proof -
  show "k1 = k" if "r = None"
    using assms(2) that by (auto simp: z_unpend_first_thread_def split: option.splits)
  have u: "kinv_ex {t} k1" "sane M k1" "t \<noteq> z_idle_thread" if "r = Some t"
  proof -
    from assms(2) that obtain ts where q: "waitqs k q = t # ts"
      by (auto simp: z_unpend_first_thread_def waitq_head_Some split: option.splits)
    show "kinv_ex {t} k1" using kinv_unpend_first(2) [OF _ q] assms by (simp add: sys_inv_def)
    then show "t \<noteq> z_idle_thread" using sched_wfD(6) [OF kinv_exD(1)] by blast
    show "sane M k1" using sane_unpend_first [of M k q] assms by (simp add: sys_inv_def)
  qed
  show "sys_inv M (z_reschedule key (wake_with t v (k1\<lparr>mem := m\<rparr>)))" "sys_inv M (z_reschedule key (wake_with t v k1))"
    "sys_inv M (z_reschedule key (wake_with_data t v d k1))" "t \<noteq> z_idle_thread" if "r = Some t"
    using u [OF that] by (auto simp: sys_inv_def intro!: sane_intro kinv_reschedule kinv_wake_with)
qed

lemma sys_inv_pend [sys_intro]: "sys_inv M k \<Longrightarrow> runs k \<Longrightarrow> sys_inv M (z_pend_curr key q n k)"
  by (simp add: sys_inv_def kinv_pend_curr sane_pend_curr)

lemma sys_inv_reschedule [sys_intro]: "sys_inv M k \<Longrightarrow> sys_inv M (z_reschedule key k)"
  by (simp add: sys_inv_def kinv_reschedule sane_intro)

lemma runs_upds [simp]: "runs (k\<lparr>irq_unlocked := b\<rparr>) = runs k" "runs (upd_thread t f k) = runs k"
  by (simp_all add: runs_def)

text \<open>A call that may block needs a running thread outside of interrupts.\<close>

definition may_block :: "ticks \<Rightarrow> 'a kernel_scheme \<Rightarrow> bool" where
  "may_block n k \<longleftrightarrow> (n \<noteq> K_NO_WAIT \<longrightarrow> runs k)"

lemma sys_inv_each [sys_intro]: "sys_inv M k \<Longrightarrow> n = length (waitqs k q) \<Longrightarrow> sys_inv M (snd (unpend_each n q v k))"
  using unpend_each_spec(2) [of k q v] sane_unpend_each [of M k n q v] by (simp add: sys_inv_def)

lemma sys_inv_sem [sys_intro]:
  assumes "sys_inv M k"
  shows "sys_inv M (snd (k_sem_give sem k))" "sys_inv M (snd (k_sem_reset sem k))"
    and "may_block n k \<Longrightarrow> sys_inv M (snd (snd (k_sem_take sem n k)))"
proof -
  let ?k = "k\<lparr>irq_unlocked := False\<rparr>"
  obtain r k1 where u: "z_unpend_first_thread (sem_wait_q sem) ?k = (r, k1)" by fastforce
  note h = sys_inv_hand_over [OF _ u]
  show "sys_inv M (snd (k_sem_give sem k))"
    using assms h by (cases r) (simp_all add: k_sem_give_def k_spin_lock_def u)
  show "sys_inv M (snd (k_sem_reset sem k))"
    using assms sys_inv_each [of M ?k _ "sem_wait_q sem" "- EAGAIN"] by (simp add: k_sem_reset_def k_spin_lock_def Let_def sys_inv_reschedule)
  show "may_block n k \<Longrightarrow> sys_inv M (snd (snd (k_sem_take sem n k)))"
    using assms by (simp add: k_sem_take_def k_spin_lock_def may_block_def sys_inv_pend)
qed

lemma sys_inv_condvar [sys_intro]:
  assumes "sys_inv M k"
  shows "sys_inv M (snd (k_condvar_signal condvar k))" "sys_inv M (snd (k_condvar_broadcast condvar k))"
proof -
  let ?k = "k\<lparr>irq_unlocked := False\<rparr>"
  obtain r k1 where u: "z_unpend_first_thread (condvar_wait_q condvar) ?k = (r, k1)" by fastforce
  show "sys_inv M (snd (k_condvar_signal condvar k))"
    using assms sys_inv_hand_over [OF _ u] by (cases r) (simp_all add: k_condvar_signal_def k_spin_lock_def u)
  show "sys_inv M (snd (k_condvar_broadcast condvar k))"
    using assms sys_inv_each [of M ?k _ "condvar_wait_q condvar" 0]
    by (simp add: k_condvar_broadcast_def k_spin_lock_def Let_def case_prod_beta sys_inv_reschedule)
qed

lemma sys_inv_swap_data [simp]:
  "sys_inv M k \<Longrightarrow> sys_inv M (upd_thread t (\<lambda>th. th\<lparr>swap_data := d\<rparr>) k)"
  "sys_inv M k \<Longrightarrow> sys_inv M (upd_thread t (\<lambda>th. th\<lparr>events := es, event_options := o'\<rparr>) k)"
  by (auto simp: sys_inv_def intro!: sane_intro kinv_upd_other)

lemma sys_inv_msgq [sys_intro]:
  assumes "sys_inv M k"
  shows "may_block n k \<Longrightarrow> sys_inv M (snd (snd (k_msgq_put msgq data n k)))"
    and "may_block n k \<Longrightarrow> sys_inv M (snd (snd (k_msgq_get msgq data n k)))"
    and "sys_inv M (snd (k_msgq_purge msgq k))"
proof -
  let ?k = "k\<lparr>irq_unlocked := False\<rparr>"
  obtain r k1 where u: "z_unpend_first_thread (msgq_wait_q msgq) ?k = (r, k1)" by fastforce
  show "may_block n k \<Longrightarrow> sys_inv M (snd (snd (k_msgq_put msgq data n k)))"
    using assms sys_inv_hand_over [OF _ u]
    by (cases r) (simp_all add: k_msgq_put_def k_spin_lock_def u may_block_def sys_inv_pend ring_write_def Let_def)
  obtain r2 k2 where v: "z_unpend_first_thread (msgq_wait_q msgq) (snd (ring_read data msgq ?k)) = (r2, k2)" by fastforce
  have "sys_inv M (snd (ring_read data msgq ?k))" using assms by (simp add: ring_read_def Let_def)
  note h = sys_inv_hand_over [OF this v]
  show "may_block n k \<Longrightarrow> sys_inv M (snd (snd (k_msgq_get msgq data n k)))"
    using assms h \<open>sys_inv M (snd (ring_read data msgq ?k))\<close>
    by (cases r2) (simp_all add: k_msgq_get_def k_spin_lock_def may_block_def sys_inv_pend case_prod_beta v ring_write_def Let_def)
  show "sys_inv M (snd (k_msgq_purge msgq k))"
    using assms sys_inv_each [of M ?k _ "msgq_wait_q msgq" "- ENOMSG"]
    by (simp add: k_msgq_purge_def k_spin_lock_def Let_def sys_inv_reschedule)
qed

lemma sys_inv_stack [sys_intro]:
  assumes "sys_inv M k"
  shows "sys_inv M (snd (snd (k_stack_push stack d k)))"
    and "may_block n k \<Longrightarrow> sys_inv M (snd (snd (k_stack_pop stack d n k)))"
    and "sys_inv M (snd (k_stack_pop_resume t d k))"
proof -
  obtain r k1 where u: "z_unpend_first_thread (stack_wait_q stack) (k\<lparr>irq_unlocked := False\<rparr>) = (r, k1)" by fastforce
  show "sys_inv M (snd (snd (k_stack_push stack d k)))"
    using assms sys_inv_hand_over [OF _ u] by (cases r) (simp_all add: k_stack_push_def k_spin_lock_def u)
  show "may_block n k \<Longrightarrow> sys_inv M (snd (snd (k_stack_pop stack d n k)))" "sys_inv M (snd (k_stack_pop_resume t d k))"
    using assms by (simp_all add: k_stack_pop_def k_stack_pop_resume_def k_spin_lock_def may_block_def sys_inv_pend Let_def)
qed

lemma sys_inv_slab [sys_intro]:
  assumes "sys_inv M k"
  shows "may_block n k \<Longrightarrow> sys_inv M (snd (snd (k_mem_slab_alloc slab p n k)))"
    and "sys_inv M (snd (k_mem_slab_alloc_resume t p k))" and "sys_inv M (snd (k_mem_slab_free slab p k))"
proof -
  obtain r k1 where u: "z_unpend_first_thread (slab_wait_q slab) (k\<lparr>irq_unlocked := False\<rparr>) = (r, k1)" by fastforce
  show "may_block n k \<Longrightarrow> sys_inv M (snd (snd (k_mem_slab_alloc slab p n k)))" "sys_inv M (snd (k_mem_slab_alloc_resume t p k))"
    using assms by (simp_all add: k_mem_slab_alloc_def k_mem_slab_alloc_resume_def k_spin_lock_def may_block_def sys_inv_pend Let_def)
  show "sys_inv M (snd (k_mem_slab_free slab p k))"
    using assms sys_inv_hand_over [OF _ u]
    by (cases r) (simp_all add: k_mem_slab_free_def k_spin_lock_def u slab_put_back_def Let_def)
qed

lemma sys_inv_queue [sys_intro]:
  assumes "sys_inv M k"
  shows "sys_inv M (snd (snd (queue_insert malloc queue prev d alloc app k)))" and "sys_inv M (k_queue_cancel_wait queue k)"
    and "may_block n k \<Longrightarrow> sys_inv M (snd (snd (snd (k_queue_get queue n k))))"
proof -
  obtain r k1 where u: "z_unpend_first_thread (queue_wait_q queue) (k\<lparr>irq_unlocked := False\<rparr>) = (r, k1)" by fastforce
  note h = sys_inv_hand_over [OF _ u]
  show "sys_inv M (snd (snd (queue_insert malloc queue prev d alloc app k)))"
    using assms h by (cases r) (simp_all add: queue_insert_def k_spin_lock_def u case_prod_beta Let_def sys_inv_reschedule split: option.split)
  show "sys_inv M (k_queue_cancel_wait queue k)"
    using assms h by (cases r) (simp_all add: k_queue_cancel_wait_def k_spin_lock_def u sys_inv_reschedule)
  show "may_block n k \<Longrightarrow> sys_inv M (snd (snd (snd (k_queue_get queue n k))))"
    using assms by (simp add: k_queue_get_def k_spin_lock_def may_block_def sys_inv_pend case_prod_beta Let_def)
qed

lemma sane_wake_thread [sane_intro]: "sane M k \<Longrightarrow> sane M (z_sched_wake_thread t b k)"
  by (simp add: z_sched_wake_thread_def Let_def sane_intro)

lemma sane_walk: "sane M k \<Longrightarrow> sane M (snd (snd (waitq_walk (event_walk_op es) ts (h, k))))"
proof (induction ts arbitrary: h k)
  case (Cons t ts)
  have e: "fst (event_walk_op es t (h, k)) = 0" "sane M (snd (snd (event_walk_op es t (h, k))))"
    using Cons.prems by (simp_all add: event_walk_op_def Let_def sane_intro)
  obtain h' k' where w: "event_walk_op es t (h, k) = (0, h', k')" using e(1) by (metis prod.collapse)
  with e(2) Cons.IH [of k' h'] show ?case by simp
qed simp

lemma sane_wake_loop: "sane M k \<Longrightarrow> sane M (event_wake_loop n es h k)"
proof (induction n arbitrary: h k)
  case (Suc n)
  then show ?case by (auto simp: Let_def intro!: Suc.IH sane_intro split: option.split)
qed simp

lemma sys_inv_event [sys_intro]:
  assumes "sys_inv M k"
  shows "sys_inv M (snd (k_event_post_internal event new emask k))"
    and "may_block n k \<Longrightarrow> sys_inv M (snd (snd (k_event_wait_internal event es opts n k)))"
proof -
  let ?q = "event_wait_q event"
  note W = sched_wfD [OF kinv_exD(1)]
  have kk: "kinv k" "sane M k" using assms by (simp_all add: sys_inv_def)
  have a: "\<forall>t \<in> set (waitqs k ?q). \<not> bit (thread_state (threads k t)) 3"
    using kk W(9) [OF kk(1)] by (auto simp: sane_def)
  obtain event' k' where p: "k_event_post_internal event new emask k = (event', k')" by fastforce
  have "kinv k'" by (rule event_post_state [OF kk(1) p a]) (simp add: kinv_reschedule)
  moreover have "sane M k'"
    using p kk(2) sane_walk [of M "k\<lparr>irq_unlocked := False\<rparr>"]
    by (auto simp: k_event_post_internal_def k_spin_lock_def case_prod_beta Let_def intro!: sane_intro sane_wake_loop)
  ultimately show "sys_inv M (snd (k_event_post_internal event new emask k))" by (simp add: p sys_inv_def)
  show "may_block n k \<Longrightarrow> sys_inv M (snd (snd (k_event_wait_internal event es opts n k)))"
    using assms by (simp add: k_event_wait_internal_def k_spin_lock_def may_block_def sys_inv_pend Let_def)
qed

text \<open>A locked mutex has an owner, and the idle thread owns none.\<close>

definition mutex_wf :: "k_mutex \<Rightarrow> bool" where
  "mutex_wf mutex \<longleftrightarrow> (lock_count mutex \<noteq> 0 \<longrightarrow> owner mutex \<noteq> None) \<and> owner mutex \<noteq> Some z_idle_thread"

lemma sys_inv_adjust:
  assumes "sys_inv M k" "mutex_wf mutex" "owner mutex \<noteq> None"
  shows "sys_inv M (snd (adjust_owner_prio mutex p k))"
  using assms by (auto simp: adjust_owner_prio_def mutex_wf_def sys_inv_def kinv_set_prio sane_intro split: option.split)

lemma runs_adjust:
  assumes "kinv k" "mutex_wf mutex" "owner mutex \<noteq> None" "runs k"
  shows "runs (snd (adjust_owner_prio mutex p k))"
  using assms set_prio_runs [OF assms(1) _ assms(4)] by (auto simp: adjust_owner_prio_def mutex_wf_def split: option.split)

lemma runs_wake: "runs k \<Longrightarrow> runs (wake_with t v k)"
  by (simp add: runs_def wake_with_def z_ready_thread_def arch_thread_return_value_set_def ready_thread_def runq_queue)

lemma sys_inv_lock [sys_intro]:
  assumes "sys_inv M k" "mutex_wf mutex" "runs k"
  shows "sys_inv M (snd (snd (snd (k_mutex_lock mutex n k))))" "mutex_wf (fst (snd (snd (k_mutex_lock mutex n k))))"
proof -
  let ?k = "k\<lparr>irq_unlocked := False\<rparr>"
  have i: "sys_inv M ?k" "kinv ?k" "runs ?k" using assms by (simp_all add: sys_inv_def)
  have a: "sys_inv M (z_pend_curr key q n (snd (adjust_owner_prio mutex p ?k)))" "sys_inv M (z_pend_curr key q n ?k)"
    if "owner mutex \<noteq> None" for key q p
    using that i assms(2) by (simp_all add: sys_inv_pend sys_inv_adjust runs_adjust)
  consider (take) "lock_count mutex = 0 \<or> owner mutex = Some (current_thread k)"
    | (wait) t where "lock_count mutex \<noteq> 0" "owner mutex = Some t" "t \<noteq> current_thread k"
    using assms(2) by (auto simp: mutex_wf_def)
  then show "sys_inv M (snd (snd (snd (k_mutex_lock mutex n k))))"
  proof cases
    case take
    then show ?thesis using assms(1) by (simp add: k_mutex_lock_def k_spin_lock_def Let_def)
  next
    case wait
    then show ?thesis using assms(1) a by (simp add: k_mutex_lock_def k_spin_lock_def Let_def case_prod_beta)
  qed
  have "current_thread k \<noteq> z_idle_thread" using runs_not_idle [of k] assms(1,3) by (simp add: sys_inv_def)
  with assms(2) show "mutex_wf (fst (snd (snd (k_mutex_lock mutex n k))))"
    by (auto simp: k_mutex_lock_def k_spin_lock_def Let_def case_prod_beta mutex_wf_def split: option.split)
qed

lemma sys_inv_lock_resume [sys_intro]:
  assumes "sys_inv M k" "mutex_wf mutex"
  shows "sys_inv M (snd (k_mutex_lock_resume mutex b got k))"
proof -
  have "sys_inv M (snd (adjust_owner_prio mutex p (k\<lparr>irq_unlocked := False\<rparr>)))" if "owner mutex \<noteq> None" for p
    using that assms by (simp add: sys_inv_adjust)
  with assms(1) show ?thesis
    by (simp add: k_mutex_lock_resume_def k_spin_lock_def Let_def case_prod_beta sys_inv_reschedule)
qed

lemma sys_inv_unlock [sys_intro]:
  assumes "sys_inv M k" "mutex_wf mutex"
  shows "sys_inv M (snd (snd (k_mutex_unlock mutex k)))" "mutex_wf (fst (snd (k_mutex_unlock mutex k)))"
    and "\<not> irq_unlocked k \<Longrightarrow> runs k \<Longrightarrow> runs (snd (snd (k_mutex_unlock mutex k)))"
proof -
  let ?k = "k\<lparr>irq_unlocked := False\<rparr>"
  let ?k2 = "snd (adjust_owner_prio mutex (owner_orig_prio mutex) ?k)"
  obtain r k3 where u: "z_unpend_first_thread (mutex_wait_q mutex) ?k2 = (r, k3)" by fastforce
  have k2: "sys_inv M ?k2" if "owner mutex \<noteq> None" using that assms by (simp add: sys_inv_adjust)
  note h = sys_inv_hand_over [OF k2 u]
  show "sys_inv M (snd (snd (k_mutex_unlock mutex k)))"
    using assms(1) h k2 by (cases r) (simp_all add: k_mutex_unlock_def k_spin_lock_def u)
  show "mutex_wf (fst (snd (k_mutex_unlock mutex k)))"
    using assms(2) h(5) by (cases r) (auto simp: k_mutex_unlock_def k_spin_lock_def u mutex_wf_def)
  show "runs (snd (snd (k_mutex_unlock mutex k)))" if "\<not> irq_unlocked k" "runs k"
  proof (cases "owner mutex = None")
    case False
    have i: "kinv ?k" "runs ?k" using assms that by (simp_all add: sys_inv_def)
    have "runs ?k2" using runs_adjust [OF i(1) assms(2) False i(2)] .
    moreover have "runq k3 = runq ?k2" "current_thread k3 = current_thread ?k2"
      using u by (auto simp: z_unpend_first_thread_def z_abort_thread_timeout_def split: option.splits)
    ultimately have "runs k3" by (simp add: runs_def)
    then show ?thesis using that runs_wake
      by (cases r) (auto simp: k_mutex_unlock_def k_spin_lock_def k_spin_unlock_def u z_reschedule_def resched_def)
  qed (use that in \<open>simp add: k_mutex_unlock_def\<close>)
qed

lemma sys_inv_condvar_wait [sys_intro]:
  assumes "sys_inv M k" "mutex_wf mutex" "runs k"
  shows "sys_inv M (snd (snd (k_condvar_wait condvar mutex n k)))" "mutex_wf (fst (snd (k_condvar_wait condvar mutex n k)))"
  using sys_inv_unlock [of M "k\<lparr>irq_unlocked := False\<rparr>" mutex] assms
  by (simp_all add: k_condvar_wait_def k_spin_lock_def case_prod_beta sys_inv_pend)

section \<open>Timers and ticks\<close>

text \<open>On a state with timers: the invariant, with the objects \<open>R\<close> beyond the timers.\<close>

definition tinv :: "'a \<Rightarrow> 'a timer_kernel_scheme \<Rightarrow> bool" where
  "tinv R k \<longleftrightarrow> sys_inv (kernel.more k) k \<and> timer_kernel.more k = R"

lemma more_timers:
  assumes "kernel.more k' = kernel.more k"
  shows "timer_kernel.more k' = timer_kernel.more k" "timers k' = timers k"
  using assms by (cases k; cases k'; simp)+

lemma tinv_lift: "tinv R k \<Longrightarrow> (\<And>M. sys_inv M k \<Longrightarrow> sys_inv M k') \<Longrightarrow> tinv R k'"
  using more_timers [of k' k] by (fastforce simp: tinv_def sys_inv_def sane_def)

lemma tinv_step: "tinv R k \<Longrightarrow> (\<And>M. sane M k \<Longrightarrow> sane M k') \<Longrightarrow> kinv k' \<Longrightarrow> tinv R k'"
  by (rule tinv_lift) (auto simp: sys_inv_def)

lemma tinvD: "tinv R k \<Longrightarrow> kinv k" "tinv R k \<Longrightarrow> fn_ok k"
  by (auto simp: tinv_def sys_inv_def sane_fn_ok)

lemma tinv_upd_timer [simp]: "tinv R k \<Longrightarrow> tinv R (upd_timer n f k)"
  by (simp add: tinv_def sys_inv_def sane_def) (simp add: upd_timer_def)

lemma tinv_add_timer: "tinv R k \<Longrightarrow> \<not> to_linked (TimerTO n) k \<Longrightarrow> tinv R (z_add_timeout (TimerTO n) Z_timer_expiration_handler d k)"
  by (rule tinv_step [of R k]) (simp_all add: sane_intro kinv_add_timer tinvD)

lemma tinv_abort_timer: "tinv R k \<Longrightarrow> tinv R (snd (z_abort_timeout (TimerTO n) k))"
  by (rule tinv_step [of R k]) (simp_all add: sane_intro kinv_abort_timer tinvD)

lemma tinv_timer_start:
  assumes "tinv R k"
  shows "tinv R (k_timer_start n d p k)"
proof -
  let ?k = "upd_timer n (\<lambda>timer. timer\<lparr>period := p, status := 0\<rparr>) (snd (z_abort_timeout (TimerTO n) k))"
  have "tinv R ?k" using tinv_abort_timer [OF assms] by simp
  moreover have "\<not> to_linked (TimerTO n) ?k" using sched_wfD(12) [OF kinv_exD(1) [OF tinvD(1) [OF assms]]] by simp
  ultimately have "tinv R (z_add_timeout (TimerTO n) Z_timer_expiration_handler d' ?k)" for d' by (rule tinv_add_timer)
  with assms show ?thesis by (simp add: k_timer_start_def Let_def)
qed

lemma tinv_timer_sync: "tinv R k \<Longrightarrow> runs k \<Longrightarrow> tinv R (snd (k_timer_status_sync n k))"
proof -
  assume k: "tinv R k" "runs k"
  have "tinv R (k\<lparr>irq_unlocked := b\<rparr>)" for b by (rule tinv_lift [OF k(1)]) simp
  moreover have "tinv R (z_pend_curr key q d (k\<lparr>irq_unlocked := False\<rparr>))" for key q d
    by (rule tinv_lift [OF k(1)]) (simp add: sys_inv_pend k(2))
  moreover have "k_spin_unlock key x = x\<lparr>irq_unlocked := key\<rparr>" for key and x :: "'a timer_kernel_scheme"
    by (simp add: k_spin_unlock_def)
  moreover have "(upd_timer n f x)\<lparr>irq_unlocked := b\<rparr> = upd_timer n f (x\<lparr>irq_unlocked := b\<rparr>)" for f b and x :: "'a timer_kernel_scheme"
    by (simp add: upd_timer_def)
  ultimately show ?thesis using k(1) by (simp add: k_timer_status_sync_def k_spin_lock_def Let_def)
qed

lemma tinv_timer_wake: "tinv R k \<Longrightarrow> tinv R (timer_wake n k)"
proof -
  assume k: "tinv R k"
  have "sane M (timer_wake n k)" if "sane M k" for M
    using that by (simp add: timer_wake_def z_unpend_thread_no_timeout_def sane_intro split: option.split)
  then show "tinv R (timer_wake n k)" using kinv_timer_wake [OF tinvD(1) [OF k]] by (rule tinv_step [OF k])
qed

lemma tinv_stop_wake:
  assumes k: "tinv R k"
  shows "tinv R (case z_unpend1_no_timeout q k of (None, k3) \<Rightarrow> k3
      | (Some t, k3) \<Rightarrow> z_reschedule_unlocked (z_ready_thread t k3))"
proof (cases "waitqs k q")
  case Nil
  with k show ?thesis by (simp add: z_unpend1_no_timeout_def z_waitq_head_def z_priq_dumb_best_def)
next
  case (Cons t ts)
  have "kinv_ex {t} (unpend_thread_no_timeout t k)"
    using kinv_unpend [OF tinvD(1) [OF k] head_pended [OF kinv_exD(1) [OF tinvD(1) [OF k]] Cons]] by simp
  then have "kinv (z_reschedule_unlocked (ready_thread t (unpend_thread_no_timeout t k)))"
    by (intro kinv_reschedule kinv_ready_one)
  then have "tinv R (z_reschedule_unlocked (ready_thread t (unpend_thread_no_timeout t k)))"
    by (intro tinv_step [OF k]) (simp_all add: sane_intro)
  with Cons show ?thesis by (simp add: z_unpend1_no_timeout_def z_waitq_head_def z_priq_dumb_best_def z_ready_thread_def)
qed

end
