(* ===== verification/System.thy ===== *)
theory System
  imports Kernel_Inv
begin

text \<open>
  The kernel as a whole: a system call of the running thread, an interrupt handler or a tick
  of the clock is a step on the state of the scheduler and of all kernel objects.
  The invariant of the scheduler holds in every state that any sequence of such
  steps reaches from the boot state.
\<close>

section \<open>The system\<close>

record system = timer_kernel +
  sems :: "nat \<Rightarrow> k_sem"
  mutexes :: "nat \<Rightarrow> k_mutex"
  condvars :: "nat \<Rightarrow> k_condvar"
  msgqs :: "nat \<Rightarrow> k_msgq"
  stacks :: "nat \<Rightarrow> k_stack"
  slabs :: "nat \<Rightarrow> k_mem_slab"
  queues :: "nat \<Rightarrow> k_queue"
  event_objs :: "nat \<Rightarrow> k_event"

text \<open>
  What a thread or an interrupt handler can do, and what the hardware does:
  interrupts, the passing of ticks and their announcement.
\<close>

datatype call =
    Sem_give nat | Sem_take nat ticks | Sem_reset nat
  | Mutex_lock nat ticks | Mutex_lock_back nat bool int | Mutex_unlock nat
  | Condvar_signal nat | Condvar_broadcast nat | Condvar_wait nat nat ticks
  | Msgq_put nat addr ticks | Msgq_get nat addr ticks | Msgq_purge nat
  | Stack_push nat addr | Stack_pop nat addr ticks | Stack_pop_back addr
  | Slab_alloc nat addr ticks | Slab_alloc_back addr | Slab_free nat addr
  | Queue_put nat addr addr bool bool | Queue_get nat ticks | Queue_cancel nat
  | Event_post nat u32 u32 | Event_wait nat u32 u32 ticks
  | Timer_start nat ticks ticks | Timer_stop nat | Timer_status nat | Timer_sync nat
  | Yield | Sleep ticks | Usleep int | Suspend tid | Resume tid | Wakeup tid | Priority_set tid int
  | Sched_lock | Sched_unlock | Start tid | Create tid int u8 ticks | Abort tid | Join tid ticks
  | Isr_enter | Isr_exit | Elapse int | Announce int

text \<open>The asserts of the calls, and the uses that their descriptions in \<^verbatim>\<open>kernel.h\<close> rule out.\<close>

definition in_thread :: "system \<Rightarrow> bool" where
  "in_thread s \<longleftrightarrow> runs s \<and> \<not> in_isr s"

definition blocking :: "ticks \<Rightarrow> system \<Rightarrow> bool" where
  "blocking n s \<longleftrightarrow> n = K_NO_WAIT \<or> in_thread s"

fun allowed :: "call \<Rightarrow> system \<Rightarrow> bool" where
  "allowed (Sem_take i n) s = blocking n s"
| "allowed (Mutex_lock i n) s = in_thread s"
| "allowed (Mutex_lock_back i b r) s = in_thread s"
| "allowed (Mutex_unlock i) s = in_thread s"
| "allowed (Condvar_wait i j n) s = in_thread s"
| "allowed (Msgq_put i d n) s = blocking n s"
| "allowed (Msgq_get i d n) s = blocking n s"
| "allowed (Stack_pop i d n) s = blocking n s"
| "allowed (Slab_alloc i d n) s = blocking n s"
| "allowed (Queue_get i n) s = blocking n s"
| "allowed (Event_wait i es opts n) s = blocking n s"
| "allowed (Timer_sync i) s = in_thread s"
| "allowed Yield s = in_thread s"
| "allowed (Sleep n) s = in_thread s"
| "allowed (Usleep n) s = in_thread s"
| "allowed (Suspend t) s = (t \<noteq> z_idle_thread)"
| "allowed (Resume t) s = (t \<noteq> z_idle_thread)"
| "allowed (Wakeup t) s = (t \<noteq> z_idle_thread)"
| "allowed (Priority_set t p) s = (t \<noteq> z_idle_thread)"
| "allowed Sched_lock s = (in_thread s \<and> sched_locked (threads s (current_thread s)) \<noteq> 1)"
| "allowed Sched_unlock s = in_thread s"
| "allowed (Start t) s = (t \<noteq> z_idle_thread)"
| "allowed (Create t p opts n) s = (t \<noteq> z_idle_thread \<and> t \<noteq> current_thread s \<and> prevented s t \<and>
     pended_on (threads s t) = None \<and> \<not> to_linked (ThreadTO t) s \<and> waitqs s (JoinQ t) = [])"
| "allowed (Abort t) s = (t \<noteq> z_idle_thread \<and> user_options (threads s t) AND K_ESSENTIAL = 0)"
| "allowed (Join t n) s = in_thread s"
| "allowed Isr_exit s = in_isr s"
| "allowed (Elapse e) s = (0 \<le> e)"
| "allowed (Announce n) s = (in_isr s \<and> 0 \<le> n)"
| "allowed _ s = True"

text \<open>What comes from outside of the kernel: the functions of the timers, the allocator and the clock rates.\<close>

record env =
  env_expiry :: "nat \<Rightarrow> system \<Rightarrow> system"
  env_stop :: "nat \<Rightarrow> system \<Rightarrow> system"
  env_malloc :: "nat \<Rightarrow> addr"
  env_clock :: clock_config

fun exec :: "env \<Rightarrow> call \<Rightarrow> system \<Rightarrow> system option" where
  "exec e (Sem_give i) s = (let (x, s1) = k_sem_give (sems s i) s in Some (s1\<lparr>sems := (sems s1)(i := x)\<rparr>))"
| "exec e (Sem_take i n) s = (let (r, x, s1) = k_sem_take (sems s i) n s in Some (s1\<lparr>sems := (sems s1)(i := x)\<rparr>))"
| "exec e (Sem_reset i) s = (let (x, s1) = k_sem_reset (sems s i) s in Some (s1\<lparr>sems := (sems s1)(i := x)\<rparr>))"
| "exec e (Mutex_lock i n) s = (let (r, b, x, s1) = k_mutex_lock (mutexes s i) n s in Some (s1\<lparr>mutexes := (mutexes s1)(i := x)\<rparr>))"
| "exec e (Mutex_lock_back i b got) s = Some (snd (k_mutex_lock_resume (mutexes s i) b got s))"
| "exec e (Mutex_unlock i) s = (let (r, x, s1) = k_mutex_unlock (mutexes s i) s in Some (s1\<lparr>mutexes := (mutexes s1)(i := x)\<rparr>))"
| "exec e (Condvar_signal i) s = Some (snd (k_condvar_signal (condvars s i) s))"
| "exec e (Condvar_broadcast i) s = Some (snd (k_condvar_broadcast (condvars s i) s))"
| "exec e (Condvar_wait i j n) s =
     (let (r, x, s1) = k_condvar_wait (condvars s i) (mutexes s j) n s in Some (s1\<lparr>mutexes := (mutexes s1)(j := x)\<rparr>))"
| "exec e (Msgq_put i d n) s = (let (r, x, s1) = k_msgq_put (msgqs s i) d n s in Some (s1\<lparr>msgqs := (msgqs s1)(i := x)\<rparr>))"
| "exec e (Msgq_get i d n) s = (let (r, x, s1) = k_msgq_get (msgqs s i) d n s in Some (s1\<lparr>msgqs := (msgqs s1)(i := x)\<rparr>))"
| "exec e (Msgq_purge i) s = (let (x, s1) = k_msgq_purge (msgqs s i) s in Some (s1\<lparr>msgqs := (msgqs s1)(i := x)\<rparr>))"
| "exec e (Stack_push i d) s = (let (r, x, s1) = k_stack_push (stacks s i) d s in Some (s1\<lparr>stacks := (stacks s1)(i := x)\<rparr>))"
| "exec e (Stack_pop i d n) s = (let (r, x, s1) = k_stack_pop (stacks s i) d n s in Some (s1\<lparr>stacks := (stacks s1)(i := x)\<rparr>))"
| "exec e (Stack_pop_back d) s = Some (snd (k_stack_pop_resume (current_thread s) d s))"
| "exec e (Slab_alloc i p n) s = (let (r, x, s1) = k_mem_slab_alloc (slabs s i) p n s in Some (s1\<lparr>slabs := (slabs s1)(i := x)\<rparr>))"
| "exec e (Slab_alloc_back p) s = Some (snd (k_mem_slab_alloc_resume (current_thread s) p s))"
| "exec e (Slab_free i p) s = (let (x, s1) = k_mem_slab_free (slabs s i) p s in Some (s1\<lparr>slabs := (slabs s1)(i := x)\<rparr>))"
| "exec e (Queue_put i prev d alloc app) s =
     (let (r, x, s1) = queue_insert (env_malloc e) (queues s i) prev d alloc app s in Some (s1\<lparr>queues := (queues s1)(i := x)\<rparr>))"
| "exec e (Queue_get i n) s = (let (r, f, x, s1) = k_queue_get (queues s i) n s in Some (s1\<lparr>queues := (queues s1)(i := x)\<rparr>))"
| "exec e (Queue_cancel i) s = Some (k_queue_cancel_wait (queues s i) s)"
| "exec e (Event_post i es m) s =
     (let (x, s1) = k_event_post_internal (event_objs s i) es m s in Some (s1\<lparr>event_objs := (event_objs s1)(i := x)\<rparr>))"
| "exec e (Event_wait i es opts n) s =
     (let (r, x, s1) = k_event_wait_internal (event_objs s i) es opts n s in Some (s1\<lparr>event_objs := (event_objs s1)(i := x)\<rparr>))"
| "exec e (Timer_start i d p) s = Some (k_timer_start i d p s)"
| "exec e (Timer_stop i) s = Some (k_timer_stop (env_stop e) i s)"
| "exec e (Timer_status i) s = Some (snd (k_timer_status_get i s))"
| "exec e (Timer_sync i) s = Some (snd (k_timer_status_sync i s))"
| "exec e Yield s = Some (k_yield s)"
| "exec e (Sleep n) s = Some (snd (k_sleep (env_clock e) n s))"
| "exec e (Usleep us) s = Some (snd (k_usleep (env_clock e) us s))"
| "exec e (Suspend t) s = Some (k_thread_suspend t s)"
| "exec e (Resume t) s = Some (k_thread_resume t s)"
| "exec e (Wakeup t) s = Some (k_wakeup t s)"
| "exec e (Priority_set t p) s = Some (k_thread_priority_set t p s)"
| "exec e Sched_lock s = Some (k_sched_lock s)"
| "exec e Sched_unlock s = Some (k_sched_unlock s)"
| "exec e (Start t) s = Some (k_thread_start t s)"
| "exec e (Create t p opts n) s = Some (k_thread_create t p opts n s)"
| "exec e (Abort t) s = Some (z_thread_abort t s)"
| "exec e (Join t n) s = Some (snd (k_thread_join t n s))"
| "exec e Isr_enter s = Some (s\<lparr>in_isr := True\<rparr>)"
| "exec e Isr_exit s = Some ((z_get_next_switch_handle s)\<lparr>in_isr := False\<rparr>)"
| "exec e (Elapse n) s = Some (s\<lparr>clk_elapsed := n\<rparr>)"
| "exec e (Announce n) s = sys_clock_announce (env_expiry e) n s"

text \<open>The states that a system reaches from one in which it has started.\<close>

inductive reach :: "env \<Rightarrow> system \<Rightarrow> system \<Rightarrow> bool" for e s0 where
  start: "reach e s0 s0"
| step: "reach e s0 s \<Longrightarrow> allowed c s \<Longrightarrow> exec e c s = Some s' \<Longrightarrow> reach e s0 s'"

section \<open>Every step keeps the invariant\<close>

definition sinv :: "system \<Rightarrow> bool" where
  "sinv s \<longleftrightarrow> tinv (timer_kernel.more s) s \<and> (\<forall>i. mutex_wf (mutexes s i))"

definition good_env :: "env \<Rightarrow> bool" where
  "good_env e \<longleftrightarrow> (\<forall>n s. sinv s \<longrightarrow> sinv (env_stop e n s)) \<and>
     (\<forall>n s. sinv s \<and> in_isr s \<longrightarrow> sinv (env_expiry e n s) \<and> in_isr (env_expiry e n s) \<and> later s (env_expiry e n s))"

lemma more_objects:
  assumes "timer_kernel.more s' = timer_kernel.more s"
  shows "mutexes s' = mutexes s"
  using assms by (cases s; cases s'; simp)

lemma sinv_tinv: "sinv s \<Longrightarrow> tinv (timer_kernel.more s) s' \<Longrightarrow> sinv s'"
  using more_objects [of s' s] by (auto simp: sinv_def tinv_def)

lemma sinv_lift: "sinv s \<Longrightarrow> (\<And>M. sys_inv M s \<Longrightarrow> sys_inv M s') \<Longrightarrow> sinv s'"
  using sinv_tinv [of s s'] tinv_lift [of "timer_kernel.more s" s s'] by (simp add: sinv_def)

lemma sinv_sane: "sinv s \<Longrightarrow> (\<And>M. sane M s \<Longrightarrow> sane M s') \<Longrightarrow> kinv s' \<Longrightarrow> sinv s'"
  by (rule sinv_lift [of s]) (simp_all add: sys_inv_def)

lemma sinvD: "sinv s \<Longrightarrow> kinv s" "sinv s \<Longrightarrow> mutex_wf (mutexes s i)"
  by (auto simp: sinv_def tinvD)

lemma sinv_objects:
  assumes "sinv s"
  shows "sinv (s\<lparr>sems := x1\<rparr>)" "sinv (s\<lparr>msgqs := x3\<rparr>)" "sinv (s\<lparr>stacks := x4\<rparr>)" "sinv (s\<lparr>slabs := x5\<rparr>)"
    "sinv (s\<lparr>queues := x6\<rparr>)" "sinv (s\<lparr>event_objs := x7\<rparr>)"
    and "\<forall>i. mutex_wf (x2 i) \<Longrightarrow> sinv (s\<lparr>mutexes := x2\<rparr>)"
proof -
  note k = kinv_frame_timeouts [OF sinvD(1) [OF assms]] and w = sched_wfD(12) [OF kinv_exD(1) [OF sinvD(1) [OF assms]]]
  have "kinv (s\<lparr>sems := x1\<rparr>)" "kinv (s\<lparr>msgqs := x3\<rparr>)" "kinv (s\<lparr>stacks := x4\<rparr>)" "kinv (s\<lparr>slabs := x5\<rparr>)"
    "kinv (s\<lparr>queues := x6\<rparr>)" "kinv (s\<lparr>event_objs := x7\<rparr>)" "kinv (s\<lparr>mutexes := x2\<rparr>)"
    using w by (intro k; simp add: to_linked_def timeout_wf_def)+
  then show "sinv (s\<lparr>sems := x1\<rparr>)" "sinv (s\<lparr>msgqs := x3\<rparr>)" "sinv (s\<lparr>stacks := x4\<rparr>)" "sinv (s\<lparr>slabs := x5\<rparr>)"
    "sinv (s\<lparr>queues := x6\<rparr>)" "sinv (s\<lparr>event_objs := x7\<rparr>)" "\<forall>i. mutex_wf (x2 i) \<Longrightarrow> sinv (s\<lparr>mutexes := x2\<rparr>)"
    using assms by (simp_all add: sinv_def tinv_def sys_inv_def sane_def)
qed

text \<open>Calls that only concern the scheduler and the object they are made on.\<close>

lemma blocking_may: "blocking n s \<Longrightarrow> may_block n s"
  by (auto simp: blocking_def may_block_def in_thread_def)

lemma sys_inv_of: "sinv s \<Longrightarrow> sys_inv (kernel.more s) s"
  by (simp add: sinv_def tinv_def)

lemma step_sync:
  assumes "sinv s"
  shows "exec e (Sem_give i) s = Some s' \<Longrightarrow> sinv s'"
    and "exec e (Sem_take i n) s = Some s' \<Longrightarrow> blocking n s \<Longrightarrow> sinv s'"
    and "exec e (Sem_reset i) s = Some s' \<Longrightarrow> sinv s'"
    and "exec e (Condvar_signal i) s = Some s' \<Longrightarrow> sinv s'"
    and "exec e (Condvar_broadcast i) s = Some s' \<Longrightarrow> sinv s'"
    and "exec e (Event_post i es m) s = Some s' \<Longrightarrow> sinv s'"
    and "exec e (Event_wait i es opts n) s = Some s' \<Longrightarrow> blocking n s \<Longrightarrow> sinv s'"
proof -
  note L = sinv_lift [OF assms]
  have "sinv (snd (k_sem_give x1 s))" "sinv (snd (k_sem_reset x1 s))" "sinv (snd (k_condvar_signal x2 s))"
    "sinv (snd (k_condvar_broadcast x2 s))" "sinv (snd (k_event_post_internal x3 es m s))" for x1 x2 x3
    by (rule L; simp add: sys_intro)+
  moreover have "sinv (snd (snd (k_sem_take x1 n s)))" "sinv (snd (snd (k_event_wait_internal x3 es opts n s)))"
    if "blocking n s" for x1 x3
    using blocking_may [OF that] by (intro L; simp add: sys_intro)+
  ultimately show "exec e (Sem_give i) s = Some s' \<Longrightarrow> sinv s'"
    "exec e (Sem_take i n) s = Some s' \<Longrightarrow> blocking n s \<Longrightarrow> sinv s'" "exec e (Sem_reset i) s = Some s' \<Longrightarrow> sinv s'"
    "exec e (Condvar_signal i) s = Some s' \<Longrightarrow> sinv s'" "exec e (Condvar_broadcast i) s = Some s' \<Longrightarrow> sinv s'"
    "exec e (Event_post i es m) s = Some s' \<Longrightarrow> sinv s'"
    "exec e (Event_wait i es opts n) s = Some s' \<Longrightarrow> blocking n s \<Longrightarrow> sinv s'"
    by (auto simp: case_prod_beta Let_def sinv_objects)
qed

lemma step_data:
  assumes "sinv s"
  shows "exec e (Msgq_put i d n) s = Some s' \<Longrightarrow> blocking n s \<Longrightarrow> sinv s'"
    and "exec e (Msgq_get i d n) s = Some s' \<Longrightarrow> blocking n s \<Longrightarrow> sinv s'"
    and "exec e (Msgq_purge i) s = Some s' \<Longrightarrow> sinv s'"
    and "exec e (Stack_push i d) s = Some s' \<Longrightarrow> sinv s'"
    and "exec e (Stack_pop i d n) s = Some s' \<Longrightarrow> blocking n s \<Longrightarrow> sinv s'"
    and "exec e (Stack_pop_back d) s = Some s' \<Longrightarrow> sinv s'"
    and "exec e (Slab_alloc i d n) s = Some s' \<Longrightarrow> blocking n s \<Longrightarrow> sinv s'"
    and "exec e (Slab_alloc_back d) s = Some s' \<Longrightarrow> sinv s'"
    and "exec e (Slab_free i d) s = Some s' \<Longrightarrow> sinv s'"
    and "exec e (Queue_put i prev d alloc app) s = Some s' \<Longrightarrow> sinv s'"
    and "exec e (Queue_get i n) s = Some s' \<Longrightarrow> blocking n s \<Longrightarrow> sinv s'"
    and "exec e (Queue_cancel i) s = Some s' \<Longrightarrow> sinv s'"
proof -
  note L = sinv_lift [OF assms]
  have "sinv (snd (k_msgq_purge x1 s))" "sinv (snd (snd (k_stack_push x2 d s)))" "sinv (snd (k_stack_pop_resume t d s))"
    "sinv (snd (k_mem_slab_alloc_resume t d s))" "sinv (snd (k_mem_slab_free x3 d s))"
    "sinv (snd (snd (queue_insert mal x4 prev d alloc app s)))" "sinv (k_queue_cancel_wait x4 s)" for x1 x2 x3 x4 t mal
    by (rule L; simp add: sys_intro)+
  moreover have "sinv (snd (snd (k_msgq_put x1 d n s)))" "sinv (snd (snd (k_msgq_get x1 d n s)))" "sinv (snd (snd (k_stack_pop x2 d n s)))"
    "sinv (snd (snd (k_mem_slab_alloc x3 d n s)))" "sinv (snd (snd (snd (k_queue_get x4 n s))))" if "blocking n s" for x1 x2 x3 x4
    using blocking_may [OF that] by (intro L; simp add: sys_intro)+
  ultimately show "exec e (Msgq_put i d n) s = Some s' \<Longrightarrow> blocking n s \<Longrightarrow> sinv s'"
    "exec e (Msgq_get i d n) s = Some s' \<Longrightarrow> blocking n s \<Longrightarrow> sinv s'" "exec e (Msgq_purge i) s = Some s' \<Longrightarrow> sinv s'"
    "exec e (Stack_push i d) s = Some s' \<Longrightarrow> sinv s'" "exec e (Stack_pop i d n) s = Some s' \<Longrightarrow> blocking n s \<Longrightarrow> sinv s'"
    "exec e (Stack_pop_back d) s = Some s' \<Longrightarrow> sinv s'" "exec e (Slab_alloc i d n) s = Some s' \<Longrightarrow> blocking n s \<Longrightarrow> sinv s'"
    "exec e (Slab_alloc_back d) s = Some s' \<Longrightarrow> sinv s'" "exec e (Slab_free i d) s = Some s' \<Longrightarrow> sinv s'"
    "exec e (Queue_put i prev d alloc app) s = Some s' \<Longrightarrow> sinv s'"
    "exec e (Queue_get i n) s = Some s' \<Longrightarrow> blocking n s \<Longrightarrow> sinv s'" "exec e (Queue_cancel i) s = Some s' \<Longrightarrow> sinv s'"
    by (auto simp: case_prod_beta Let_def sinv_objects)
qed

lemma step_mutex:
  assumes "sinv s" "in_thread s"
  shows "exec e (Mutex_lock i n) s = Some s' \<Longrightarrow> sinv s'" "exec e (Mutex_lock_back i b got) s = Some s' \<Longrightarrow> sinv s'"
    "exec e (Mutex_unlock i) s = Some s' \<Longrightarrow> sinv s'" "exec e (Condvar_wait j i n) s = Some s' \<Longrightarrow> sinv s'"
proof -
  note L = sinv_lift [OF assms(1)]
  have r: "runs s" and m: "mutex_wf (mutexes s i)" using assms sinvD by (auto simp: in_thread_def)
  have o: "sinv (s1\<lparr>mutexes := (mutexes s1)(i := x)\<rparr>)" if "sinv s1" "mutex_wf x" for s1 x
    using that sinvD(2) [OF that(1)] by (intro sinv_objects(7)) auto
  have "sinv (snd (snd (snd (k_mutex_lock (mutexes s i) n s))))" "sinv (snd (k_mutex_lock_resume (mutexes s i) b got s))"
    "sinv (snd (snd (k_mutex_unlock (mutexes s i) s)))" "sinv (snd (snd (k_condvar_wait (condvars s j) (mutexes s i) n s)))"
    by (rule L; simp add: sys_intro r m)+
  moreover note sys_inv_lock(2) [OF sys_inv_of [OF assms(1)] m r, of n] sys_inv_unlock(2) [OF sys_inv_of [OF assms(1)] m]
    sys_inv_condvar_wait(2) [OF sys_inv_of [OF assms(1)] m r, of "condvars s j" n]
  ultimately show "exec e (Mutex_lock i n) s = Some s' \<Longrightarrow> sinv s'" "exec e (Mutex_lock_back i b got) s = Some s' \<Longrightarrow> sinv s'"
    "exec e (Mutex_unlock i) s = Some s' \<Longrightarrow> sinv s'" "exec e (Condvar_wait j i n) s = Some s' \<Longrightarrow> sinv s'"
    by (auto simp: case_prod_beta Let_def o)
qed

lemma step_thread:
  assumes "sinv s"
  shows "t \<noteq> z_idle_thread \<Longrightarrow> sinv (k_thread_suspend t s)" "t \<noteq> z_idle_thread \<Longrightarrow> sinv (k_thread_resume t s)"
    "t \<noteq> z_idle_thread \<Longrightarrow> sinv (k_wakeup t s)" "t \<noteq> z_idle_thread \<Longrightarrow> sinv (k_thread_priority_set t p s)"
    "t \<noteq> z_idle_thread \<Longrightarrow> sinv (k_thread_start t s)" "allowed (Abort t) s \<Longrightarrow> sinv (z_thread_abort t s)"
    "allowed (Create t p opts n) s \<Longrightarrow> sinv (k_thread_create t p opts n s)"
    "runs s \<Longrightarrow> sinv (k_yield s)" "runs s \<Longrightarrow> sinv (snd (k_sleep c n s))" "runs s \<Longrightarrow> sinv (snd (k_usleep c us s))"
    "runs s \<Longrightarrow> sched_locked (threads s (current_thread s)) \<noteq> 1 \<Longrightarrow> sinv (k_sched_lock s)" "runs s \<Longrightarrow> sinv (k_sched_unlock s)"
    "runs s \<Longrightarrow> sinv (snd (k_thread_join t n s))"
  by (rule sinv_sane [OF assms]; simp add: sane_intro inv_intro sinvD [OF assms] k_thread_start_def)+

lemma step_timer:
  assumes "sinv s"
  shows "sinv (k_timer_start i d p s)" "sinv (snd (k_timer_status_get i s))" "runs s \<Longrightarrow> sinv (snd (k_timer_status_sync i s))"
    "good_env e \<Longrightarrow> sinv (k_timer_stop (env_stop e) i s)"
proof -
  have t: "tinv (timer_kernel.more s) s" using assms by (simp add: sinv_def)
  show "sinv (k_timer_start i d p s)" "sinv (snd (k_timer_status_get i s))" "runs s \<Longrightarrow> sinv (snd (k_timer_status_sync i s))"
    by (rule sinv_tinv [OF assms]; simp add: tinv_timer_start tinv_timer_sync t k_timer_status_get_def)+
  show "sinv (k_timer_stop (env_stop e) i s)" if "good_env e"
  proof -
    let ?s1 = "snd (z_abort_timeout (TimerTO i) s)"
    have s1: "sinv ?s1" by (rule sinv_tinv [OF assms tinv_abort_timer [OF t]])
    then have "sinv (if stop_set (timers ?s1 i) then env_stop e i ?s1 else ?s1)" using that by (simp add: good_env_def)
    from sinv_tinv [OF this tinv_stop_wake] this s1 show ?thesis by (simp add: k_timer_stop_def split_beta Let_def sinv_def)
  qed
qed

text \<open>The state in which the timeouts of an announcement are called.\<close>

definition sticking :: "system \<Rightarrow> bool" where
  "sticking s \<longleftrightarrow> sinv s \<and> in_isr s"

lemma stickingD: "sticking s \<Longrightarrow> ticking s" "sticking s \<Longrightarrow> sinv s" "sticking s \<Longrightarrow> tinv (timer_kernel.more s) s"
  using tinvD [of "timer_kernel.more s" s] by (auto simp: sticking_def ticking_def sinv_def)

lemma sane_fire [sane_intro]: "sane M k \<Longrightarrow> sane M (fire t k)"
  by (auto simp: sane_def fire_def remove_timeout_def Let_def dest: notin_set_remove1 split: option.splits)

lemma sane_finish [sane_intro]: "sane M k \<Longrightarrow> sane M (announce_finish k)"
  by (simp add: sane_def announce_finish_def Let_def split: option.split)

lemma sane_time_slice [sane_intro]: "sane M k \<Longrightarrow> sane M (z_time_slice k)"
  by (simp add: z_time_slice_def move_thread_to_end_of_prio_q_def Let_def sane_intro)

lemma sinv_called:
  assumes "sinv s" "\<not> to_linked (TimerTO n) s"
  shows "sinv (called n s)"
proof -
  have t: "tinv (timer_kernel.more s) s" using assms by (simp add: sinv_def)
  then have "tinv (timer_kernel.more s) (timer_rearm n s)"
    using assms(2) by (simp add: timer_rearm_def Let_def tinv_add_timer)
  then show ?thesis unfolding called_def by (intro sinv_tinv [OF assms(1)] tinv_upd_timer)
qed

lemma run_timeout_sticking:
  assumes e: "good_env e" and s: "sticking s" and f: "first s = Some t"
  defines "s' \<equiv> run_timeout (env_expiry e) (to_fn (timeouts s t)) t (fire t s)"
  shows "later (fire t s) s'" "sticking s'"
proof -
  note T = stickingD [OF s] and F = fire_keeps [OF stickingD(1) [OF s] f]
  have fs: "sinv (fire (TimerTO n) s)" if "t = TimerTO n" for n
    using kinv_fire [OF tickingD(1) [OF T(1)] f] that by (intro sinv_sane [OF T(2)]) (simp_all add: sane_intro)
  have cb: "later (called n (fire t s)) (env_expiry e n (called n (fire t s))) \<and> sticking (env_expiry e n (called n (fire t s)))"
    if "t = TimerTO n" for n
  proof -
    have "sinv (called n (fire t s))" using sinv_called [OF fs [OF that]] F(6) that by simp
    moreover have "in_isr (called n (fire t s))" using F(3) by (simp add: called_def timer_rearm_def Let_def)
    ultimately show ?thesis using e by (simp add: good_env_def sticking_def)
  qed
  have w: "later (called n (fire t s)) (env_expiry e n (called n (fire t s))) \<and> ticking (env_expiry e n (called n (fire t s)))"
    if "t = TimerTO n" for n
    using cb [OF that] stickingD(1) by blast
  note r = run_timeout_ok [of s t "env_expiry e", OF T(1) f w, folded s'_def]
  show "later (fire t s) s'" by (rule r(1))
  have isr: "in_isr s'" and ki: "kinv s'" using tickingD [OF r(2)] by simp_all
  have "sinv s'"
  proof (cases t)
    case (ThreadTO u)
    then have "s' = z_thread_timeout u (fire t s)" unfolding s'_def F(1) by (simp add: fn_of_def run_timeout_def)
    then show ?thesis using ki by (intro sinv_sane [OF T(2)]) (simp_all add: z_thread_timeout_def sane_intro)
  next
    case SliceTO
    then have "s' = slice_timeout (fire t s)" unfolding s'_def F(1) by (simp add: fn_of_def run_timeout_def)
    then show ?thesis using ki by (intro sinv_sane [OF T(2)]) (simp_all add: slice_timeout_def sane_intro)
  next
    case (TimerTO n)
    let ?c = "called n (fire t s)"
    let ?s2 = "if expiry_set (timers ?c n) then env_expiry e n ?c else ?c"
    have "s' = z_timer_expiration_handler (env_expiry e) n (fire t s)"
      using TimerTO unfolding s'_def F(1) by (simp add: fn_of_def run_timeout_def)
    then have s': "s' = timer_wake n ?s2"
      using F(6) TimerTO unfolding z_timer_expiration_handler_def Let_def called_def by simp
    have "sinv ?s2" using cb [OF TimerTO] sinv_called [OF fs [OF TimerTO]] F(6) TimerTO by (simp add: sticking_def)
    then show ?thesis unfolding s' by (rule sinv_tinv) (rule tinv_timer_wake, use \<open>sinv ?s2\<close> in \<open>simp add: sinv_def\<close>)
  qed
  with isr show "sticking s'" by (simp add: sticking_def)
qed

lemma system_handlers:
  assumes e: "good_env e"
  shows "timeout_handlers (run_timeout (env_expiry e)) sticking"
proof unfold_locales
  fix s t u r
  show "sticking s \<Longrightarrow> timeout_wf s" using stickingD(1) tickingD(2) by blast
  show "sticking s \<Longrightarrow> sticking (s\<lparr>announce_remaining := r\<rparr>)"
  proof -
    assume s: "sticking s"
    note T = tickingD [OF stickingD(1) [OF s]]
    have "kinv (s\<lparr>announce_remaining := r\<rparr>)" using T(2) by (intro kinv_frame_timeouts [OF T(1)]) simp_all
    then have "sinv (s\<lparr>announce_remaining := r\<rparr>)" by (intro sinv_sane [OF stickingD(2) [OF s]]) simp_all
    then show ?thesis using s by (simp add: sticking_def)
  qed
  assume s: "sticking s" "first s = Some t"
  note r = run_timeout_sticking [OF e s]
  show "sticking (run_timeout (env_expiry e) (to_fn (timeouts s t)) t (fire t s))" by (rule r(2))
  show "curr_tick (run_timeout (env_expiry e) (to_fn (timeouts s t)) t (fire t s)) = curr_tick (fire t s) \<and>
      announce_remaining (run_timeout (env_expiry e) (to_fn (timeouts s t)) t (fire t s)) = announce_remaining s"
    using r(1) by (auto simp: later_def fire_def)
  assume "to_linked u (run_timeout (env_expiry e) (to_fn (timeouts s t)) t (fire t s))"
  then show "to_linked u (fire t s) \<and> deadline (run_timeout (env_expiry e) (to_fn (timeouts s t)) t (fire t s)) u = deadline (fire t s) u \<or>
      curr_tick (fire t s) < deadline (run_timeout (env_expiry e) (to_fn (timeouts s t)) t (fire t s)) u"
    using r(1) by (simp add: later_def)
qed

lemma step_announce:
  assumes "good_env e" "sinv s" "in_isr s" "0 \<le> n"
  shows "\<exists>s'. exec e (Announce n) s = Some s' \<and> sinv s'"
proof -
  have "sticking s" using assms by (simp add: sticking_def)
  from timeout_handlers.announce_total [OF system_handlers [OF assms(1)] this assms(4)] obtain s1 s' where
    s: "sticking s1" "announce_timeouts (run_timeout (env_expiry e)) n s = Some s'" "s' = announce_finish s1" "timeout_wf s'"
    by blast
  have "kinv s'" using finish_ticking(1) [OF stickingD(1) [OF s(1)]] s(3,4) by simp
  then have "sinv (z_time_slice s')"
    using s(3) by (intro sinv_sane [OF stickingD(2) [OF s(1)]]) (simp_all add: sane_intro kinv_time_slice)
  with s(2) show ?thesis by (simp add: sys_clock_announce_def)
qed

lemma sane_switch [sane_intro]: "sane M k \<Longrightarrow> sane M (z_get_next_switch_handle k)"
  by (simp add: z_get_next_switch_handle_def Let_def sane_intro)

lemma step_hardware:
  assumes "sinv s"
  shows "sinv (s\<lparr>in_isr := b\<rparr>)" "sinv ((z_get_next_switch_handle s)\<lparr>in_isr := b\<rparr>)" "0 \<le> n \<Longrightarrow> sinv (s\<lparr>clk_elapsed := n\<rparr>)"
  by (rule sinv_sane [OF assms]; simp add: sinvD [OF assms] kinv_elapsed kinv_switch_handle sane_intro)+

lemma step_calls:
  assumes "sinv s"
  shows "exec e Yield s = Some s' \<Longrightarrow> in_thread s \<Longrightarrow> sinv s'" "exec e (Sleep n) s = Some s' \<Longrightarrow> in_thread s \<Longrightarrow> sinv s'"
    "exec e (Usleep us) s = Some s' \<Longrightarrow> in_thread s \<Longrightarrow> sinv s'" "exec e (Suspend t) s = Some s' \<Longrightarrow> t \<noteq> z_idle_thread \<Longrightarrow> sinv s'"
    "exec e (Resume t) s = Some s' \<Longrightarrow> t \<noteq> z_idle_thread \<Longrightarrow> sinv s'" "exec e (Wakeup t) s = Some s' \<Longrightarrow> t \<noteq> z_idle_thread \<Longrightarrow> sinv s'"
    "exec e (Priority_set t p) s = Some s' \<Longrightarrow> t \<noteq> z_idle_thread \<Longrightarrow> sinv s'"
    "exec e Sched_lock s = Some s' \<Longrightarrow> allowed Sched_lock s \<Longrightarrow> sinv s'" "exec e Sched_unlock s = Some s' \<Longrightarrow> in_thread s \<Longrightarrow> sinv s'"
    "exec e (Start t) s = Some s' \<Longrightarrow> t \<noteq> z_idle_thread \<Longrightarrow> sinv s'"
    "exec e (Create t p opts n) s = Some s' \<Longrightarrow> allowed (Create t p opts n) s \<Longrightarrow> sinv s'"
    "exec e (Abort t) s = Some s' \<Longrightarrow> allowed (Abort t) s \<Longrightarrow> sinv s'" "exec e (Join t n) s = Some s' \<Longrightarrow> in_thread s \<Longrightarrow> sinv s'"
    "exec e (Timer_start i d q) s = Some s' \<Longrightarrow> sinv s'" "exec e (Timer_stop i) s = Some s' \<Longrightarrow> good_env e \<Longrightarrow> sinv s'"
    "exec e (Timer_status i) s = Some s' \<Longrightarrow> sinv s'" "exec e (Timer_sync i) s = Some s' \<Longrightarrow> in_thread s \<Longrightarrow> sinv s'"
    "exec e Isr_enter s = Some s' \<Longrightarrow> sinv s'" "exec e Isr_exit s = Some s' \<Longrightarrow> sinv s'"
    "exec e (Elapse m) s = Some s' \<Longrightarrow> 0 \<le> m \<Longrightarrow> sinv s'"
  using step_thread [OF assms] step_timer [OF assms] step_hardware [OF assms]
  by (simp_all add: in_thread_def) (auto simp: in_thread_def)

lemma step_ok:
  assumes "good_env e" "sinv s" "allowed c s"
  shows "\<exists>s'. exec e c s = Some s' \<and> sinv s'"
proof (cases "\<exists>n. c = Announce n")
  case True
  then show ?thesis using step_announce [OF assms(1,2)] assms(3) by auto
next
  case False
  then have "exec e c s \<noteq> None" by (cases c) (simp_all add: case_prod_beta Let_def)
  then obtain s' where "exec e c s = Some s'" by blast
  note S = step_sync [OF assms(2)] step_data [OF assms(2)] step_calls [OF assms(2)] step_mutex [OF assms(2), rotated]
  from \<open>exec e c s = Some s'\<close> assms(3) have "sinv s'"
  proof (cases c)
    case (Announce n)
    with False show ?thesis by simp
  qed (hypsubst, (erule S; simp add: assms(1)))+
  with \<open>exec e c s = Some s'\<close> show ?thesis by blast
qed

section \<open>Reachable states\<close>

text \<open>After boot the objects are there and no mutex is locked.\<close>

definition booted :: "int \<Rightarrow> system \<Rightarrow> bool" where
  "booted main_prio s \<longleftrightarrow> kernel.truncate s = kernel_boot main_prio \<and> (\<forall>i. owner (mutexes s i) = None \<and> lock_count (mutexes s i) = 0)"

lemma truncate_fields:
  assumes "kernel.truncate s = k"
  shows "threads s = threads k" "runq s = runq k" "waitqs s = waitqs k" "current_thread s = current_thread k" "cache s = cache k"
    "timeouts s = timeouts k" "timeout_list s = timeout_list k" "clk_elapsed s = clk_elapsed k" "fault s = fault k"
  by (simp_all add: assms [symmetric] kernel.defs)

lemma sinv_booted:
  assumes "booted p s"
  shows "sinv s"
proof -
  note f = truncate_fields [of s "kernel_boot p"]
  have t: "kernel.truncate s = kernel_boot p" using assms by (simp add: booted_def)
  have "kinv s"
    by (rule kinv_frame_timeouts [OF kinv_boot [of p]])
      (simp_all add: f [OF t] to_linked_def timeout_wf_def kernel_boot_fields)
  moreover have "pended_on (threads s t) = None" for t
  proof -
    have "t \<notin> set (waitqs (kernel_boot p) q)" for q by (simp add: kernel_boot_fields)
    then have "pended_on (threads (kernel_boot p) t) \<noteq> Some q" for q
      using sched_wfD(9) [OF kinv_exD(1) [OF kinv_boot [of p]]] by blast
    then show ?thesis using f(1) [OF t] by (metis not_Some_eq)
  qed
  ultimately show ?thesis
    using assms f(7) [OF t]
    by (simp add: sinv_def tinv_def sys_inv_def sane_def kernel_boot_fields booted_def mutex_wf_def)
qed

lemma reach_sinv: "reach e s0 s \<Longrightarrow> good_env e \<Longrightarrow> sinv s0 \<Longrightarrow> sinv s"
proof (induction rule: reach.induct)
  case (step s c s')
  then show ?case using step_ok [of e s c] by auto
qed

text \<open>An environment whose timers wake a thread, which meets the conditions on environments.\<close>

definition wake_env :: "tid \<Rightarrow> env" where
  "wake_env t = \<lparr>env_expiry = (\<lambda>n s. k_wakeup t s), env_stop = (\<lambda>n s. s), env_malloc = (\<lambda>_. 0), env_clock = rtc_config\<rparr>"

lemma wake_env_good: "t \<noteq> z_idle_thread \<Longrightarrow> good_env (wake_env t)"
proof -
  assume t: "t \<noteq> z_idle_thread"
  have "in_isr (k_wakeup t s) \<and> later s (k_wakeup t s)" if "sinv s" "in_isr s" for s
  proof -
    have "ticking s" using stickingD(1) [of s] that by (simp add: sticking_def)
    with wake_expiry_ok(1) [OF t] show ?thesis by (auto simp: well_behaved_def wake_expiry_def dest: tickingD(5))
  qed
  with step_thread(3) [OF _ t] show ?thesis by (simp add: good_env_def wake_env_def)
qed

end
