(* ===== verification/Crc.thy ===== *)
theory Crc
  imports Prelude
begin

text \<open>
  The checksums of \<^verbatim>\<open>lib/os/crc7_sw.c\<close>, \<^verbatim>\<open>crc8_sw.c\<close>, \<^verbatim>\<open>crc16_sw.c\<close>, \<^verbatim>\<open>crc32_sw.c\<close> and
  \<^verbatim>\<open>crc32c_sw.c\<close>. A buffer and its length are a list of bytes. The routines that use
  tables or closed formulas compute what the shift register of
  their polynomial computes bit by bit, and the checksum of a message changes
  whenever as many consecutive bytes of it change as the checksum has.
\<close>

section \<open>The routines\<close>

definition crc32_ieee_table :: "u32 list" where
  "crc32_ieee_table =
    [0x00000000, 0x1db71064, 0x3b6e20c8, 0x26d930ac,
     0x76dc4190, 0x6b6b51f4, 0x4db26158, 0x5005713c,
     0xedb88320, 0xf00f9344, 0xd6d6a3e8, 0xcb61b38c,
     0x9b64c2b0, 0x86d3d2d4, 0xa00ae278, 0xbdbdf21c]"

definition crc32_ieee_byte :: "u8 \<Rightarrow> u32 \<Rightarrow> u32" where
  "crc32_ieee_byte byte crc =
     (let crc = drop_bit 4 crc XOR crc32_ieee_table ! unat ((crc XOR ucast byte) AND 0x0f)
      in drop_bit 4 crc XOR crc32_ieee_table ! unat ((crc XOR drop_bit 4 (ucast byte)) AND 0x0f))"

definition crc32_ieee_update :: "u32 \<Rightarrow> u8 list \<Rightarrow> u32" where
  "crc32_ieee_update crc data = NOT (fold crc32_ieee_byte data (NOT crc))"

definition crc32_ieee :: "u8 list \<Rightarrow> u32" where
  "crc32_ieee data = crc32_ieee_update 0 data"

definition crc32c_table :: "u32 list" where
  "crc32c_table =
    [0x00000000, 0x105EC76F, 0x20BD8EDE, 0x30E349B1,
     0x417B1DBC, 0x5125DAD3, 0x61C69362, 0x7198540D,
     0x82F63B78, 0x92A8FC17, 0xA24BB5A6, 0xB21572C9,
     0xC38D26C4, 0xD3D3E1AB, 0xE330A81A, 0xF36E6F75]"

definition crc32c_byte :: "u8 \<Rightarrow> u32 \<Rightarrow> u32" where
  "crc32c_byte byte crc =
     (let crc = crc32c_table ! unat ((crc XOR ucast byte) AND 0x0F) XOR drop_bit 4 crc
      in crc32c_table ! unat ((crc XOR drop_bit 4 (ucast byte)) AND 0x0F) XOR drop_bit 4 crc)"

definition crc32_c :: "u32 \<Rightarrow> u8 list \<Rightarrow> bool \<Rightarrow> bool \<Rightarrow> u32" where
  "crc32_c crc data first_pkt last_pkt =
     (let crc = if first_pkt then 0xFFFFFFFF else crc;
          crc = fold crc32c_byte data crc
      in if last_pkt then crc XOR 0xFFFFFFFF else crc)"

text \<open>The bodies of the loops over the eight bits of a byte, for most and least significant bit first.\<close>

definition crc16_bit :: "u16 \<Rightarrow> u16 \<Rightarrow> u16" where
  "crc16_bit poly crc = (if crc AND 0x8000 \<noteq> 0 then push_bit 1 crc XOR poly else push_bit 1 crc)"

definition crc16 :: "u16 \<Rightarrow> u16 \<Rightarrow> u8 list \<Rightarrow> u16" where
  "crc16 poly seed src = fold (\<lambda>b crc. (crc16_bit poly ^^ 8) (crc XOR push_bit 8 (ucast b))) src seed"

definition crc16_reflect_bit :: "u16 \<Rightarrow> u16 \<Rightarrow> u16" where
  "crc16_reflect_bit poly crc = (if crc AND 0x0001 \<noteq> 0 then drop_bit 1 crc XOR poly else drop_bit 1 crc)"

definition crc16_reflect :: "u16 \<Rightarrow> u16 \<Rightarrow> u8 list \<Rightarrow> u16" where
  "crc16_reflect poly seed src = fold (\<lambda>b crc. (crc16_reflect_bit poly ^^ 8) (crc XOR ucast b)) src seed"

definition crc16_ccitt_byte :: "u8 \<Rightarrow> u16 \<Rightarrow> u16" where
  "crc16_ccitt_byte b seed =
     (let e = (ucast seed XOR b :: u8);
          f = e XOR push_bit 4 e
      in drop_bit 8 seed XOR push_bit 8 (ucast f) XOR push_bit 3 (ucast f) XOR drop_bit 4 (ucast f))"

definition crc16_ccitt :: "u16 \<Rightarrow> u8 list \<Rightarrow> u16" where
  "crc16_ccitt seed src = fold crc16_ccitt_byte src seed"

definition crc16_itu_t_byte :: "u8 \<Rightarrow> u16 \<Rightarrow> u16" where
  "crc16_itu_t_byte b seed =
     (let seed = drop_bit 8 seed OR push_bit 8 seed;
          seed = seed XOR ucast b;
          seed = seed XOR drop_bit 4 (seed AND 0xff);
          seed = seed XOR push_bit 12 seed
      in seed XOR push_bit 5 (seed AND 0xff))"

definition crc16_itu_t :: "u16 \<Rightarrow> u8 list \<Rightarrow> u16" where
  "crc16_itu_t seed src = fold crc16_itu_t_byte src seed"

definition crc8_ccitt_small_table :: "u8 list" where
  "crc8_ccitt_small_table =
    [0x00, 0x07, 0x0e, 0x09, 0x1c, 0x1b, 0x12, 0x15,
     0x38, 0x3f, 0x36, 0x31, 0x24, 0x23, 0x2a, 0x2d]"

definition crc8_ccitt_byte :: "u8 \<Rightarrow> u8 \<Rightarrow> u8" where
  "crc8_ccitt_byte b val =
     (let val = val XOR b;
          val = push_bit 4 val XOR crc8_ccitt_small_table ! unat (drop_bit 4 val)
      in push_bit 4 val XOR crc8_ccitt_small_table ! unat (drop_bit 4 val))"

definition crc8_ccitt :: "u8 \<Rightarrow> u8 list \<Rightarrow> u8" where
  "crc8_ccitt val buf = fold crc8_ccitt_byte buf val"

definition crc8_bit :: "u8 \<Rightarrow> bool \<Rightarrow> u8 \<Rightarrow> u8" where
  "crc8_bit polynomial reversed crc =
     (if reversed then if crc AND 0x01 \<noteq> 0 then drop_bit 1 crc XOR polynomial else drop_bit 1 crc
      else if crc AND 0x80 \<noteq> 0 then push_bit 1 crc XOR polynomial else push_bit 1 crc)"

definition crc8 :: "u8 list \<Rightarrow> u8 \<Rightarrow> u8 \<Rightarrow> bool \<Rightarrow> u8" where
  "crc8 src polynomial initial_value reversed =
     fold (\<lambda>b crc. (crc8_bit polynomial reversed ^^ 8) (crc XOR b)) src initial_value"

definition crc7_be_byte :: "u8 \<Rightarrow> u8 \<Rightarrow> u8" where
  "crc7_be_byte b seed =
     (let e = seed XOR b;
          f = e XOR drop_bit 4 e XOR drop_bit 7 e
      in push_bit 1 f XOR push_bit 4 f)"

definition crc7_be :: "u8 \<Rightarrow> u8 list \<Rightarrow> u8" where
  "crc7_be seed src = fold crc7_be_byte src seed"

definition crc16_ansi :: "u8 list \<Rightarrow> u16" where
  "crc16_ansi src = crc16_reflect 0xA001 0xffff src"

datatype crc_type = CRC7_BE | CRC8 | CRC8_CCITT | CRC16 | CRC16_ANSI | CRC16_CCITT | CRC16_ITU_T | CRC32_C | CRC32_IEEE

fun crc_by_type :: "crc_type \<Rightarrow> u8 list \<Rightarrow> u32 \<Rightarrow> u32 \<Rightarrow> bool \<Rightarrow> bool \<Rightarrow> bool \<Rightarrow> u32" where
  "crc_by_type CRC7_BE src seed poly reflect first_pkt last_pkt = ucast (crc7_be (ucast seed) src)"
| "crc_by_type CRC8 src seed poly reflect first_pkt last_pkt = ucast (crc8 src (ucast poly) (ucast seed) reflect)"
| "crc_by_type CRC8_CCITT src seed poly reflect first_pkt last_pkt = ucast (crc8_ccitt (ucast seed) src)"
| "crc_by_type CRC16 src seed poly reflect first_pkt last_pkt =
     (if reflect then ucast (crc16_reflect (ucast poly) (ucast seed) src) else ucast (crc16 (ucast poly) (ucast seed) src))"
| "crc_by_type CRC16_ANSI src seed poly reflect first_pkt last_pkt = ucast (crc16_ansi src)"
| "crc_by_type CRC16_CCITT src seed poly reflect first_pkt last_pkt = ucast (crc16_ccitt (ucast seed) src)"
| "crc_by_type CRC16_ITU_T src seed poly reflect first_pkt last_pkt = ucast (crc16_itu_t (ucast seed) src)"
| "crc_by_type CRC32_C src seed poly reflect first_pkt last_pkt = crc32_c seed src first_pkt last_pkt"
| "crc_by_type CRC32_IEEE src seed poly reflect first_pkt last_pkt = crc32_ieee_update seed src"

section \<open>Shift registers\<close>

lemma xor_cancel:
  fixes x :: "'a::len word"
  shows "x XOR y = x XOR z \<longleftrightarrow> y = z" "y XOR x = z XOR x \<longleftrightarrow> y = z" "x XOR y = 0 \<longleftrightarrow> x = y"
  by (auto simp: bit_eq_iff bit_simps)

text \<open>
  A shift register of a polynomial: one step per bit, linear over XOR, and a byte
  that enters it. A register that is long enough passes on a byte
  that is put behind those it holds unchanged, and no nonzero content is lost.
\<close>

locale shift_register =
  fixes step :: "'w::len word \<Rightarrow> 'w word"
    and enter :: "u8 \<Rightarrow> 'w word"
    and behind :: "'w word \<Rightarrow> 'w word"
    and fits :: "nat \<Rightarrow> 'w word \<Rightarrow> bool"
    and bytes :: nat
  assumes linear: "step (x XOR y) = step x XOR step y"
    and nonzero: "step x = 0 \<Longrightarrow> x = 0"
    and fits0: "fits 0 0"
    and fits_enter: "fits n x \<Longrightarrow> n < bytes \<Longrightarrow> fits (Suc n) (enter b XOR behind x)"
    and behind8: "fits n x \<Longrightarrow> n < bytes \<Longrightarrow> (step ^^ 8) (behind x) = x"
    and enter_inj: "fits n x \<Longrightarrow> fits n y \<Longrightarrow> n < bytes \<Longrightarrow> enter b XOR behind x = enter c XOR behind y \<Longrightarrow> b = c \<and> x = y"
begin

definition feed :: "u8 list \<Rightarrow> 'w word \<Rightarrow> 'w word" where
  "feed = fold (\<lambda>b x. (step ^^ 8) (x XOR enter b))"

definition content :: "u8 list \<Rightarrow> 'w word" where
  "content bs = foldr (\<lambda>b x. enter b XOR behind x) bs 0"

lemma linear_funpow: "(step ^^ n) (x XOR y) = (step ^^ n) x XOR (step ^^ n) y"
  by (induction n) (simp_all add: linear)

lemma step_inj: "step x = step y \<Longrightarrow> x = y"
  using linear [of x y] nonzero [of "x XOR y"] by (simp add: xor_cancel)

lemma funpow_inj: "(step ^^ n) x = (step ^^ n) y \<Longrightarrow> x = y"
  by (induction n) (auto dest: step_inj)

lemma fits_content: "length bs \<le> bytes \<Longrightarrow> fits (length bs) (content bs)"
  by (induction bs) (simp_all add: content_def fits0 fits_enter)

lemma content_inj: "length bs = length cs \<Longrightarrow> length bs \<le> bytes \<Longrightarrow> content bs = content cs \<Longrightarrow> bs = cs"
proof (induction bs cs rule: list_induct2)
  case (Cons b bs c cs)
  then have "b = c \<and> content bs = content cs"
    using enter_inj [of "length bs" "content bs" "content cs" b c] fits_content [of bs] fits_content [of cs]
    by (simp add: content_def)
  with Cons show ?case by simp
qed simp

lemma feed_content: "length bs \<le> bytes \<Longrightarrow> feed bs x = (step ^^ (8 * length bs)) (x XOR content bs)"
proof (induction bs arbitrary: x)
  case (Cons b bs)
  let ?y = "(step ^^ 8) (x XOR enter b)"
  have "?y XOR content bs = (step ^^ 8) (x XOR enter b XOR behind (content bs))"
    using behind8 [OF fits_content [of bs]] Cons.prems by (simp add: linear_funpow xor.assoc)
  moreover have "feed (b # bs) x = feed bs ?y" by (simp add: feed_def)
  moreover have "8 * length (b # bs) = 8 * length bs + 8" by simp
  moreover have "content (b # bs) = enter b XOR behind (content bs)" by (simp add: content_def)
  ultimately show ?case
    using Cons by (simp only: funpow_add o_apply)
qed (simp add: feed_def content_def)

lemma feed_inj: "feed bs x = feed bs y \<Longrightarrow> x = y"
proof (induction bs arbitrary: x y)
  case (Cons b bs)
  have "(step ^^ 8) (x XOR enter b) = (step ^^ 8) (y XOR enter b)"
    using Cons.prems by - (rule Cons.IH, simp add: feed_def)
  from funpow_inj [OF this] show ?case by (simp add: xor_cancel)
qed (simp add: feed_def)

lemma burst:
  assumes "length bs = length cs" "length bs \<le> bytes" "feed (pre @ bs @ post) x = feed (pre @ cs @ post) x"
  shows "bs = cs"
proof -
  have "feed bs (feed pre x) = feed cs (feed pre x)"
    using assms(3) by - (rule feed_inj [of post], simp add: feed_def)
  then have "(step ^^ (8 * length cs)) (feed pre x XOR content bs) = (step ^^ (8 * length cs)) (feed pre x XOR content cs)"
    using assms(1,2) by (simp only: feed_content)
  from funpow_inj [OF this] show ?thesis using content_inj assms(1,2) by (simp add: xor_cancel)
qed

end

text \<open>The two directions in which bits enter: at the low end of a reflected register, at the high end of the other.\<close>

definition reflect_step :: "'w::len word \<Rightarrow> 'w word \<Rightarrow> 'w word" where
  "reflect_step poly x = (if bit x 0 then drop_bit 1 x XOR poly else drop_bit 1 x)"

definition msb_step :: "'w::len word \<Rightarrow> 'w word \<Rightarrow> 'w word" where
  "msb_step poly x = (if bit x (LENGTH('w) - 1) then push_bit 1 x XOR poly else push_bit 1 x)"

lemma reflect_linear: "reflect_step poly (x XOR y) = reflect_step poly x XOR reflect_step poly y"
  by (simp add: reflect_step_def bit_eq_iff bit_simps) blast

lemma msb_linear: "msb_step poly (x XOR y) = msb_step poly x XOR msb_step poly y"
  by (simp add: msb_step_def bit_eq_iff bit_simps) blast

lemma reflect_funpow: "\<forall>i < n. \<not> bit x i \<Longrightarrow> (reflect_step poly ^^ n) x = drop_bit n x"
proof (induction n)
  case (Suc n)
  then show ?case by (simp add: reflect_step_def bit_simps)
qed simp

lemma msb_funpow:
  fixes x :: "'w::len word"
  shows "n \<le> LENGTH('w) \<Longrightarrow> \<forall>i < n. \<not> bit x (LENGTH('w) - 1 - i) \<Longrightarrow> (msb_step poly ^^ n) x = push_bit n x"
proof (induction n)
  case (Suc n)
  then have "\<not> bit (push_bit n x) (LENGTH('w) - 1)" by (auto simp: bit_simps)
  with Suc show ?case by (simp add: msb_step_def)
qed simp

lemma reflect_register:
  fixes poly :: "'w::len word"
  assumes "bit poly (LENGTH('w) - 1)" "LENGTH('w) = 8 * m"
  shows "shift_register (reflect_step poly) ucast (push_bit 8) (\<lambda>n x. \<forall>i. bit x i \<longrightarrow> i < 8 * n) m"
proof
  fix x :: "'w word" assume "reflect_step poly x = 0"
  then have z: "\<not> bit (reflect_step poly x) i" for i by simp
  have "\<not> bit x 0" using z [of "LENGTH('w) - 1"] assms(1) by (auto simp: reflect_step_def bit_simps split: if_splits)
  moreover from this have "\<not> bit x (Suc i)" for i using z [of i] by (simp add: reflect_step_def bit_simps)
  ultimately show "x = 0" by (intro bit_eqI) (metis bit_0_eq bot_apply not0_implies_Suc bot_bool_def)
next
  fix n and x :: "'w word" assume f: "\<forall>i. bit x i \<longrightarrow> i < 8 * n" "n < m"
  then have "(reflect_step poly ^^ 8) (push_bit 8 x) = drop_bit 8 (push_bit 8 x)"
    by (intro reflect_funpow) (simp add: bit_simps)
  also have "\<dots> = x" using f assms(2) by (intro bit_eqI) (auto simp: bit_simps)
  finally show "(reflect_step poly ^^ 8) (push_bit 8 x) = x" .
next
  fix n and b c :: u8 and x y :: "'w word"
  assume f: "\<forall>i. bit x i \<longrightarrow> i < 8 * n" "\<forall>i. bit y i \<longrightarrow> i < 8 * n" "n < m"
    "(ucast b :: 'w word) XOR push_bit 8 x = ucast c XOR push_bit 8 y"
  then have e: "bit ((ucast b :: 'w word) XOR push_bit 8 x) i = bit ((ucast c :: 'w word) XOR push_bit 8 y) i" for i
    by simp
  have "bit b i = bit c i" for i
    using e [of i] f(3) assms(2) by (cases "i < 8") (auto simp: bit_simps dest: bit_imp_le_length)
  moreover have "bit x i = bit y i" for i
    using e [of "i + 8"] f(1-3) assms(2) by (cases "i + 8 < 8 * m") (fastforce simp: bit_simps dest: bit_imp_le_length)+
  ultimately show "b = c \<and> x = y" by (simp add: bit_eq_iff)
qed (auto simp: reflect_linear bit_simps dest: bit_imp_le_length)

lemma msb_register:
  fixes poly :: "'w::len word"
  assumes "bit poly 0" "LENGTH('w) = 8 * m"
  shows "shift_register (msb_step poly) (\<lambda>b. push_bit (8 * m - 8) (ucast b)) (drop_bit 8) (\<lambda>n x. \<forall>i. bit x i \<longrightarrow> 8 * m \<le> i + 8 * n) m"
proof
  fix x :: "'w word" assume "msb_step poly x = 0"
  then have z: "\<not> bit (msb_step poly x) i" for i by simp
  have "\<not> bit (push_bit 1 x) 0" by (simp only: bit_simps) simp
  with z [of 0] assms(1) have t: "\<not> bit x (LENGTH('w) - 1)" by (auto simp only: msb_step_def bit_xor_iff split: if_splits)
  have "\<not> bit x i" for i
  proof (cases "Suc i < LENGTH('w)")
    case True
    then have "bit (push_bit 1 x) (Suc i) = bit x i" by (simp only: bit_simps) simp
    with z [of "Suc i"] t show ?thesis by (simp only: msb_step_def if_False not_False_eq_True)
  next
    case False then show ?thesis using t by (cases "i = LENGTH('w) - 1") (auto dest: bit_imp_le_length)
  qed
  then show "x = 0" by (simp add: bit_eq_iff)
next
  fix n and x :: "'w word" assume f: "\<forall>i. bit x i \<longrightarrow> 8 * m \<le> i + 8 * n" "n < m"
  then have "(msb_step poly ^^ 8) (drop_bit 8 x) = push_bit 8 (drop_bit 8 x)"
    using assms(2) by (intro msb_funpow) (auto simp: bit_simps dest: bit_imp_le_length)
  also have "\<dots> = x" using f assms(2) by (intro bit_eqI) (fastforce simp: bit_simps)
  finally show "(msb_step poly ^^ 8) (drop_bit 8 x) = x" .
next
  fix n and b c :: u8 and x y :: "'w word"
  assume f: "\<forall>i. bit x i \<longrightarrow> 8 * m \<le> i + 8 * n" "\<forall>i. bit y i \<longrightarrow> 8 * m \<le> i + 8 * n" "n < m"
    "(push_bit (8 * m - 8) (ucast b) :: 'w word) XOR drop_bit 8 x = push_bit (8 * m - 8) (ucast c) XOR drop_bit 8 y"
  then have e: "bit ((push_bit (8 * m - 8) (ucast b) :: 'w word) XOR drop_bit 8 x) i =
      bit ((push_bit (8 * m - 8) (ucast c) :: 'w word) XOR drop_bit 8 y) i" for i
    by simp
  have "bit b i = bit c i" for i
    using e [of "i + (8 * m - 8)"] f(3) assms(2) by (cases "i < 8") (auto simp: bit_simps dest: bit_imp_le_length)
  moreover have "bit x i = bit y i" for i
  proof (cases "8 \<le> i \<and> i < 8 * m")
    case True
    then have "\<not> 8 * m - 8 \<le> i - 8" by linarith
    with e [of "i - 8"] True show ?thesis by (simp add: bit_simps)
  next
    case False
    have "\<not> bit z i" if "\<forall>i. bit z i \<longrightarrow> 8 * m \<le> i + 8 * n" for z :: "'w word"
      using that [rule_format, of i] False f(3) assms(2) by (auto dest: bit_imp_le_length)
    with f(1,2) show ?thesis by simp
  qed
  ultimately show "b = c \<and> x = y" by (simp add: bit_eq_iff)
next
  fix n b and x :: "'w word" assume f: "\<forall>i. bit x i \<longrightarrow> 8 * m \<le> i + 8 * n" "n < m"
  show "\<forall>i. bit (push_bit (8 * m - 8) (ucast (b :: u8)) XOR drop_bit 8 x) i \<longrightarrow> 8 * m \<le> i + 8 * Suc n"
  proof (intro allI impI)
    fix i assume "bit (push_bit (8 * m - 8) (ucast b) XOR drop_bit 8 x) i"
    then have "8 * m - 8 \<le> i \<or> bit x (8 + i)" by (auto simp: bit_simps)
    then show "8 * m \<le> i + 8 * Suc n" using f(1) [rule_format, of "8 + i"] by auto
  qed
qed (rule msb_linear, simp)

section \<open>Tables and formulas\<close>

lemma bits_reflect: "crc16_reflect_bit poly = reflect_step poly" "crc8_bit p8 True = reflect_step p8"
  by (simp_all add: fun_eq_iff crc16_reflect_bit_def crc8_bit_def reflect_step_def and_one_eq bit_0 even_iff_mod_2_eq_zero)

lemma bits_msb: "crc16_bit poly = msb_step poly" "crc8_bit p8 False = msb_step p8"
  using and_exp_eq_0_iff_not_bit [of _ 15, where 'a = u16] and_exp_eq_0_iff_not_bit [of _ 7, where 'a = u8]
  by (simp_all add: fun_eq_iff crc16_bit_def crc8_bit_def msb_step_def)

lemma mask4: "(0xf :: 'w::len word) = mask 4"
  by (simp add: mask_eq_exp_minus_1)

lemma of_unat_and: "of_nat (unat (x AND 0xf)) = (x AND 0xf :: 'w::len word)" "unat (x AND 0xf :: 'w word) < 16"
proof -
  have "unat (x AND mask 4) < 16" using take_bit_nat_less_exp [of 4 "unat x"]
    by (simp add: take_bit_eq_mask [symmetric] unsigned_take_bit_eq)
  then show "unat (x AND 0xf :: 'w word) < 16" by (simp add: mask4)
qed simp

lemma reflect_pow_linear: "(reflect_step poly ^^ n) (x XOR y) = (reflect_step poly ^^ n) x XOR (reflect_step poly ^^ n) y"
  by (induction n) (simp_all add: reflect_linear)

lemma reflect_nibble:
  fixes x d :: "'w::len word"
  assumes "\<forall>n < 16. tab ! n = (reflect_step poly ^^ 4) (of_nat n)"
  shows "drop_bit 4 x XOR tab ! unat ((x XOR d) AND 0xf) = (reflect_step poly ^^ 4) (x XOR (d AND 0xf))"
proof -
  let ?h = "x AND NOT 0xf" and ?l = "(x XOR d) AND 0xf"
  have "x XOR (d AND 0xf) = ?h XOR ?l" by (auto simp: bit_eq_iff bit_simps mask4)
  moreover have "(reflect_step poly ^^ 4) ?h = drop_bit 4 ?h"
    by (intro reflect_funpow) (simp add: mask4 bit_simps)
  moreover have "drop_bit 4 ?h = drop_bit 4 x" by (auto simp: bit_eq_iff bit_simps mask4 dest: bit_imp_le_length)
  moreover have "(reflect_step poly ^^ 4) ?l = tab ! unat ?l"
    using assms of_unat_and [of "x XOR d"] by metis
  ultimately show ?thesis by (simp only: reflect_pow_linear)
qed

lemma reflect_byte:
  fixes x :: "'w::len word" and b :: u8
  assumes t: "\<forall>n < 16. tab ! n = (reflect_step poly ^^ 4) (of_nat n)" and l: "8 \<le> LENGTH('w)"
  shows "(let x1 = drop_bit 4 x XOR tab ! unat ((x XOR ucast b) AND 0xf)
    in drop_bit 4 x1 XOR tab ! unat ((x1 XOR drop_bit 4 (ucast b)) AND 0xf)) = (reflect_step poly ^^ 8) (x XOR ucast b)"
proof -
  let ?b = "ucast b :: 'w word" and ?hi = "ucast b AND NOT 0xf :: 'w word"
  have "(reflect_step poly ^^ 4) ?hi = drop_bit 4 ?b"
    by (subst reflect_funpow) (auto simp: bit_eq_iff bit_simps mask4 dest: bit_imp_le_length)
  moreover have "x XOR ?b = (x XOR (?b AND 0xf)) XOR ?hi" by (auto simp: bit_eq_iff bit_simps mask4)
  ultimately have "(reflect_step poly ^^ 4) (x XOR ?b) = (reflect_step poly ^^ 4) (x XOR (?b AND 0xf)) XOR drop_bit 4 ?b"
    by (simp only: reflect_pow_linear)
  moreover have "drop_bit 4 ?b AND 0xf = drop_bit 4 ?b"
    using l by (auto simp: bit_eq_iff bit_simps mask4 dest: bit_imp_le_length)
  moreover have "(reflect_step poly ^^ 8) (x XOR ?b) = (reflect_step poly ^^ 4) ((reflect_step poly ^^ 4) (x XOR ?b))"
    using funpow_add [of 4 4 "reflect_step poly"] by simp
  ultimately show ?thesis by (simp only: Let_def reflect_nibble [OF t])
qed

text \<open>The checks of the sixteen entries of a table, by rewriting.\<close>

lemma pow4: "(f ^^ 4) x = f (f (f (f x)))" "(f ^^ 8) x = f (f (f (f (f (f (f (f x)))))))"
  by (simp_all add: eval_nat_numeral)

lemma crc32_ieee_byte_bits: "crc32_ieee_byte b = (\<lambda>x. (reflect_step 0xedb88320 ^^ 8) (x XOR ucast b))"
proof
  have "\<forall>n < 16. crc32_ieee_table ! n = (reflect_step 0xedb88320 ^^ 4) (of_nat n :: u32)"
    by (simp add: less16 pow4 reflect_step_def crc32_ieee_table_def)
  from reflect_byte [OF this] show "crc32_ieee_byte b x = (reflect_step 0xedb88320 ^^ 8) (x XOR ucast b)" for x
    by (simp add: crc32_ieee_byte_def)
qed

lemma crc32c_byte_bits: "crc32c_byte b = (\<lambda>x. (reflect_step 0x82F63B78 ^^ 8) (x XOR ucast b))"
proof
  have "\<forall>n < 16. crc32c_table ! n = (reflect_step 0x82F63B78 ^^ 4) (of_nat n :: u32)"
    by (simp add: less16 pow4 reflect_step_def crc32c_table_def)
  from reflect_byte [OF this] show "crc32c_byte b x = (reflect_step 0x82F63B78 ^^ 8) (x XOR ucast b)" for x
    by (simp add: crc32c_byte_def xor.commute)
qed

lemma msb_pow_linear: "(msb_step poly ^^ n) (x XOR y) = (msb_step poly ^^ n) x XOR (msb_step poly ^^ n) y"
  by (induction n) (simp_all add: msb_linear)

lemma byte_nibbles: "push_bit 4 (drop_bit 4 b AND 0xf) XOR (b AND 0xf) = (b :: u8)"
  by (auto simp: bit_eq_iff bit_simps mask4)

lemma crc8_ccitt_nibble: "push_bit 4 v XOR crc8_ccitt_small_table ! unat (drop_bit 4 v) = (msb_step 7 ^^ 4) v"
proof -
  have "\<forall>n < 16. crc8_ccitt_small_table ! n = (msb_step 7 ^^ 4) (push_bit 4 (of_nat n))"
    by (simp add: less16 pow4 msb_step_def crc8_ccitt_small_table_def)
  then have "crc8_ccitt_small_table ! unat (drop_bit 4 v AND 0xf) = (msb_step 7 ^^ 4) (push_bit 4 (drop_bit 4 v AND 0xf))"
    using of_unat_and [of "drop_bit 4 v"] by metis
  moreover have "(msb_step 7 ^^ 4) (v AND 0xf) = push_bit 4 (v AND 0xf)"
    by (intro msb_funpow) (auto simp: bit_simps mask4)
  moreover have "push_bit 4 (v AND 0xf) = push_bit 4 v" "drop_bit 4 v AND 0xf = drop_bit 4 v"
    by (auto simp: bit_eq_iff bit_simps mask4 dest: bit_imp_le_length)
  ultimately have "push_bit 4 v XOR crc8_ccitt_small_table ! unat (drop_bit 4 v) =
      (msb_step 7 ^^ 4) (push_bit 4 (drop_bit 4 v AND 0xf) XOR (v AND 0xf))"
    by (simp only: msb_pow_linear xor.commute)
  then show ?thesis by (simp only: byte_nibbles)
qed

lemma crc8_ccitt_byte_bits: "crc8_ccitt_byte b = (\<lambda>x. (msb_step 7 ^^ 8) (x XOR b))"
  using funpow_add [of 4 4 "msb_step (7 :: u8)"] by (simp add: fun_eq_iff crc8_ccitt_byte_def Let_def crc8_ccitt_nibble)

lemma xor_zero: "0 XOR x = (x :: 'w::len word)"
  by simp

lemma and_xor: "(x XOR y) AND m = (x AND m) XOR (y AND m :: 'w::len word)"
  by (auto simp: bit_eq_iff bit_simps)

lemmas xor_linear = push_bit_xor drop_bit_xor xor.assoc xor.left_commute xor.commute

text \<open>Two functions of a byte that are linear are equal if they agree on the single bits.\<close>

lemma byte_bits_xor: "(b AND 1) XOR (b AND 2) XOR (b AND 4) XOR (b AND 8) XOR (b AND 16) XOR (b AND 32) XOR (b AND 64) XOR (b AND 128) = (b :: u8)"
  (is "?x = b")
proof -
  have "\<forall>n < 8. bit ?x n = bit b n"
    by (simp only: less8) (simp add: bit_and_iff bit_xor_iff)
  then show ?thesis by (simp add: bit_eq_iff)
qed

lemma and_bit_cases: "b AND 2 ^ k = 0 \<or> b AND 2 ^ k = (2 ^ k :: 'w::len word)"
  by (cases "bit b k") (auto intro!: bit_word_eqI simp: bit_simps)

lemma linear_bytes:
  assumes f: "\<And>x y. f (x XOR y) = f x XOR f y" and g: "\<And>x y. g (x XOR y) = g x XOR g y"
    and "\<forall>k < 8. f (2 ^ k) = g (2 ^ k :: u8)"
  shows "f b = (g b :: 'w::len word)"
proof -
  have "f 0 = g 0" using f [of 0 0] g [of 0 0] by simp
  then have *: "f (b AND 2 ^ k) = g (b AND 2 ^ k)" if "k < 8" for k using and_bit_cases [of b k] assms(3) that by metis
  have "f (b AND 1) = g (b AND 1)" "f (b AND 2) = g (b AND 2)" "f (b AND 4) = g (b AND 4)" "f (b AND 8) = g (b AND 8)"
    "f (b AND 16) = g (b AND 16)" "f (b AND 32) = g (b AND 32)" "f (b AND 64) = g (b AND 64)" "f (b AND 128) = g (b AND 128)"
    using * [of 0] * [of 1] * [of 2] * [of 3] * [of 4] * [of 5] * [of 6] * [of 7] by simp_all
  then have "f ((b AND 1) XOR (b AND 2) XOR (b AND 4) XOR (b AND 8) XOR (b AND 16) XOR (b AND 32) XOR (b AND 64) XOR (b AND 128)) =
      g ((b AND 1) XOR (b AND 2) XOR (b AND 4) XOR (b AND 8) XOR (b AND 16) XOR (b AND 32) XOR (b AND 64) XOR (b AND 128))"
    by (simp only: f g)
  then show ?thesis by (simp only: byte_bits_xor)
qed

lemma crc7_be_byte_bits: "crc7_be_byte b = (\<lambda>x. (msb_step 0x12 ^^ 8) (x XOR b))"
proof
  have "crc7_be_byte (x XOR b) 0 = (msb_step 0x12 ^^ 8) (x XOR b)" for x
  proof (rule linear_bytes [OF _ msb_pow_linear])
    show "crc7_be_byte (x XOR y) 0 = crc7_be_byte x 0 XOR crc7_be_byte y 0" for x y
      by (simp only: crc7_be_byte_def Let_def xor_linear xor_zero)
    show "\<forall>k < 8. crc7_be_byte (2 ^ k) 0 = (msb_step 0x12 ^^ 8) (2 ^ k)"
      by (simp add: less8 pow4 msb_step_def crc7_be_byte_def)
  qed
  then show "crc7_be_byte b x = (msb_step 0x12 ^^ 8) (x XOR b)" for x
    by (simp add: crc7_be_byte_def Let_def)
qed

lemma mask8: "(0xff :: 'w::len word) = mask 8"
  by (simp add: mask_eq_exp_minus_1)

lemma crc16_ccitt_byte_bits: "crc16_ccitt_byte b = (\<lambda>x. (reflect_step 0x8408 ^^ 8) (x XOR ucast b))"
proof
  fix x :: u16
  let ?e = "ucast x XOR b :: u8" and ?h = "x AND NOT 0xff"
  have f: "crc16_ccitt_byte e 0 = (reflect_step 0x8408 ^^ 8) (ucast e)" for e
  proof (rule linear_bytes)
    show "crc16_ccitt_byte (x XOR y) 0 = crc16_ccitt_byte x 0 XOR crc16_ccitt_byte y 0" for x y
      by (simp only: crc16_ccitt_byte_def Let_def xor_linear xor_zero unsigned_0 drop_bit_of_0 unsigned_xor_eq)
    show "(reflect_step 0x8408 ^^ 8) (ucast (x XOR y) :: u16) = (reflect_step 0x8408 ^^ 8) (ucast x) XOR (reflect_step 0x8408 ^^ 8) (ucast y)" for x y :: u8
      by (simp only: unsigned_xor_eq reflect_pow_linear)
    show "\<forall>k < 8. crc16_ccitt_byte (2 ^ k) 0 = (reflect_step 0x8408 ^^ 8) (ucast (2 ^ k :: u8))"
      by (simp add: less8 pow4 reflect_step_def crc16_ccitt_byte_def)
  qed
  have "x XOR ucast b = ?h XOR ucast ?e" by (auto simp: bit_eq_iff bit_simps mask8)
  moreover have "(reflect_step 0x8408 ^^ 8) ?h = drop_bit 8 x"
    by (subst reflect_funpow) (auto simp: bit_eq_iff bit_simps mask8 dest: bit_imp_le_length)
  moreover have "crc16_ccitt_byte b x = drop_bit 8 x XOR crc16_ccitt_byte ?e 0"
    by (simp add: crc16_ccitt_byte_def Let_def)
  ultimately show "crc16_ccitt_byte b x = (reflect_step 0x8408 ^^ 8) (x XOR ucast b)"
    by (simp only: reflect_pow_linear f)
qed

lemma crc16_itu_t_byte_bits: "crc16_itu_t_byte b = (\<lambda>x. (msb_step 0x1021 ^^ 8) (x XOR push_bit 8 (ucast b)))"
proof
  fix x :: u16
  define T :: "u16 \<Rightarrow> u16" where "T x = (let x = x XOR drop_bit 4 (x AND 0xff); x = x XOR push_bit 12 x in x XOR push_bit 5 (x AND 0xff))" for x
  let ?e = "ucast (drop_bit 8 x) XOR b :: u8"
  have lin: "T (x XOR y) = T x XOR T y" for x y
    by (simp only: T_def Let_def xor_linear and_xor)
  have f: "T (ucast e) = (msb_step 0x1021 ^^ 8) (push_bit 8 (ucast e))" for e :: u8
  proof (rule linear_bytes)
    show "T (ucast (x XOR y)) = T (ucast x) XOR T (ucast y)" for x y :: u8
      by (simp only: lin unsigned_xor_eq)
    show "(msb_step 0x1021 ^^ 8) (push_bit 8 (ucast (x XOR y)) :: u16) =
        (msb_step 0x1021 ^^ 8) (push_bit 8 (ucast x)) XOR (msb_step 0x1021 ^^ 8) (push_bit 8 (ucast y))" for x y :: u8
      by (simp only: unsigned_xor_eq msb_pow_linear push_bit_xor)
    show "\<forall>k < 8. T (ucast (2 ^ k :: u8)) = (msb_step 0x1021 ^^ 8) (push_bit 8 (ucast (2 ^ k :: u8)))"
      by (simp add: less8 pow4 msb_step_def T_def)
  qed
  have "crc16_itu_t_byte b x = T (push_bit 8 x XOR ucast ?e)"
  proof -
    have "(drop_bit 8 x OR push_bit 8 x) XOR ucast b = push_bit 8 x XOR ucast ?e"
      by (auto simp: bit_eq_iff bit_simps dest: bit_imp_le_length)
    then show ?thesis by (simp only: crc16_itu_t_byte_def T_def Let_def)
  qed
  also have "\<dots> = push_bit 8 x XOR T (ucast ?e)"
  proof -
    have "drop_bit 4 (push_bit 8 x AND 0xff) = 0" "push_bit 12 (push_bit 8 x) = 0" "push_bit 8 x AND 0xff = 0"
      by (auto simp: bit_eq_iff bit_simps mask8)
    then have "T (push_bit 8 x) = push_bit 8 x" by (simp only: T_def Let_def push_bit_of_0 xor.right_neutral)
    then show ?thesis by (simp only: lin)
  qed
  also have "\<dots> = (msb_step 0x1021 ^^ 8) ((x AND 0xff) XOR push_bit 8 (ucast ?e))"
  proof -
    have "(msb_step 0x1021 ^^ 8) (x AND 0xff) = push_bit 8 (x AND 0xff)"
      by (intro msb_funpow) (auto simp: bit_simps mask8)
    moreover have "push_bit 8 (x AND 0xff) = push_bit 8 x" by (auto simp: bit_eq_iff bit_simps mask8)
    ultimately show ?thesis by (simp only: msb_pow_linear f)
  qed
  also have "(x AND 0xff) XOR push_bit 8 (ucast ?e) = x XOR push_bit 8 (ucast b)"
    by (auto simp: bit_eq_iff bit_simps mask8)
  finally show "crc16_itu_t_byte b x = (msb_step 0x1021 ^^ 8) (x XOR push_bit 8 (ucast b))" .
qed

section \<open>Properties\<close>

text \<open>The registers of the polynomials that the routines are for.\<close>

interpretation ieee: shift_register "reflect_step (0xedb88320 :: u32)" ucast "push_bit 8" "\<lambda>n x. \<forall>i. bit x i \<longrightarrow> i < 8 * n" 4
  by (rule reflect_register) simp_all

interpretation castagnoli: shift_register "reflect_step (0x82F63B78 :: u32)" ucast "push_bit 8" "\<lambda>n x. \<forall>i. bit x i \<longrightarrow> i < 8 * n" 4
  by (rule reflect_register) simp_all

interpretation ccitt16: shift_register "reflect_step (0x8408 :: u16)" ucast "push_bit 8" "\<lambda>n x. \<forall>i. bit x i \<longrightarrow> i < 8 * n" 2
  by (rule reflect_register) simp_all

interpretation itu16: shift_register "msb_step (0x1021 :: u16)" "\<lambda>b. push_bit 8 (ucast b)" "drop_bit 8" "\<lambda>n x. \<forall>i. bit x i \<longrightarrow> 16 \<le> i + 8 * n" 2
  using msb_register [of "0x1021 :: u16" 2] by simp

interpretation ccitt8: shift_register "msb_step (7 :: u8)" "\<lambda>b. b" "drop_bit 8" "\<lambda>n x. \<forall>i. bit x i \<longrightarrow> 8 \<le> i + 8 * n" 1
  using msb_register [of "7 :: u8" 1] by simp

lemmas byte_bits = ext [OF crc32_ieee_byte_bits] ext [OF crc32c_byte_bits] ext [OF crc16_ccitt_byte_bits]
  ext [OF crc16_itu_t_byte_bits] ext [OF crc8_ccitt_byte_bits] ext [OF crc7_be_byte_bits]

lemma feeds:
  "crc32_ieee_update crc data = NOT (ieee.feed data (NOT crc))"
  "crc32_c crc data first_pkt last_pkt =
     (let x = castagnoli.feed data (if first_pkt then 0xFFFFFFFF else crc) in if last_pkt then x XOR 0xFFFFFFFF else x)"
  "crc16_ccitt seed data = ccitt16.feed data seed"
  "crc16_itu_t seed data = itu16.feed data seed"
  "crc8_ccitt val data = ccitt8.feed data val"
  by (simp_all only: crc32_ieee_update_def crc32_c_def crc16_ccitt_def crc16_itu_t_def crc8_ccitt_def Let_def byte_bits
      ieee.feed_def castagnoli.feed_def ccitt16.feed_def itu16.feed_def ccitt8.feed_def)

text \<open>The bit-serial checksum of a reflected polynomial of 32 bits, as the reference.\<close>

definition crc32_bits :: "u32 \<Rightarrow> u32 \<Rightarrow> u8 list \<Rightarrow> u32" where
  "crc32_bits poly seed src = fold (\<lambda>b crc. (reflect_step poly ^^ 8) (crc XOR ucast b)) src seed"

text \<open>
  C24. The fast checksums, from tables of sixteen entries or closed formulas, are those that
  the loops over single bits compute for the polynomials their descriptions name.
\<close>

theorem fast_crcs:
  "crc32_ieee_update crc data = NOT (crc32_bits 0xedb88320 (NOT crc) data) \<and>
   crc32_c crc data first_pkt last_pkt =
     (let x = crc32_bits 0x82F63B78 (if first_pkt then NOT 0 else crc) data in if last_pkt then NOT x else x) \<and>
   crc16_ccitt s16 data = crc16_reflect 0x8408 s16 data \<and>
   crc16_itu_t s16 data = crc16 0x1021 s16 data \<and>
   crc8_ccitt s8 data = crc8 data 0x07 s8 False \<and>
   crc7_be s8 data = crc8 data (push_bit 1 0x09) s8 False"
proof -
  have m: "(0xFFFFFFFF :: u32) = - 1" by simp
  show ?thesis
    unfolding crc32_ieee_update_def crc32_c_def crc32_bits_def byte_bits m crc16_ccitt_def crc16_reflect_def
      crc16_itu_t_def crc16_def crc8_ccitt_def crc8_def crc7_be_def bits_reflect bits_msb
    by (simp add: Let_def)
qed

text \<open>
  C25. Two messages that differ, but only within as many consecutive bytes as the checksum
  has, have different checksums: every burst of errors of that length is detected.
\<close>

theorem crc_detects_bursts:
  assumes "length bs = length cs" "bs \<noteq> cs"
  shows "(length bs \<le> 4 \<longrightarrow> crc32_ieee (pre @ bs @ post) \<noteq> crc32_ieee (pre @ cs @ post) \<and>
      crc32_c crc (pre @ bs @ post) first_pkt last_pkt \<noteq> crc32_c crc (pre @ cs @ post) first_pkt last_pkt) \<and>
    (length bs \<le> 2 \<longrightarrow> crc16_ccitt s16 (pre @ bs @ post) \<noteq> crc16_ccitt s16 (pre @ cs @ post) \<and>
      crc16_itu_t s16 (pre @ bs @ post) \<noteq> crc16_itu_t s16 (pre @ cs @ post)) \<and>
    (length bs \<le> 1 \<longrightarrow> crc8_ccitt s8 (pre @ bs @ post) \<noteq> crc8_ccitt s8 (pre @ cs @ post))"
proof -
  note b = ieee.burst [OF assms(1)] castagnoli.burst [OF assms(1)] ccitt16.burst [OF assms(1)] itu16.burst [OF assms(1)]
    ccitt8.burst [OF assms(1)]
  have i: "(if l then x XOR c else x) = (if l then y XOR c else y) \<longleftrightarrow> x = y" for l and x y c :: u32
    by (simp add: xor_cancel)
  show ?thesis
    unfolding crc32_ieee_def feeds Let_def using assms(2) b(1) [of pre post "NOT 0"] b(2) [of pre post "if first_pkt then 0xFFFFFFFF else crc"]
      b(3) [of pre post s16] b(4) [of pre post s16] b(5) [of pre post s8]
    by (simp only: i bit.compl_eq_compl_iff) blast
qed

theorem crc_detects_bursts_witness:
  "crc32_ieee ([1, 2] @ [3, 4] @ [5]) \<noteq> crc32_ieee ([1, 2] @ [3, 5] @ [5])"
  using crc_detects_bursts [of "[3, 4]" "[3, 5]" "[1, 2]" "[5]"] by simp

text \<open>A checksum can be computed piece by piece.\<close>

lemma crc_append:
  "crc32_ieee_update (crc32_ieee_update crc a) b = crc32_ieee_update crc (a @ b)"
  "crc32_c (crc32_c crc a first_pkt False) b False last_pkt = crc32_c crc (a @ b) first_pkt last_pkt"
  "crc16_ccitt (crc16_ccitt s16 a) b = crc16_ccitt s16 (a @ b)"
  "crc16_itu_t (crc16_itu_t s16 a) b = crc16_itu_t s16 (a @ b)"
  "crc8_ccitt (crc8_ccitt s8 a) b = crc8_ccitt s8 (a @ b)"
  "crc7_be (crc7_be s8 a) b = crc7_be s8 (a @ b)"
  by (simp_all add: crc32_ieee_update_def crc32_c_def crc16_ccitt_def crc16_itu_t_def crc8_ccitt_def crc7_be_def Let_def)

end
