(* ===== verification/Hex.thy ===== *)
theory Hex
  imports Prelude
begin

text \<open>
  Text representations of bytes: \<^verbatim>\<open>lib/os/hex.c\<close> and \<^verbatim>\<open>lib/os/dec.c\<close>. A buffer is the list
  of its bytes, a pointer into it an index; a result that the source
  stores through a pointer is returned. Sizes are 32-bit words.
\<close>

section \<open>The routines\<close>

definition char2hex :: "u8 \<Rightarrow> u8 option" where
  "char2hex c =
     (if 48 \<le> c \<and> c \<le> 57 then Some (c - 48)
      else if 97 \<le> c \<and> c \<le> 102 then Some (c - 97 + 10)
      else if 65 \<le> c \<and> c \<le> 70 then Some (c - 65 + 10)
      else None)"

definition hex2char :: "u8 \<Rightarrow> u8 option" where
  "hex2char x =
     (if x \<le> 9 then Some (x + 48)
      else if x \<le> 15 then Some (x - 10 + 97)
      else None)"

fun bin2hex_loop :: "nat \<Rightarrow> nat \<Rightarrow> u8 list \<Rightarrow> u8 list \<Rightarrow> bool \<times> u8 list" where
  "bin2hex_loop 0 i buf hex = (True, hex)"
| "bin2hex_loop (Suc n) i buf hex =
     (case hex2char (drop_bit 4 (buf ! i)) of
        None \<Rightarrow> (False, hex)
      | Some c \<Rightarrow> (let hex = hex[2 * i := c] in
          case hex2char (buf ! i AND 0xf) of
            None \<Rightarrow> (False, hex)
          | Some c \<Rightarrow> bin2hex_loop n (i + 1) buf (hex[2 * i + 1 := c])))"

definition bin2hex :: "u8 list \<Rightarrow> u32 \<Rightarrow> u8 list \<Rightarrow> u32 \<Rightarrow> u32 \<times> u8 list" where
  "bin2hex buf buflen hex hexlen =
     (if hexlen < buflen * 2 + 1 then (0, hex)
      else case bin2hex_loop (unat buflen) 0 buf hex of
        (False, hex) \<Rightarrow> (0, hex)
      | (True, hex) \<Rightarrow> (2 * buflen, hex[unat (2 * buflen) := 0]))"

text \<open>In \<open>hex2bin_loop\<close> the arguments \<open>h\<close> and \<open>b\<close> are the pointers \<open>hex\<close> and \<open>buf\<close>.\<close>

fun hex2bin_loop :: "nat \<Rightarrow> nat \<Rightarrow> nat \<Rightarrow> nat \<Rightarrow> u8 list \<Rightarrow> u8 list \<Rightarrow> bool \<times> u8 list" where
  "hex2bin_loop 0 i h b hex buf = (True, buf)"
| "hex2bin_loop (Suc n) i h b hex buf =
     (case char2hex (hex ! (h + 2 * i)) of
        None \<Rightarrow> (False, buf)
      | Some dec \<Rightarrow> (let buf = buf[b + i := push_bit 4 dec] in
          case char2hex (hex ! (h + 2 * i + 1)) of
            None \<Rightarrow> (False, buf)
          | Some dec \<Rightarrow> hex2bin_loop n (i + 1) h b hex (buf[b + i := buf ! (b + i) + dec])))"

definition hex2bin :: "u8 list \<Rightarrow> u32 \<Rightarrow> u8 list \<Rightarrow> u32 \<Rightarrow> u32 \<times> u8 list" where
  "hex2bin hex hexlen buf buflen =
     (if buflen < hexlen div 2 + hexlen mod 2 then (0, buf)
      else if hexlen mod 2 \<noteq> 0 \<and> char2hex (hex ! 0) = None then (0, buf)
      else let odd = hexlen mod 2 \<noteq> 0;
               buf = (if odd then buf[0 := the (char2hex (hex ! 0))] else buf);
               p = (if odd then 1 else 0)
           in case hex2bin_loop (unat (hexlen div 2)) 0 p p hex buf of
             (False, buf) \<Rightarrow> (0, buf)
           | (True, buf) \<Rightarrow> (hexlen div 2 + hexlen mod 2, buf))"

text \<open>\<open>u8_to_dec\<close>: the argument \<open>p\<close> is the pointer \<open>buf\<close>; the loop runs for the divisors 100, 10 and 1.\<close>

function u8_to_dec_loop :: "nat \<Rightarrow> u8 list \<Rightarrow> u8 \<Rightarrow> u8 \<Rightarrow> u8 \<Rightarrow> u8 \<Rightarrow> nat \<times> u8 list \<times> u8 \<times> u8" where
  "u8_to_dec_loop p buf buflen val divisor num_digits =
     (if buflen > 0 \<and> divisor > 0 then
        let digit = val div divisor;
            store = (digit \<noteq> 0 \<or> divisor = 1 \<or> num_digits \<noteq> 0)
        in u8_to_dec_loop (if store then p + 1 else p) (if store then buf[p := digit + 48] else buf)
             (if store then buflen - 1 else buflen) (val - digit * divisor) (divisor div 10)
             (if store then num_digits + 1 else num_digits)
      else (p, buf, buflen, num_digits))"
  by pat_completeness auto

termination
proof (relation "measure (\<lambda>(p, buf, buflen, val, divisor, num_digits). unat divisor)")
  fix p :: nat and buf :: "u8 list" and buflen val divisor num_digits x :: u8 and xa
  assume "0 < buflen \<and> 0 < divisor" 
  then have "unat (divisor div 10) < unat divisor"
    by (simp add: unat_div word_gt_0 unat_gt_0)
  then show "((if xa then p + 1 else p, if xa then buf[p := x + 48] else buf, if xa then buflen - 1 else buflen,
      val - x * divisor, divisor div 10, if xa then num_digits + 1 else num_digits), p, buf, buflen, val, divisor, num_digits)
    \<in> measure (\<lambda>(p, buf, buflen, val, divisor, num_digits). unat divisor)" by simp
qed simp

definition u8_to_dec :: "u8 list \<Rightarrow> u8 \<Rightarrow> u8 \<Rightarrow> u8 \<times> u8 list" where
  "u8_to_dec buf buflen val =
     (let (p, buf, buflen, num_digits) = u8_to_dec_loop 0 buf buflen val 100 0
      in (num_digits, if buflen \<noteq> 0 then buf[p := 0] else buf))"

section \<open>Hexadecimal\<close>

text \<open>A digit of a nibble, and the digits of bytes.\<close>

definition digit :: "u8 \<Rightarrow> u8" where
  "digit x = (if x \<le> 9 then x + 48 else x + 87)"

definition digits :: "u8 list \<Rightarrow> u8 list" where
  "digits bs = concat (map (\<lambda>b. [digit (drop_bit 4 b), digit (b AND 0xf)]) bs)"

lemma length_digits [simp]: "length (digits bs) = 2 * length bs"
  by (induction bs) (simp_all add: digits_def)

lemma digits_append: "digits (as @ bs) = digits as @ digits bs"
  by (simp add: digits_def)

lemma nibbles: "drop_bit 4 b \<le> (15 :: u8)" "b AND 0xf \<le> (15 :: u8)" "push_bit 4 (drop_bit 4 b) + (b AND 0xf) = (b :: u8)"
proof -
  have "unat b < 256" using unsigned_less [of b, where ?'a = nat] by simp
  then show "drop_bit 4 b \<le> (15 :: u8)" by (simp add: word_le_nat_alt unat_drop_bit_eq drop_bit_nat_def)
  have "b AND 0xf = take_bit 4 b" by (simp add: take_bit_eq_mask mask_eq_exp_minus_1)
  then show "push_bit 4 (drop_bit 4 b) + (b AND 0xf) = (b :: u8)" by (simp add: bits_ident)
qed (rule word_and_le1)

lemma hex2char_digit: "x \<le> 15 \<Longrightarrow> hex2char x = Some (digit x)"
  by (simp add: hex2char_def digit_def)

lemma char2hex_digit: "x \<le> 15 \<Longrightarrow> char2hex (digit x) = Some x"
proof -
  assume "x \<le> 15"
  then have "unat x < 16" by (simp add: word_le_nat_alt)
  moreover have "\<forall>n < 16. char2hex (digit (of_nat n)) = Some (of_nat n)"
    by (simp only: less16) (simp add: char2hex_def digit_def)
  ultimately have "char2hex (digit (of_nat (unat x))) = Some (of_nat (unat x))" by blast
  then show ?thesis by simp
qed

lemma bin2hex_loop_digits:
  "i + n \<le> length buf \<Longrightarrow> 2 * (i + n) \<le> length hex \<Longrightarrow>
   bin2hex_loop n i buf hex = (True, take (2 * i) hex @ digits (take n (drop i buf)) @ drop (2 * (i + n)) hex)"
proof (induction n arbitrary: i hex)
  case 0
  then show ?case by (simp add: digits_def)
next
  case (Suc n)
  let ?d = "digit (drop_bit 4 (buf ! i))" and ?e = "digit (buf ! i AND 0xf)"
  let ?hex = "hex[2 * i := ?d, 2 * i + 1 := ?e]"
  have "take (2 * (i + 1)) ?hex = take (2 * i) hex @ [?d, ?e]"
    using Suc.prems by (simp add: take_Suc_conv_app_nth take_update_swap list_update_append min_def)
  moreover have "drop (2 * (i + 1 + n)) ?hex = drop (2 * (i + Suc n)) hex" by (simp add: drop_update_swap)
  moreover have "take (Suc n) (drop i buf) = buf ! i # take n (drop (i + 1) buf)"
    using Suc.prems by (simp add: Cons_nth_drop_Suc [symmetric])
  ultimately show ?case
    using Suc.IH [of "i + 1" ?hex] Suc.prems by (simp add: hex2char_digit nibbles digits_def Let_def)
qed

text \<open>What a string of an even number of digits denotes.\<close>

fun parse :: "u8 list \<Rightarrow> u8 list option" where
  "parse [] = Some []"
| "parse (c # d # cs) =
     (case (char2hex c, char2hex d, parse cs) of (Some x, Some y, Some bs) \<Rightarrow> Some ((push_bit 4 x + y) # bs) | _ \<Rightarrow> None)"
| "parse [c] = None"

lemma parse_digits: "parse (digits bs) = Some bs"
  by (induction bs) (simp_all add: digits_def char2hex_digit nibbles)

lemma hex2bin_loop_parse:
  assumes "h + 2 * (i + n) \<le> length hex" "b + i + n \<le> length buf"
  shows "case parse (take (2 * n) (drop (h + 2 * i) hex)) of
      None \<Rightarrow> \<not> fst (hex2bin_loop n i h b hex buf)
    | Some bs \<Rightarrow> hex2bin_loop n i h b hex buf = (True, take (b + i) buf @ bs @ drop (b + i + n) buf)"
  using assms
proof (induction n arbitrary: i buf)
  case 0
  then show ?case by simp
next
  case (Suc n)
  let ?c = "hex ! (h + 2 * i)" and ?d = "hex ! (h + 2 * i + 1)"
  let ?rest = "take (2 * n) (drop (h + 2 * (i + 1)) hex)"
  have cons: "take (2 * Suc n) (drop (h + 2 * i) hex) = ?c # ?d # ?rest"
    using Suc.prems by (simp add: Cons_nth_drop_Suc [symmetric])
  show ?case
  proof (cases "char2hex ?c = None \<or> char2hex ?d = None")
    case True
    then show ?thesis unfolding cons by (auto simp: Let_def split: option.splits)
  next
    case False
    then obtain x y where xy: "char2hex ?c = Some x" "char2hex ?d = Some y" by auto
    let ?buf = "buf[b + i := push_bit 4 x + y]"
    have step: "hex2bin_loop (Suc n) i h b hex buf = hex2bin_loop n (i + 1) h b hex ?buf"
      using Suc.prems xy by (simp add: Let_def)
    have "take (b + (i + 1)) ?buf = take (b + i) buf @ [push_bit 4 x + y]"
      using Suc.prems by (simp add: take_Suc_conv_app_nth take_update_swap list_update_append min_def)
    moreover have "drop (b + (i + 1) + n) ?buf = drop (b + i + Suc n) buf" by (simp add: drop_update_swap)
    moreover have "case parse ?rest of None \<Rightarrow> \<not> fst (hex2bin_loop n (i + 1) h b hex ?buf)
      | Some bs \<Rightarrow> hex2bin_loop n (i + 1) h b hex ?buf = (True, take (b + (i + 1)) ?buf @ bs @ drop (b + (i + 1) + n) ?buf)"
      using Suc.prems by (intro Suc.IH) simp_all
    ultimately show ?thesis
      by (simp only: step cons parse.simps) (simp add: xy [simplified] split: option.splits)
  qed
qed

definition hex_value :: "u8 list \<Rightarrow> u8 list option" where
  "hex_value cs =
     (if even (length cs) then parse cs
      else case (char2hex (hd cs), parse (tl cs)) of (Some x, Some bs) \<Rightarrow> Some (x # bs) | _ \<Rightarrow> None)"

lemma parse_length: "parse cs = Some bs \<Longrightarrow> length cs = 2 * length bs"
  by (induction cs arbitrary: bs rule: parse.induct) (auto split: option.splits)

lemma half_word: "unat (n div 2 + n mod 2 :: u32) = unat n div 2 + unat n mod 2"
proof -
  have "unat n < 2 ^ 32" using unsigned_less [of n, where ?'a = nat] by simp
  then show ?thesis by (simp add: unat_word_ariths unat_div unat_mod)
qed

lemma odd_word: "n mod 2 \<noteq> 0 \<longleftrightarrow> odd (unat (n :: u32))"
proof -
  have "n mod 2 \<noteq> 0 \<longleftrightarrow> unat (n mod 2) \<noteq> 0" by (simp only: unat_eq_zero)
  then show ?thesis by (simp only: unat_mod) (simp add: odd_iff_mod_2_eq_one)
qed

lemma hex2bin_value:
  assumes "length hex = unat hexlen" "length buf = unat buflen"
  shows "hex2bin hex hexlen buf buflen = (n, buf') \<Longrightarrow>
    (case hex_value hex of None \<Rightarrow> n = 0
     | Some bs \<Rightarrow> if length bs \<le> unat buflen then unat n = length bs \<and> buf' = bs @ drop (length bs) buf else n = 0 \<and> buf' = buf)"
proof -
  assume r: "hex2bin hex hexlen buf buflen = (n, buf')"
  define m where "m = unat hexlen div 2"
  have len: "unat (hexlen div 2) = m" by (simp add: m_def unat_div)
  have size: "buflen < hexlen div 2 + hexlen mod 2 \<longleftrightarrow> unat buflen < m + unat hexlen mod 2"
    by (simp add: word_less_nat_alt half_word m_def)
  show ?thesis
  proof (cases "odd (unat hexlen)")
    case False
    then have h: "unat hexlen = 2 * m" "hexlen mod 2 = 0" using odd_word [of hexlen] by (auto simp: m_def)
    show ?thesis
    proof (cases "unat buflen < m")
      case True
      then show ?thesis using r size h assms parse_length by (auto simp: hex2bin_def hex_value_def split: option.splits)
    next
      case False
      have "case parse (take (2 * m) (drop (0 + 2 * 0) hex)) of None \<Rightarrow> \<not> fst (hex2bin_loop m 0 0 0 hex buf)
        | Some bs \<Rightarrow> hex2bin_loop m 0 0 0 hex buf = (True, take (0 + 0) buf @ bs @ drop (0 + 0 + m) buf)"
        using False h assms by (intro hex2bin_loop_parse) simp_all
      moreover have "take (2 * m) (drop (0 + 2 * 0) hex) = hex" "hex_value hex = parse hex"
        using assms h by (simp_all add: hex_value_def)
      moreover have "hex2bin hex hexlen buf buflen =
          (case hex2bin_loop m 0 0 0 hex buf of (ok, buf) \<Rightarrow> (if ok then hexlen div 2 + hexlen mod 2 else 0, buf))"
        using size h False len by (simp add: hex2bin_def split: bool.splits prod.splits)
      moreover have "unat (hexlen div 2 + hexlen mod 2) = m" unfolding half_word using h(1) by simp
      ultimately show ?thesis
        using r parse_length [of hex] assms h False by (auto split: option.splits prod.splits)
    qed
  next
    case True
    then have h: "unat hexlen = 2 * m + 1" "hexlen mod 2 \<noteq> 0" using odd_word [of hexlen] by (auto simp: m_def)
    then obtain c cs where hex: "hex = c # cs" "length cs = 2 * m" using assms by (cases hex) auto
    show ?thesis
    proof (cases "unat buflen < m + 1 \<or> char2hex c = None")
      case True
      then show ?thesis using r size h assms hex parse_length [of cs]
        by (auto simp: hex2bin_def hex_value_def split: option.splits)
    next
      case False
      then obtain x where x: "char2hex c = Some x" by auto
      let ?buf = "buf[0 := x]"
      have "case parse (take (2 * m) (drop (1 + 2 * 0) hex)) of None \<Rightarrow> \<not> fst (hex2bin_loop m 0 1 1 hex ?buf)
        | Some bs \<Rightarrow> hex2bin_loop m 0 1 1 hex ?buf = (True, take (1 + 0) ?buf @ bs @ drop (1 + 0 + m) ?buf)"
        using False h assms hex by (intro hex2bin_loop_parse) simp_all
      moreover have "take (1 + 0) ?buf = [x]" "drop (1 + 0 + m) ?buf = drop (m + 1) buf" using False assms by (cases buf; simp)+
      moreover have "take (2 * m) (drop (1 + 2 * 0) hex) = cs"
          "hex_value hex = (case parse cs of Some bs \<Rightarrow> Some (x # bs) | None \<Rightarrow> None)"
        using hex x by (simp_all add: hex_value_def split: option.splits)
      moreover have "hex2bin hex hexlen buf buflen =
          (case hex2bin_loop m 0 1 1 hex ?buf of (ok, buf) \<Rightarrow> (if ok then hexlen div 2 + hexlen mod 2 else 0, buf))"
        using size h False len hex x by (simp add: hex2bin_def split: bool.splits prod.splits)
      moreover have "unat (hexlen div 2 + hexlen mod 2) = m + 1" unfolding half_word using h(1) by simp
      ultimately show ?thesis
        using r parse_length [of cs] assms h False hex by (auto split: option.splits prod.splits)
    qed
  qed
qed

lemma bin2hex_digits:
  assumes "length buf = unat buflen" "2 * length buf + 1 \<le> unat hexlen" "length hex = unat hexlen"
  shows "bin2hex buf buflen hex hexlen = (2 * buflen, digits buf @ 0 # drop (2 * length buf + 1) hex)"
proof -
  have b: "2 * unat buflen + 1 < 2 ^ 32" using assms(1,2) unsigned_less [of hexlen, where ?'a = nat] by simp
  then have "unat (buflen * 2 + 1) = 2 * unat buflen + 1" "unat (2 * buflen) = 2 * unat buflen"
    by (simp_all add: unat_word_ariths)
  moreover have "bin2hex_loop (unat buflen) 0 buf hex = (True, digits buf @ drop (2 * length buf) hex)"
    using bin2hex_loop_digits [of 0 "unat buflen" buf hex] assms by simp
  moreover have "drop (2 * length buf) hex = hex ! (2 * length buf) # drop (2 * length buf + 1) hex"
    using assms by (simp add: Cons_nth_drop_Suc)
  ultimately show ?thesis
    using assms by (simp add: bin2hex_def word_less_nat_alt list_update_append)
qed



section \<open>Decimal\<close>

definition dec_string :: "nat \<Rightarrow> u8 list" where
  "dec_string n = map (\<lambda>d. of_nat d + 48)
     (if n < 10 then [n] else if n < 100 then [n div 10, n mod 10] else [n div 100, n div 10 mod 10, n mod 10])"

text \<open>
  The decimal digits of a byte, as many as fit, most significant first, and a
  NUL behind them if it fits: too small a buffer is not reported as an error.
\<close>

declare u8_to_dec_loop.simps [simp del]

lemma dec_digits:
  fixes w :: u8
  shows "w div 100 = of_nat (unat w div 100)" "w mod 100 div 10 = of_nat (unat w div 10 mod 10)" "w mod 100 mod 10 = of_nat (unat w mod 10)"
proof -
  have b: "unat w < 256" using unsigned_less [of w, where ?'a = nat] by simp
  have "n mod 100 = 10 * (n div 10 mod 10) + n mod (10 :: nat)" for n using mod_mult2_eq [of n 10 10] by simp
  then have m: "n mod 100 div 10 = n div 10 mod (10 :: nat)" "n mod 100 mod 10 = n mod (10 :: nat)" for n
    by simp_all
  have o: "x = of_nat n" if "unat x = n" for x :: u8 and n using that by auto
  show "w div 100 = of_nat (unat w div 100)" by (rule o) (simp add: unat_div)
  show "w mod 100 div 10 = of_nat (unat w div 10 mod 10)" by (rule o) (simp add: unat_div unat_mod m)
  show "w mod 100 mod 10 = of_nat (unat w mod 10)" by (rule o) (simp add: unat_mod m)
qed

lemma small_word: "n < 256 \<Longrightarrow> (of_nat n :: u8) = 0 \<longleftrightarrow> n = 0" "n < 256 \<Longrightarrow> (0 :: u8) < of_nat n \<longleftrightarrow> 0 < n"
proof -
  assume "n < 256"
  then have "unat (of_nat n :: u8) = n" by (simp add: unat_of_nat take_bit_nat_def)
  then show "(of_nat n :: u8) = 0 \<longleftrightarrow> n = 0" "(0 :: u8) < of_nat n \<longleftrightarrow> 0 < n" 
    by (metis unat_eq_zero, metis unat_gt_0 word_gt_0)
qed

text \<open>One round of the loop, and its end.\<close>

lemma dec_round:
  "u8_to_dec_loop p buf l v d n =
     (if 0 < l \<and> 0 < d then
        if v div d \<noteq> 0 \<or> d = 1 \<or> n \<noteq> 0
        then u8_to_dec_loop (p + 1) (buf[p := v div d + 48]) (l - 1) (v mod d) (d div 10) (n + 1)
        else u8_to_dec_loop p buf l (v mod d) (d div 10) n
      else (p, buf, l, n))"
  by (subst u8_to_dec_loop.simps) (simp add: Let_def minus_div_mult_eq_mod)

lemma u8_to_dec_string:
  assumes "length buf = unat buflen" "length (dec_string (unat val)) < unat buflen"
  shows "u8_to_dec buf buflen val =
    (of_nat (length (dec_string (unat val))), dec_string (unat val) @ 0 # drop (length (dec_string (unat val)) + 1) buf)"
proof -
  note r = dec_round [where d = 100] dec_round [where d = 10] dec_round [where d = 1] dec_round [where d = 0]
  define n where "n = unat val"
  have b: "n < 256" using unsigned_less [of val, where ?'a = nat] by (simp add: n_def)
  have l: "length buf < 256" "buflen = of_nat (length buf)" using assms unsigned_less [of buflen, where ?'a = nat] by simp_all
  note d = dec_digits [of val, folded n_def] and z = small_word [of "n div 100"] small_word [of "n div 10 mod 10"]
  consider "n < 10" | "10 \<le> n" "n < 100" | "100 \<le> n" by linarith
  then show ?thesis
  proof cases
    case 1
    then have s: "dec_string n = [of_nat n + 48]" by (simp add: dec_string_def)
    then obtain a c rest where buf: "buf = a # c # rest"
      using assms by (cases buf; cases "tl buf") (auto simp: n_def)
    have z0: "n div 100 = 0" "n div 10 = 0" "n mod 10 = n" using 1 by auto
    have "0 < buflen" "buflen - 1 \<noteq> 0"
      using l small_word [of "length buf"] small_word [of "length rest + 1"] buf by auto
    then show ?thesis
      unfolding u8_to_dec_def n_def [symmetric] s
      by (simp add: r d z z0 buf Let_def)
  next
    case 2
    then have s: "dec_string n = [of_nat (n div 10) + 48, of_nat (n mod 10) + 48]" by (simp add: dec_string_def)
    then have "2 < length buf" using assms by (simp add: n_def)
    then obtain a c e rest where buf: "buf = a # c # e # rest"
      by (cases buf; cases "tl buf"; cases "tl (tl buf)") auto
    have z0: "n div 100 = 0" "n div 10 mod 10 = n div 10" "n div 10 \<noteq> 0" using 2 by auto
    have "0 < buflen" "0 < buflen - 1" "buflen - 2 \<noteq> 0"
      using l small_word [of "length buf"] small_word [of "length rest + 2"] small_word [of "length rest + 1"] buf by auto
    then show ?thesis
      unfolding u8_to_dec_def n_def [symmetric] s
      using small_word [of "n div 10"] z0 2 by (simp add: r d buf Let_def)
  next
    case 3
    then have s: "dec_string n = [of_nat (n div 100) + 48, of_nat (n div 10 mod 10) + 48, of_nat (n mod 10) + 48]" by (simp add: dec_string_def)
    then have "3 < length buf" using assms by (simp add: n_def)
    then obtain a c e f rest where buf: "buf = a # c # e # f # rest"
      by (cases buf; cases "tl buf"; cases "tl (tl buf)"; cases "tl (tl (tl buf))") auto
    have z0: "n div 100 \<noteq> 0" "n div 100 < 256" using 3 b by auto
    have "0 < buflen" "0 < buflen - 1" "0 < buflen - 2" "buflen - 3 \<noteq> 0"
      using l small_word [of "length buf"] small_word [of "3 + length rest"] small_word [of "length rest + 2"]
        small_word [of "length rest + 1"] buf by auto
    then show ?thesis
      unfolding u8_to_dec_def n_def [symmetric] s
      using small_word [of "n div 100"] z0 by (simp add: r d buf Let_def)
  qed
qed

text \<open>Too small a buffer is not reported: the leading digits are stored and counted.\<close>

lemma u8_to_dec_truncates: "u8_to_dec [0, 0] 2 123 = (2, [49, 50])"
  by (simp add: u8_to_dec_def dec_round [where d = 100] dec_round [where d = 10] dec_round [where d = 1] Let_def)

end
