(* ===== verification/Spec2Isabelle.thy ===== *)
theory Spec2Isabelle
  imports Dlist System Crc Hex
begin

text \<open>
  A verification library for the kernel of Zephyr (version 3.4.99), the code under \<^verbatim>\<open>src/kernel\<close>
  with the headers it is written on, and the library routines of \<^verbatim>\<open>src/lib/os\<close> named below.

  \<^bold>\<open>The program.\<close> Threads run, wait and sleep. The scheduler keeps the ready threads
  in a run queue and each waiting thread in the wait queue of one kernel object; the timeout
  queue keeps what is to happen at a later tick. The kernel objects (semaphores, mutexes,
  condition variables, message queues, stacks, memory slabs, queues, events, timers)
  are a few words of state and a wait queue each, and call the scheduler to block
  the caller and to wake others. A timer driver announces ticks from its interrupt; the announcement
  runs the callbacks of due timeouts, which wake threads, end time slices and run timers.

  \<^bold>\<open>Configuration.\<close> One CPU, \<open>CONFIG_MULTITHREADING\<close>, \<open>CONFIG_SCHED_DUMB\<close> and
  \<open>CONFIG_WAITQ_DUMB\<close>, \<open>CONFIG_USE_SWITCH\<close>, \<open>CONFIG_TIMESLICING\<close>, \<open>CONFIG_TIMEOUT_64BIT\<close>,
  \<open>CONFIG_EVENTS\<close>, \<open>CONFIG_MEM_SLAB_TRACE_MAX_UTILIZATION\<close>; no \<open>CONFIG_POLL\<close>, no
  \<open>CONFIG_USERSPACE\<close>; a 32-bit target. An assert of the source is a precondition.

  \<^bold>\<open>State and operations.\<close> The record \<open>timeout_state\<close> (\<^verbatim>\<open>timeout.c\<close>) is extended by \<open>kernel\<close>
  (\<open>_kernel\<close>, the threads, wait queues, memory), and that by the timers and, in
  \<open>System\<close>, by all objects. An operation is a definition with the name of its C function
  that takes the object and the state and returns both, with the result.
  A call that may block returns \<open>Ret r\<close> or \<open>Pend\<close>; the code behind the context switch is a
  definition of its own whose name ends in \<open>_resume\<close>. Words have the width of the source; 64-bit
  tick counts are integers. Allocators and functions of the application are parameters.

  \<^bold>\<open>Theories.\<close>
  \<^item> \<open>Prelude\<close>: machine types, error numbers, shared facts on lists.
  \<^item> \<open>Dlist\<close>: \<^verbatim>\<open>include/zephyr/sys/dlist.h\<close> on a heap of nodes, and that it implements HOL lists,
    by which the other theories model lists.
  \<^item> \<open>Genlist\<close>: \<^verbatim>\<open>list_gen.h\<close>, \<^verbatim>\<open>slist.h\<close>, \<^verbatim>\<open>sflist.h\<close>, likewise, with the flags in the link word.
  \<^item> \<open>Timeout\<close>: \<^verbatim>\<open>kernel/timeout.c\<close>; the delta list as a set of deadlines, and what an announcement runs.
  \<^item> \<open>Time_Units\<close>: \<^verbatim>\<open>include/zephyr/sys/time_units.h\<close>; exactness and overflow bounds of the conversions.
  \<^item> \<open>Thread\<close>, \<open>Priq\<close>, \<open>Sched\<close>: \<^verbatim>\<open>kernel/sched.c\<close>, \<^verbatim>\<open>thread.c\<close>, \<^verbatim>\<open>ksched.h\<close>, \<^verbatim>\<open>kswap.h\<close>;
    the two run queues are equivalent.
  \<^item> \<open>Sched_Inv\<close>, \<open>Sched_Ops\<close>, \<open>Boot\<close>: the invariant of the scheduler, that every operation keeps it, and
    that it holds after \<^verbatim>\<open>kernel/init.c\<close>.
  \<^item> \<open>Sched_Props\<close>: what blocking, waking, yielding, time slices, suspension, priorities and abort do.
  \<^item> \<open>Waitq\<close>: the uses of wait queues that the objects share.
  \<^item> \<open>Sem\<close>, \<open>Mutex\<close>, \<open>Condvar\<close>, \<open>Msgq\<close>, \<open>Stack\<close>, \<open>Mem_Slab\<close>, \<open>Queue\<close>, \<open>Events\<close>, \<open>Timer\<close>: the C file of
    that name in \<^verbatim>\<open>kernel\<close> (\<^verbatim>\<open>msg_q.c\<close> for \<open>Msgq\<close>): its operations, the abstract object they
    implement, and what each does on every branch.
  \<^item> \<open>Kernel_Inv\<close>, \<open>System\<close>: that the operations of all objects keep the invariant, and the kernel as a
    transition system whose steps are the calls, interrupts and ticks.
  \<^item> \<open>Crc\<close>: the checksums of \<^verbatim>\<open>lib/os\<close>; the fast variants equal the bit-serial ones, and bursts of
    errors up to the length of the checksum are detected.
  \<^item> \<open>Hex\<close>: \<^verbatim>\<open>lib/os/hex.c\<close> and \<^verbatim>\<open>dec.c\<close>; the round trip of bytes and hexadecimal text, and decimal text.
  \<^bold>\<open>Bounds.\<close> Loops over a wait queue are structural or bounded by its length, which each
  round makes smaller. Loops over linked nodes and the announcement of ticks
  are partial functions, proved to return on well-formed lists and, for periodic
  timers, with positive periods.

  \<^bold>\<open>Not modelled.\<close> Several CPUs, because the model has one running thread and
  an operation is one step; a context switch inside an architecture port, which is the change of
  \<open>current_thread\<close>; the tree-based queues, polling, pipes, mailboxes, work queues, heaps and
  the userspace verifiers of \<^verbatim>\<open>kernel\<close>; the rest of \<^verbatim>\<open>lib\<close>; drivers, boards, file systems, network and Bluetooth stacks, which
  are hardware access or far larger than the kernel and rest on it. In \<open>System\<close> a step is a whole
  call: interrupts are masked while it runs, or what it does outside of the lock
  is private to the caller.
\<close>

section \<open>Properties of the whole kernel\<close>


text \<open>A system with one thread beside the main one, after the main thread has blocked on a semaphore.\<close>

definition boot_system :: system where
  "boot_system = kernel.extend (kernel_boot 0)
     \<lparr>timers = \<lambda>n. \<lparr>timer_wait_q = WQ (9 * n), expiry_set = True, stop_set = False, period = 0, status = 0, user_data = 0\<rparr>,
      sems = \<lambda>n. \<lparr>sem_wait_q = WQ (9 * n + 1), count = 0, limit = 1\<rparr>,
      mutexes = \<lambda>n. \<lparr>mutex_wait_q = WQ (9 * n + 2), owner = None, lock_count = 0, owner_orig_prio = 0\<rparr>,
      condvars = \<lambda>n. \<lparr>condvar_wait_q = WQ (9 * n + 3)\<rparr>,
      msgqs = \<lambda>n. \<lparr>msgq_wait_q = WQ (9 * n + 4), msg_size = 4, max_msgs = 0, buffer_start = 0, buffer_end = 0,
        read_ptr = 0, write_ptr = 0, used_msgs = 0, msgq_flags = 0\<rparr>,
      stacks = \<lambda>n. \<lparr>stack_wait_q = WQ (9 * n + 5), stack_base = 0, stack_next = 0, stack_top = 0, stack_flags = 0\<rparr>,
      slabs = \<lambda>n. \<lparr>slab_wait_q = WQ (9 * n + 6), num_blocks = 0, block_size = 4, buffer = 0, free_list = 0, num_used = 0, max_used = 0\<rparr>,
      queues = \<lambda>n. \<lparr>data_q = \<lparr>list_head = 0, list_tail = 0\<rparr>, queue_wait_q = WQ (9 * n + 7)\<rparr>,
      event_objs = \<lambda>n. \<lparr>event_wait_q = WQ (9 * n + 8), evts = 0\<rparr>\<rparr>"

lemma booted_boot_system: "booted 0 boot_system"
  by (simp add: booted_def boot_system_def kernel.defs)

definition one_blocked :: system where
  "one_blocked = the (exec (wake_env 3) (Sem_take 0 5) (the (exec (wake_env 3) (Create 3 5 0 K_NO_WAIT) boot_system)))"

lemma one_blocked_reach: "reach (wake_env 3) boot_system one_blocked"
proof -
  let ?s = "the (exec (wake_env 3) (Create 3 5 0 K_NO_WAIT) boot_system)"
  have "allowed (Create 3 5 0 K_NO_WAIT) boot_system" by code_simp
  then have "reach (wake_env 3) boot_system ?s" by (rule reach.step [OF reach.start]) simp
  moreover have "allowed (Sem_take 0 5) ?s" by (simp only: allowed.simps blocking_def in_thread_def runs_def) code_simp
  ultimately show ?thesis unfolding one_blocked_def by (rule reach.step) (simp add: case_prod_beta Let_def)
qed


text \<open>
  C2. A call that fails at once fails with the error its description names, and has no
  effect: neither the object nor the scheduler, nor the interrupt lock, nor memory changes,
  except that a failed allocation from a slab clears the pointer of the caller.
\<close>

theorem failed_calls_change_nothing:
  "(k_sem_take sem n k = (Ret r, sem', k') \<and> r \<noteq> 0 \<longrightarrow> r = - EBUSY \<and> n = K_NO_WAIT \<and> count sem = 0 \<and> sem' = sem \<and> k' = k) \<and>
   (k_mutex_lock mutex n k = (Ret r, b, mutex', k') \<and> r \<noteq> 0 \<longrightarrow> r = - EBUSY \<and> n = K_NO_WAIT \<and> mutex' = mutex \<and> k' = k) \<and>
   (k_mutex_unlock mutex k = (r, mutex', k') \<and> r \<noteq> 0 \<longrightarrow>
      r = (if owner mutex = None then - EINVAL else - EPERM) \<and> owner mutex \<noteq> Some (current_thread k) \<and> mutex' = mutex \<and> k' = k) \<and>
   (k_msgq_put msgq d n k = (Ret r, msgq', k') \<and> r \<noteq> 0 \<longrightarrow>
      r = - ENOMSG \<and> n = K_NO_WAIT \<and> max_msgs msgq \<le> used_msgs msgq \<and> msgq' = msgq \<and> k' = k) \<and>
   (k_msgq_get msgq d n k = (Ret r, msgq', k') \<and> r \<noteq> 0 \<longrightarrow> r = - ENOMSG \<and> n = K_NO_WAIT \<and> used_msgs msgq = 0 \<and> msgq' = msgq \<and> k' = k) \<and>
   (k_stack_push stack d k = (r, stack', k') \<and> r \<noteq> 0 \<longrightarrow> r = - ENOMEM \<and> stack_next stack = stack_top stack \<and> stack' = stack \<and> k' = k) \<and>
   (k_stack_pop stack d n k = (Ret r, stack', k') \<and> r \<noteq> 0 \<longrightarrow> r = - EBUSY \<and> n = K_NO_WAIT \<and> stack_next stack \<le> stack_base stack \<and> stack' = stack \<and> k' = k) \<and>
   (k_mem_slab_alloc slab d n k = (Ret r, slab', k') \<and> r \<noteq> 0 \<longrightarrow>
      r = - ENOMEM \<and> n = K_NO_WAIT \<and> free_list slab = 0 \<and> slab' = slab \<and> k' = k\<lparr>cells := (cells k)(d := 0)\<rparr>) \<and>
   (queue_insert malloc queue prev d alloc app k = (r, queue', k') \<and> r \<noteq> 0 \<longrightarrow> r = - ENOMEM \<and> alloc \<and> malloc 8 = 0 \<and> queue' = queue \<and> k' = k) \<and>
   (k_thread_join t n k = (Ret r, k') \<and> r \<noteq> 0 \<longrightarrow>
      (r = - EBUSY \<and> n = K_NO_WAIT \<or> r = - EDEADLK \<and> (t = current_thread k \<or> pended_on (threads k t) = Some (JoinQ (current_thread k)))) \<and> k' = k)"
proof -
  have none: "k2 = k1" if "z_unpend_first_thread q k1 = (None, k2)" for q and k1 k2 :: "'a kernel_scheme"
    using that by (auto simp: z_unpend_first_thread_def split: option.splits)
  show ?thesis
  proof (intro conjI impI; elim conjE)
    assume "k_mutex_unlock mutex k = (r, mutex', k')" "r \<noteq> 0"
    then show "r = (if owner mutex = None then - EINVAL else - EPERM)" "owner mutex \<noteq> Some (current_thread k)" "mutex' = mutex" "k' = k"
      by (auto simp: k_mutex_unlock_def Let_def split: if_splits prod.splits option.splits)
  qed (auto simp: k_sem_take_def k_mutex_lock_def k_msgq_put_def k_msgq_get_def k_stack_push_def k_stack_pop_def
      k_mem_slab_alloc_def queue_insert_def new_node_def k_thread_join_def k_spin_lock_def k_spin_unlock_def Let_def word_gt_0
      dest!: none split: if_splits prod.splits option.splits)
qed

theorem failed_calls_change_nothing_witness:
  "k_msgq_get msgq2 0 K_NO_WAIT busy = (Ret (- ENOMSG), msgq2, busy)"
proof -
  let ?x = "k_msgq_get msgq2 0 K_NO_WAIT busy"
  have "fst ?x = Ret (- ENOMSG)" by (simp add: k_msgq_get_def msgq2_def k_spin_lock_def)
  then have "?x = (Ret (- ENOMSG), fst (snd ?x), snd (snd ?x))" by (metis prod.collapse)
  moreover have "- ENOMSG \<noteq> 0" by code_simp
  ultimately have "fst (snd ?x) = msgq2 \<and> snd (snd ?x) = busy" 
    using failed_calls_change_nothing [where msgq = msgq2 and d = 0 and n = K_NO_WAIT and k = busy and r = "- ENOMSG"
        and msgq' = "fst (snd ?x)" and k' = "snd (snd ?x)"] by blast
  with \<open>?x = _\<close> show ?thesis by simp
qed

end
